(* ===== verification/Prelude.thy ===== *)
theory Prelude
  imports Main "HOL-Library.Word" "HOL-Library.Sublist" "HOL-Library.Monad_Syntax"
begin

text \<open>
  Shared vocabulary of the development: the machine types of the storage engine (bytes, 32-bit and
  64-bit unsigned integers, byte strings standing for \<open>Slice\<close> and \<open>std::string\<close>), the collections of
  rewrite rules the component theories extend, and the generic facts on words and lists that more than
  one component needs.
\<close>

unbundle bit_operations_syntax

type_synonym byte = "8 word"
type_synonym u32 = "32 word"
type_synonym u64 = "64 word"

text \<open>
  A \<open>Slice\<close> is a pointer and a length into memory that nobody changes while the slice is in use; it
  is modelled by the bytes it shows, and so is \<open>std::string\<close>.
\<close>

type_synonym bytes = "byte list"
type_synonym slice = "byte list"

text \<open>
  \<open>coding_simps\<close> collects the round-trip equations of the encoders, \<open>len_simps\<close> the lengths of what
  they write; both grow with each component.
\<close>

named_theorems coding_simps "decoding what an encoder wrote"
named_theorems len_simps "number of bytes an encoder writes"

subsection \<open>Text\<close>

text \<open>String literals of the source, and what \<open>printf\<close> writes for \<open>%d\<close> and \<open>%llu\<close>.\<close>

definition str :: "string \<Rightarrow> bytes" where
  "str = map of_char"

fun decimal :: "nat \<Rightarrow> bytes" where
  "decimal n = (if n < 10 then [of_nat (48 + n)] else decimal (n div 10) @ [of_nat (48 + n mod 10)])"

declare decimal.simps [simp del]

definition decimal_int :: "int \<Rightarrow> bytes" where
  "decimal_int i = (if i < 0 then 45 # decimal (nat (- i)) else decimal (nat i))"

subsection \<open>Words\<close>

lemma unat_drop_bit_div: "unat (drop_bit n w) = unat w div 2 ^ n"
  for w :: "'a::len word"
proof -
  have "unat (drop_bit n w) = drop_bit n (unat w)"
    by (simp add: unsigned_drop_bit_eq take_bit_nat_eq_self unsigned_less)
  then show ?thesis by (simp only: drop_bit_eq_div)
qed

lemma unat_ucast_le:
  "LENGTH('a) \<le> LENGTH('b) \<Longrightarrow> unat (ucast w :: 'b::len word) = unat w"
  for w :: "'a::len word"
  by (simp add: unsigned_ucast_eq)
     (metis order.strict_trans2 take_bit_nat_eq_self power_increasing_iff
        one_less_numeral_iff semiring_norm(76) unsigned_less)

lemma unat_ucast_mod: "unat (ucast w :: 'b::len word) = unat w mod 2 ^ LENGTH('b)"
  for w :: "'a::len word"
  by (simp add: unsigned_ucast_eq take_bit_eq_mod)

lemma word_low_or_high:
  "take_bit n w OR push_bit n (drop_bit n w) = w"
  for w :: "'a::len word"
proof (rule bit_word_eqI)
  fix i assume "i < LENGTH('a)"
  then show "bit (take_bit n w OR push_bit n (drop_bit n w)) i = bit w i"
    by (cases "i < n") (auto simp: bit_simps)
qed

subsection \<open>Lists\<close>

lemma suffix_length_less:
  "xs = ys @ zs \<Longrightarrow> ys \<noteq> [] \<Longrightarrow> length zs < length xs"
  by auto

lemma takeWhile_dropWhile_index:
  "takeWhile P xs = take (length (takeWhile P xs)) xs" "dropWhile P xs = drop (length (takeWhile P xs)) xs"
  by (metis append_eq_conv_conj takeWhile_dropWhile_id)+

lemma drop_index: "i < length xs \<Longrightarrow> drop i xs = xs ! i # drop (Suc i) xs"
  by (simp add: Cons_nth_drop_Suc)

end
