(* ===== verification/Coding.thy ===== *)
theory Coding
  imports Prelude
begin

text \<open>
  The endian-neutral encodings of \<open>util/coding.h\<close> and \<open>util/coding.cc\<close>: fixed-width integers with
  the least significant byte first, variable-length integers with seven payload bits per byte, and
  byte strings prefixed by their length.

  A pair of pointers \<open>p\<close>, \<open>limit\<close> is modelled by the bytes between them. The \<open>Get\<close> routines return
  the value and the bytes after it, or \<open>None\<close> where the source returns \<open>nullptr\<close> or \<open>false\<close>. The
  \<open>Encode\<close> routines return the bytes they write; \<open>DecodeFixed32\<close> and \<open>DecodeFixed64\<close> read without a
  bounds check, as in the source, and mean something only where enough bytes are present.
\<close>

subsection \<open>Encoders\<close>

definition EncodeFixed32 :: "u32 \<Rightarrow> bytes" where
  "EncodeFixed32 value =
     [ucast value, ucast (drop_bit 8 value), ucast (drop_bit 16 value), ucast (drop_bit 24 value)]"

definition EncodeFixed64 :: "u64 \<Rightarrow> bytes" where
  "EncodeFixed64 value =
     [ucast value, ucast (drop_bit 8 value), ucast (drop_bit 16 value), ucast (drop_bit 24 value),
      ucast (drop_bit 32 value), ucast (drop_bit 40 value), ucast (drop_bit 48 value),
      ucast (drop_bit 56 value)]"

definition PutFixed32 :: "bytes \<Rightarrow> u32 \<Rightarrow> bytes" where
  "PutFixed32 dst value = dst @ EncodeFixed32 value"

definition PutFixed64 :: "bytes \<Rightarrow> u64 \<Rightarrow> bytes" where
  "PutFixed64 dst value = dst @ EncodeFixed64 value"

definition EncodeVarint32 :: "u32 \<Rightarrow> bytes" where
  "EncodeVarint32 v =
     (let B = 128 :: u32 in
      if v < push_bit 7 1 then [ucast v]
      else if v < push_bit 14 1 then [ucast (v OR B), ucast (drop_bit 7 v)]
      else if v < push_bit 21 1 then
        [ucast (v OR B), ucast (drop_bit 7 v OR B), ucast (drop_bit 14 v)]
      else if v < push_bit 28 1 then
        [ucast (v OR B), ucast (drop_bit 7 v OR B), ucast (drop_bit 14 v OR B),
         ucast (drop_bit 21 v)]
      else
        [ucast (v OR B), ucast (drop_bit 7 v OR B), ucast (drop_bit 14 v OR B),
         ucast (drop_bit 21 v OR B), ucast (drop_bit 28 v)])"

definition PutVarint32 :: "bytes \<Rightarrow> u32 \<Rightarrow> bytes" where
  "PutVarint32 dst v = dst @ EncodeVarint32 v"

function EncodeVarint64 :: "u64 \<Rightarrow> bytes" where
  "EncodeVarint64 v =
     (if v \<ge> 128 then ucast (v OR 128) # EncodeVarint64 (drop_bit 7 v) else [ucast v])"
  by pat_completeness auto
termination
  by (relation "measure unat") (auto simp: unat_drop_bit_div word_le_nat_alt)

declare EncodeVarint64.simps [simp del]

definition PutVarint64 :: "bytes \<Rightarrow> u64 \<Rightarrow> bytes" where
  "PutVarint64 dst v = dst @ EncodeVarint64 v"

definition PutLengthPrefixedSlice :: "bytes \<Rightarrow> slice \<Rightarrow> bytes" where
  "PutLengthPrefixedSlice dst value = PutVarint32 dst (of_nat (length value)) @ value"

function VarintLength_loop :: "u64 \<Rightarrow> nat \<Rightarrow> nat" where
  "VarintLength_loop v len =
     (if v \<ge> 128 then VarintLength_loop (drop_bit 7 v) (len + 1) else len)"
  by pat_completeness auto
termination
  by (relation "measure (\<lambda>(v, len). unat v)") (auto simp: unat_drop_bit_div word_le_nat_alt)

declare VarintLength_loop.simps [simp del]

definition VarintLength :: "u64 \<Rightarrow> nat" where
  "VarintLength v = VarintLength_loop v 1"

subsection \<open>Decoders\<close>

definition DecodeFixed32 :: "bytes \<Rightarrow> u32" where
  "DecodeFixed32 buffer =
     ucast (buffer ! 0) OR push_bit 8 (ucast (buffer ! 1)) OR
     push_bit 16 (ucast (buffer ! 2)) OR push_bit 24 (ucast (buffer ! 3))"

definition DecodeFixed64 :: "bytes \<Rightarrow> u64" where
  "DecodeFixed64 buffer =
     ucast (buffer ! 0) OR push_bit 8 (ucast (buffer ! 1)) OR
     push_bit 16 (ucast (buffer ! 2)) OR push_bit 24 (ucast (buffer ! 3)) OR
     push_bit 32 (ucast (buffer ! 4)) OR push_bit 40 (ucast (buffer ! 5)) OR
     push_bit 48 (ucast (buffer ! 6)) OR push_bit 56 (ucast (buffer ! 7))"

fun GetVarint32PtrFallback_loop :: "nat \<Rightarrow> u32 \<Rightarrow> bytes \<Rightarrow> (u32 \<times> bytes) option" where
  "GetVarint32PtrFallback_loop shift result [] = None"
| "GetVarint32PtrFallback_loop shift result (b # p) =
     (if shift \<le> 28 then
        let byte = (ucast b :: u32) in
        if byte AND 128 \<noteq> 0
        then GetVarint32PtrFallback_loop (shift + 7) (result OR push_bit shift (byte AND 127)) p
        else Some (result OR push_bit shift byte, p)
      else None)"

definition GetVarint32PtrFallback :: "bytes \<Rightarrow> (u32 \<times> bytes) option" where
  "GetVarint32PtrFallback p = GetVarint32PtrFallback_loop 0 0 p"

definition GetVarint32Ptr :: "bytes \<Rightarrow> (u32 \<times> bytes) option" where
  "GetVarint32Ptr p =
     (if p \<noteq> [] \<and> (ucast (hd p) :: u32) AND 128 = 0 then Some (ucast (hd p), tl p)
      else GetVarint32PtrFallback p)"

definition GetVarint32 :: "slice \<Rightarrow> (u32 \<times> slice) option" where
  "GetVarint32 input =
     (case GetVarint32Ptr input of None \<Rightarrow> None | Some (value, q) \<Rightarrow> Some (value, q))"

fun GetVarint64Ptr_loop :: "nat \<Rightarrow> u64 \<Rightarrow> bytes \<Rightarrow> (u64 \<times> bytes) option" where
  "GetVarint64Ptr_loop shift result [] = None"
| "GetVarint64Ptr_loop shift result (b # p) =
     (if shift \<le> 63 then
        let byte = (ucast b :: u64) in
        if byte AND 128 \<noteq> 0
        then GetVarint64Ptr_loop (shift + 7) (result OR push_bit shift (byte AND 127)) p
        else Some (result OR push_bit shift byte, p)
      else None)"

definition GetVarint64Ptr :: "bytes \<Rightarrow> (u64 \<times> bytes) option" where
  "GetVarint64Ptr p = GetVarint64Ptr_loop 0 0 p"

definition GetVarint64 :: "slice \<Rightarrow> (u64 \<times> slice) option" where
  "GetVarint64 input =
     (case GetVarint64Ptr input of None \<Rightarrow> None | Some (value, q) \<Rightarrow> Some (value, q))"

definition GetLengthPrefixedSlice :: "slice \<Rightarrow> (slice \<times> slice) option" where
  "GetLengthPrefixedSlice input =
     (case GetVarint32 input of
        None \<Rightarrow> None
      | Some (len, input') \<Rightarrow>
          if unat len \<le> length input' then Some (take (unat len) input', drop (unat len) input')
          else None)"

subsection \<open>Fixed-width round trips\<close>

lemma length_EncodeFixed [len_simps, simp]:
  "length (EncodeFixed32 a) = 4" "length (EncodeFixed64 b) = 8"
  by (simp_all add: EncodeFixed32_def EncodeFixed64_def)

text \<open>Reading a byte back extends the part of the word already known by eight bits.\<close>

lemma ucast_byte_of_word:
  "(ucast (ucast w :: byte) :: 'a::len word) = take_bit 8 w" for w :: "'a::len word"
  by (rule bit_word_eqI) (auto simp: bit_simps)

lemma take_bit_or_byte:
  "take_bit k v OR push_bit k (take_bit 8 (drop_bit k v)) = take_bit (k + 8) v"
  for v :: "'a::len word"
proof (rule bit_word_eqI)
  fix i assume "i < LENGTH('a)"
  then show "bit (take_bit k v OR push_bit k (take_bit 8 (drop_bit k v))) i = bit (take_bit (k + 8) v) i"
    by (cases "i < k") (auto simp: bit_simps)
qed

lemma take_bit_or_byte_assoc:
  "take_bit k v OR (push_bit k (take_bit 8 (drop_bit k v)) OR z) = take_bit (k + 8) v OR z"
  for v :: "'a::len word"
  by (simp only: or.assoc [symmetric] take_bit_or_byte)

lemmas byte_assembly = ucast_byte_of_word take_bit_or_byte take_bit_or_byte_assoc

lemma DecodeFixed32_EncodeFixed32 [coding_simps, simp]:
  "DecodeFixed32 (EncodeFixed32 v @ rest) = v"
  by (simp add: DecodeFixed32_def EncodeFixed32_def byte_assembly take_bit_word_eq_self)

lemma DecodeFixed64_EncodeFixed64 [coding_simps, simp]:
  "DecodeFixed64 (EncodeFixed64 v @ rest) = v"
  by (simp add: DecodeFixed64_def EncodeFixed64_def byte_assembly take_bit_word_eq_self)

subsection \<open>Variable-length round trips\<close>

lemma bit_128: "bit (128 :: int) n \<longleftrightarrow> n = 7"
  using bit_exp_iff [of 7 n, where 'a = int] by auto

lemma bit_127: "bit (127 :: int) n \<longleftrightarrow> n < 7"
  using bit_mask_iff [of 7 n, where 'a = int] by (auto simp: mask_eq_exp_minus_1)

lemma continuation_byte:
  "(ucast (ucast (w OR 128) :: byte) :: 'a::len word) AND 127 = take_bit 7 (ucast w)"
  "LENGTH('a) > 7 \<Longrightarrow> (ucast (ucast (w OR 128) :: byte) :: 'a::len word) AND 128 \<noteq> 0"
  for w :: u64
proof -
  show "(ucast (ucast (w OR 128) :: byte) :: 'a word) AND 127 = take_bit 7 (ucast w)"
    by (rule bit_word_eqI) (auto simp: bit_simps bit_127 bit_128)
next
  assume "LENGTH('a) > 7"
  then have "bit ((ucast (ucast (w OR 128) :: byte) :: 'a word) AND 128) 7"
    by (simp add: bit_simps bit_128)
  then show "(ucast (ucast (w OR 128) :: byte) :: 'a word) AND 128 \<noteq> 0" by auto
qed

lemma final_byte:
  fixes w :: u64
  assumes "w < 128"
  shows "(ucast (ucast w :: byte) :: 'a::len word) = ucast w"
    and "(ucast w :: 'a::len word) AND 128 = 0"
    and "w AND 128 = 0"
proof -
  have w: "w = take_bit 7 w"
    using assms less_mask_eq [of w 7] by (simp add: take_bit_eq_mask)
  show "(ucast (ucast w :: byte) :: 'a word) = ucast w"
    by (subst (2) w, subst w, rule bit_word_eqI) (auto simp: bit_simps)
  have b: "bit w 7 = False"
    by (subst w) (simp add: bit_simps)
  show "(ucast w :: 'a word) AND 128 = 0" "w AND 128 = 0"
    using b by (auto intro!: bit_word_eqI simp: bit_simps bit_128)
qed

text \<open>
  The loop of the decoder, started at any shift with any partial result, reads one encoded value: this
  is the invariant from which the round trips follow.
\<close>

lemma push_bit_low_or_high:
  "push_bit s (take_bit 7 v) OR push_bit (s + 7) (drop_bit 7 v) = push_bit s v"
  for v :: "'a::len word"
proof -
  have "push_bit s (take_bit 7 v OR push_bit 7 (drop_bit 7 v)) = push_bit s v"
    by (simp only: word_low_or_high)
  then show ?thesis by (simp add: push_bit_or push_bit_push_bit add.commute)
qed

lemma EncodeVarint64_nonempty [simp]: "EncodeVarint64 v \<noteq> []"
  by (subst EncodeVarint64.simps) simp

lemma GetVarint64Ptr_loop_Encode:
  "7 * length (EncodeVarint64 v) + s \<le> 70 \<Longrightarrow>
   GetVarint64Ptr_loop s r (EncodeVarint64 v @ rest) = Some (r OR push_bit s v, rest)"
proof (induction v arbitrary: s r rule: EncodeVarint64.induct)
  case (1 v)
  show ?case
  proof (cases "v \<ge> 128")
    case True
    then have enc: "EncodeVarint64 v = ucast (v OR 128) # EncodeVarint64 (drop_bit 7 v)"
      by (simp add: EncodeVarint64.simps [of v])
    with "1.prems" have len: "7 * length (EncodeVarint64 (drop_bit 7 v)) + (s + 7) \<le> 70" by simp
    then have "s \<le> 63" by (cases "EncodeVarint64 (drop_bit 7 v)") auto
    then show ?thesis
      using "1.IH" [OF True len, of "r OR push_bit s (take_bit 7 v)"]
      by (simp add: enc continuation_byte or.assoc push_bit_low_or_high)
  next
    case False
    then have "EncodeVarint64 v = [ucast v]" "v < 128"
      by (simp_all add: EncodeVarint64.simps [of v])
    then show ?thesis using "1.prems" by (simp add: final_byte)
  qed
qed

lemma GetVarint32PtrFallback_loop_Encode:
  "7 * length (EncodeVarint64 v) + s \<le> 35 \<Longrightarrow>
   GetVarint32PtrFallback_loop s r (EncodeVarint64 v @ rest) = Some (r OR push_bit s (ucast v), rest)"
proof (induction v arbitrary: s r rule: EncodeVarint64.induct)
  case (1 v)
  show ?case
  proof (cases "v \<ge> 128")
    case True
    then have enc: "EncodeVarint64 v = ucast (v OR 128) # EncodeVarint64 (drop_bit 7 v)"
      by (simp add: EncodeVarint64.simps [of v])
    with "1.prems" have len: "7 * length (EncodeVarint64 (drop_bit 7 v)) + (s + 7) \<le> 35" by simp
    then have s: "s \<le> 28" by (cases "EncodeVarint64 (drop_bit 7 v)") auto
    have "r OR push_bit s (take_bit 7 (ucast v)) OR push_bit (s + 7) (ucast (drop_bit 7 v))
        = r OR push_bit s (ucast v :: u32)"
    proof (rule bit_word_eqI)
      fix i assume "i < LENGTH(32)"
      moreover have "s + 7 \<le> i \<Longrightarrow> 7 + (i - (s + 7)) = i - s" by simp
      ultimately show "bit (r OR push_bit s (take_bit 7 (ucast v)) OR push_bit (s + 7) (ucast (drop_bit 7 v))) i
          = bit (r OR push_bit s (ucast v :: u32)) i"
        by (cases "s + 7 \<le> i") (auto simp: bit_simps)
    qed
    then show ?thesis
      using "1.IH" [OF True len, of "r OR push_bit s (take_bit 7 (ucast v))"] s
      by (simp add: enc continuation_byte or.assoc)
  next
    case False
    then have "EncodeVarint64 v = [ucast v]" "v < 128"
      by (simp_all add: EncodeVarint64.simps [of v])
    then show ?thesis using "1.prems" by (simp add: final_byte)
  qed
qed

lemma length_EncodeVarint64_le:
  "unat v < 128 ^ n \<Longrightarrow> 0 < n \<Longrightarrow> length (EncodeVarint64 v) \<le> n"
proof (induction v arbitrary: n rule: EncodeVarint64.induct)
  case (1 v)
  show ?case
  proof (cases "v \<ge> 128")
    case True
    then have "128 \<le> unat v" by (simp add: word_le_nat_alt)
    with "1.prems" obtain m where n: "n = Suc m" and m: "0 < m"
      by (cases n; cases "n - 1") auto
    with "1.prems" have "unat (drop_bit 7 v) < 128 ^ m"
      by (simp add: unat_drop_bit_div less_mult_imp_div_less mult.commute)
    with "1.IH" [OF True this m] show ?thesis
      using True n by (simp add: EncodeVarint64.simps [of v])
  next
    case False
    then show ?thesis using "1.prems" by (simp add: EncodeVarint64.simps [of v])
  qed
qed

lemma length_EncodeVarint64_10: "length (EncodeVarint64 v) \<le> 10"
proof (rule length_EncodeVarint64_le)
  show "unat v < 128 ^ 10" using unsigned_less [of v, where 'a = nat] by simp
qed simp

lemma GetVarint64_EncodeVarint64 [coding_simps, simp]:
  "GetVarint64 (EncodeVarint64 v @ rest) = Some (v, rest)"
  using length_EncodeVarint64_10 [of v]
  by (simp add: GetVarint64_def GetVarint64Ptr_def GetVarint64Ptr_loop_Encode)

text \<open>The unrolled 32-bit encoder writes the bytes of the 64-bit loop.\<close>

lemma EncodeVarint64_step:
  "128 \<le> v \<Longrightarrow> EncodeVarint64 v = ucast (v OR 128) # EncodeVarint64 (drop_bit 7 v)"
  "v < 128 \<Longrightarrow> EncodeVarint64 v = [ucast v]"
  by (simp_all add: EncodeVarint64.simps [of v])

lemma EncodeVarint32_eq_EncodeVarint64: "EncodeVarint32 v = EncodeVarint64 (ucast v)"
proof -
  have cond: "drop_bit k (ucast v :: u64) < 128 \<longleftrightarrow> unat v < 128 * 2 ^ k" for k
    by (simp add: word_less_nat_alt unat_drop_bit_div unat_ucast_le div_less_iff_less_mult)
  have byte: "(ucast (drop_bit k (ucast v :: u64) OR 128) :: byte) = ucast (drop_bit k v OR 128)"
      "(ucast (drop_bit k (ucast v :: u64)) :: byte) = ucast (drop_bit k v)" for k
    by (rule bit_word_eqI; auto simp: bit_simps bit_128 dest: bit_imp_le_length)+
  have more: "EncodeVarint64 (drop_bit k (ucast v))
      = ucast (drop_bit k v OR 128) # EncodeVarint64 (drop_bit (k + 7) (ucast v))"
    if "128 * 2 ^ k \<le> unat v" for k
    using that cond [of k] by (simp add: EncodeVarint64_step byte not_less add.commute)
  have last: "EncodeVarint64 (drop_bit k (ucast v)) = [ucast (drop_bit k v)]"
    if "unat v < 128 * 2 ^ k" for k
    using that cond [of k] by (simp add: EncodeVarint64_step byte)
  have "unat v < 2 ^ 32" using unsigned_less [of v, where 'a = nat] by simp
  then have "EncodeVarint32 v = EncodeVarint64 (drop_bit 0 (ucast v))"
    using more [of 0] more [of 7] more [of 14] more [of 21]
      last [of 0] last [of 7] last [of 14] last [of 21] last [of 28]
    by (simp add: EncodeVarint32_def Let_def word_less_nat_alt push_bit_of_1 split: if_splits)
  then show ?thesis by simp
qed

lemma length_EncodeVarint32_5: "length (EncodeVarint32 v) \<le> 5"
  unfolding EncodeVarint32_eq_EncodeVarint64
proof (rule length_EncodeVarint64_le)
  show "unat (ucast v :: u64) < 128 ^ 5"
    using unsigned_less [of v, where 'a = nat] by (simp add: unat_ucast_le)
qed simp

lemma EncodeVarint32_nonempty [simp]: "EncodeVarint32 v \<noteq> []"
  by (simp add: EncodeVarint32_eq_EncodeVarint64)

text \<open>The one-byte fast path of \<open>GetVarint32Ptr\<close> gives what the loop would give.\<close>

lemma GetVarint32Ptr_eq_Fallback: "GetVarint32Ptr p = GetVarint32PtrFallback p"
  by (cases p) (simp_all add: GetVarint32Ptr_def GetVarint32PtrFallback_def)

lemma GetVarint32_EncodeVarint32 [coding_simps, simp]:
  "GetVarint32 (EncodeVarint32 v @ rest) = Some (v, rest)"
proof -
  have "7 * length (EncodeVarint64 (ucast v)) + 0 \<le> 35"
    using length_EncodeVarint32_5 [of v] by (simp add: EncodeVarint32_eq_EncodeVarint64)
  moreover have "(ucast (ucast v :: u64) :: u32) = v"
    by (rule bit_word_eqI) (auto simp: bit_simps)
  ultimately show ?thesis
    by (simp add: GetVarint32_def GetVarint32Ptr_eq_Fallback GetVarint32PtrFallback_def
        EncodeVarint32_eq_EncodeVarint64 GetVarint32PtrFallback_loop_Encode)
qed

lemma GetVarint32Ptr_Encode [simp]: "GetVarint32Ptr (EncodeVarint32 v @ rest) = Some (v, rest)"
  using GetVarint32_EncodeVarint32 [of v rest] by (simp add: GetVarint32_def split: option.splits prod.splits)

lemma VarintLength_loop_eq: "VarintLength_loop v len + 1 = len + length (EncodeVarint64 v)"
proof (induction v len rule: VarintLength_loop.induct)
  case (1 v len)
  then show ?case
    by (cases "128 \<le> v")
      (simp_all add: VarintLength_loop.simps [of v len] EncodeVarint64.simps [of v])
qed

lemma VarintLength_eq [len_simps]: "length (EncodeVarint64 v) = VarintLength v"
  using VarintLength_loop_eq [of v 1] by (simp add: VarintLength_def)

subsection \<open>What the decoders accept\<close>

lemma GetVarint32PtrFallback_loop_suffix:
  "GetVarint32PtrFallback_loop s r p = Some (v, q) \<Longrightarrow>
   \<exists>pre. p = pre @ q \<and> pre \<noteq> [] \<and> s + 7 * length pre \<le> 41"
proof (induction s r p rule: GetVarint32PtrFallback_loop.induct)
  case (1 s r)
  then show ?case by simp
next
  case (2 s r b p)
  show ?case
  proof (cases "(ucast b :: u32) AND 128 \<noteq> 0")
    case True
    with "2.prems" have "s \<le> 28" and
      "GetVarint32PtrFallback_loop (s + 7) (r OR push_bit s (ucast b AND 127)) p = Some (v, q)"
      by (auto simp: Let_def split: if_splits)
    then obtain pre where "p = pre @ q" "s + 7 + 7 * length pre \<le> 41"
      using "2.IH" True by blast
    then show ?thesis by (intro exI [of _ "b # pre"]) simp
  next
    case False
    with "2.prems" show ?thesis
      by (intro exI [of _ "[b]"]) (auto simp: Let_def split: if_splits)
  qed
qed

lemma GetVarint64Ptr_loop_suffix:
  "GetVarint64Ptr_loop s r p = Some (v, q) \<Longrightarrow>
   \<exists>pre. p = pre @ q \<and> pre \<noteq> [] \<and> s + 7 * length pre \<le> 76"
proof (induction s r p rule: GetVarint64Ptr_loop.induct)
  case (1 s r)
  then show ?case by simp
next
  case (2 s r b p)
  show ?case
  proof (cases "(ucast b :: u64) AND 128 \<noteq> 0")
    case True
    with "2.prems" have "s \<le> 63" and
      "GetVarint64Ptr_loop (s + 7) (r OR push_bit s (ucast b AND 127)) p = Some (v, q)"
      by (auto simp: Let_def split: if_splits)
    then obtain pre where "p = pre @ q" "s + 7 + 7 * length pre \<le> 76"
      using "2.IH" True by blast
    then show ?thesis by (intro exI [of _ "b # pre"]) simp
  next
    case False
    with "2.prems" show ?thesis
      by (intro exI [of _ "[b]"]) (auto simp: Let_def split: if_splits)
  qed
qed

lemma GetVarint32_suffix:
  assumes "GetVarint32 p = Some (v, q)"
  shows "\<exists>pre. p = pre @ q \<and> 1 \<le> length pre \<and> length pre \<le> 5"
proof -
  from assms have "GetVarint32PtrFallback_loop 0 0 p = Some (v, q)"
    by (simp add: GetVarint32_def GetVarint32Ptr_eq_Fallback GetVarint32PtrFallback_def
        split: option.splits)
  then obtain pre where "p = pre @ q" "pre \<noteq> []" "7 * length pre \<le> 41"
    by (auto dest: GetVarint32PtrFallback_loop_suffix)
  then show ?thesis by (intro exI [of _ pre]) (auto simp: Suc_le_eq)
qed

lemma GetVarint64_suffix:
  assumes "GetVarint64 p = Some (v, q)"
  shows "\<exists>pre. p = pre @ q \<and> 1 \<le> length pre \<and> length pre \<le> 10"
proof -
  from assms have "GetVarint64Ptr_loop 0 0 p = Some (v, q)"
    by (simp add: GetVarint64_def GetVarint64Ptr_def split: option.splits)
  then obtain pre where "p = pre @ q" "pre \<noteq> []" "7 * length pre \<le> 76"
    by (auto dest: GetVarint64Ptr_loop_suffix)
  then show ?thesis by (intro exI [of _ pre]) (auto simp: Suc_le_eq)
qed

lemma GetVarint_Nil [simp]: "GetVarint32 [] = None" "GetVarint64 [] = None"
  "GetLengthPrefixedSlice [] = None"
  by (simp_all add: GetVarint32_def GetVarint32Ptr_def GetVarint32PtrFallback_def GetVarint64_def
      GetVarint64Ptr_def GetLengthPrefixedSlice_def)

subsection \<open>Length-prefixed slices\<close>

lemma PutLengthPrefixedSlice_append:
  "PutLengthPrefixedSlice dst value = dst @ PutLengthPrefixedSlice [] value"
  by (simp add: PutLengthPrefixedSlice_def PutVarint32_def)

lemma GetLengthPrefixedSlice_Put [coding_simps, simp]:
  "length value < 2 ^ 32 \<Longrightarrow>
   GetLengthPrefixedSlice (PutLengthPrefixedSlice [] value @ rest) = Some (value, rest)"
  by (simp add: GetLengthPrefixedSlice_def PutLengthPrefixedSlice_def PutVarint32_def unat_of_nat)

lemma GetLengthPrefixedSlice_suffix:
  assumes "GetLengthPrefixedSlice p = Some (v, q)"
  shows "\<exists>pre. p = pre @ v @ q \<and> 1 \<le> length pre \<and> length pre \<le> 5"
proof -
  from assms obtain len q' where *: "GetVarint32 p = Some (len, q')" "q' = v @ q"
    by (auto simp: GetLengthPrefixedSlice_def split: option.splits if_splits)
  from GetVarint32_suffix [OF *(1)] *(2) show ?thesis by auto
qed

subsection \<open>Encoders as a contract\<close>

text \<open>
  What the rest of the engine relies on: a value written by \<open>put\<close> is read back by \<open>get\<close> whatever
  follows it, and \<open>get\<close> consumes at least one byte. Encodings that satisfy the contract can be
  concatenated: no encoding is a proper prefix of another, so a sequence of them parses in one way.
\<close>

locale codec =
  fixes put :: "'a \<Rightarrow> bytes" and get :: "bytes \<Rightarrow> ('a \<times> bytes) option" and ok :: "'a \<Rightarrow> bool"
  assumes get_put: "ok x \<Longrightarrow> get (put x @ rest) = Some (x, rest)"
    and get_shrinks: "get bs = Some (x, rest) \<Longrightarrow> length rest < length bs"
begin

lemma put_nonempty: "ok x \<Longrightarrow> put x \<noteq> []"
  using get_put [of x "[]"] get_shrinks [of "put x @ []" x "[]"] by auto

lemma put_append_inject:
  "ok x \<Longrightarrow> ok y \<Longrightarrow> put x @ r = put y @ s \<longleftrightarrow> x = y \<and> r = s"
  by (metis get_put option.inject prod.inject)

lemma put_inject: "ok x \<Longrightarrow> ok y \<Longrightarrow> put x = put y \<longleftrightarrow> x = y"
  using put_append_inject [of x y "[]" "[]"] by simp

lemma put_prefix_free: "ok x \<Longrightarrow> ok y \<Longrightarrow> prefix (put x) (put y) \<Longrightarrow> x = y"
  by (metis append_Nil2 prefix_def put_append_inject)

lemma concat_put_inject:
  "list_all ok xs \<Longrightarrow> list_all ok ys \<Longrightarrow> concat (map put xs) = concat (map put ys) \<longleftrightarrow> xs = ys"
proof (induction xs arbitrary: ys)
  case Nil
  then show ?case by (cases ys) (auto simp: put_nonempty)
next
  case (Cons x xs)
  then show ?case by (cases ys) (auto simp: put_nonempty put_append_inject)
qed

end

definition GetFixed32 :: "bytes \<Rightarrow> (u32 \<times> bytes) option" where
  "GetFixed32 bs = (if length bs < 4 then None else Some (DecodeFixed32 bs, drop 4 bs))"

definition GetFixed64 :: "bytes \<Rightarrow> (u64 \<times> bytes) option" where
  "GetFixed64 bs = (if length bs < 8 then None else Some (DecodeFixed64 bs, drop 8 bs))"

interpretation fixed32: codec EncodeFixed32 GetFixed32 "\<lambda>_. True"
  by unfold_locales (auto simp: GetFixed32_def split: if_splits)

interpretation fixed64: codec EncodeFixed64 GetFixed64 "\<lambda>_. True"
  by unfold_locales (auto simp: GetFixed64_def split: if_splits)

interpretation varint32: codec EncodeVarint32 GetVarint32 "\<lambda>_. True"
  by unfold_locales (auto dest!: GetVarint32_suffix)

interpretation varint64: codec EncodeVarint64 GetVarint64 "\<lambda>_. True"
  by unfold_locales (auto dest!: GetVarint64_suffix)

interpretation lpslice: codec "PutLengthPrefixedSlice []" GetLengthPrefixedSlice "\<lambda>s. length s < 2 ^ 32"
  by unfold_locales (auto dest!: GetLengthPrefixedSlice_suffix)

subsection \<open>Properties\<close>

text \<open>
  C16: Every integer encoder is inverted by its decoder. What \<open>PutFixed32\<close>, \<open>PutFixed64\<close>, \<open>PutVarint32\<close>
  and \<open>PutVarint64\<close> append to a string is decoded to the same value, whatever follows it, and the
  variable-length readers stop exactly behind it.
\<close>

theorem integer_coding_roundtrip:
  "DecodeFixed32 (drop (length dst) (PutFixed32 dst a @ rest)) = a \<and>
   DecodeFixed64 (drop (length dst) (PutFixed64 dst b @ rest)) = b \<and>
   GetVarint32 (drop (length dst) (PutVarint32 dst a @ rest)) = Some (a, rest) \<and>
   GetVarint64 (drop (length dst) (PutVarint64 dst b @ rest)) = Some (b, rest)"
  by (simp add: PutFixed32_def PutFixed64_def PutVarint32_def PutVarint64_def)

text \<open>
  C18: The unrolled 32-bit encoder, the 64-bit loop and \<open>VarintLength\<close> agree, and the stack buffers
  hold what is written: \<open>EncodeVarint32\<close> writes the bytes \<open>EncodeVarint64\<close> writes for the same number
  and at most the 5 bytes of \<open>PutVarint32\<close>'s buffer, \<open>EncodeVarint64\<close> writes \<open>VarintLength\<close> bytes and
  at most the 10 bytes of \<open>PutVarint64\<close>'s buffer.
\<close>

theorem varint_encoders_agree:
  "EncodeVarint32 v = EncodeVarint64 (ucast v) \<and> length (EncodeVarint32 v) \<le> 5 \<and>
   length (EncodeVarint64 w) = VarintLength w \<and> VarintLength w \<le> 10"
  using length_EncodeVarint64_10 [of w]
  by (simp add: EncodeVarint32_eq_EncodeVarint64 [symmetric] length_EncodeVarint32_5 VarintLength_eq)

text \<open>
  C17: Length-prefixed slices round trip, and reading one never leaves the input: a slice of less than
  \<open>2 ^ 32\<close> bytes is read back with the bytes behind it, and whatever the input, a slice that is
  returned lies inside it behind a prefix of one to five bytes, with the rest of the input after it.
\<close>

theorem length_prefixed_slice:
  "(length value < 2 ^ 32 \<longrightarrow>
      GetLengthPrefixedSlice (drop (length dst) (PutLengthPrefixedSlice dst value @ rest)) = Some (value, rest)) \<and>
   (GetLengthPrefixedSlice input = Some (s, rest') \<longrightarrow>
      (\<exists>pre. input = pre @ s @ rest' \<and> 1 \<le> length pre \<and> length pre \<le> 5))"
  by (auto simp: PutLengthPrefixedSlice_append [of dst] dest: GetLengthPrefixedSlice_suffix)

theorem length_prefixed_slice_witness:
  "GetLengthPrefixedSlice (drop (length [1 :: byte, 2]) (PutLengthPrefixedSlice [1, 2] [97, 98] @ [5])) = Some ([97, 98], [5]) \<and>
   (\<exists>pre. [2, 97, 98, 5] = pre @ [97, 98] @ [5 :: byte] \<and> 1 \<le> length pre \<and> length pre \<le> 5)"
proof -
  have "GetLengthPrefixedSlice [2, 97, 98, 5] = Some ([97, 98], [5])" by code_simp
  then show ?thesis
    using length_prefixed_slice [of "[97, 98]" "[1, 2]" "[5]" "[2, 97, 98, 5]" "[97, 98]" "[5]"] by simp
qed

end
