(* ===== verification/Comparator.thy ===== *)
theory Comparator
  imports Coding "HOL-Library.List_Lexorder"
begin

text \<open>
  Key order: \<open>Slice::compare\<close> of \<open>include/leveldb/slice.h\<close>, the contract of
  \<open>include/leveldb/comparator.h\<close> as locales, and \<open>BytewiseComparator\<close> of \<open>util/comparator.cc\<close>.
  A three-way comparison returns an \<open>int\<close> whose sign matters; \<open>memcmp\<close> is the library routine, here
  with the results -1, 0 and 1.
\<close>

subsection \<open>Three-way comparison of slices\<close>

fun memcmp :: "bytes \<Rightarrow> bytes \<Rightarrow> int" where
  "memcmp (a # as) (b # bs) = (if a < b then -1 else if b < a then 1 else memcmp as bs)"
| "memcmp _ _ = 0"

definition Slice_compare :: "slice \<Rightarrow> slice \<Rightarrow> int" where
  "Slice_compare a b =
     (let min_len = (if length a < length b then length a else length b);
          r = memcmp (take min_len a) (take min_len b)
      in if r = 0 then
           if length a < length b then -1
           else if length a > length b then 1
           else r
         else r)"

subsection \<open>BytewiseComparator\<close>

definition BytewiseComparator_Compare :: "slice \<Rightarrow> slice \<Rightarrow> int" where
  "BytewiseComparator_Compare a b = Slice_compare a b"

fun diff_index_loop :: "bytes \<Rightarrow> bytes \<Rightarrow> nat" where
  "diff_index_loop (a # as) (b # bs) = (if a = b then Suc (diff_index_loop as bs) else 0)"
| "diff_index_loop _ _ = 0"

definition BytewiseComparator_FindShortestSeparator :: "bytes \<Rightarrow> slice \<Rightarrow> bytes" where
  "BytewiseComparator_FindShortestSeparator start limit =
     (let min_length = min (length start) (length limit);
          diff_index = diff_index_loop start limit
      in if diff_index \<ge> min_length then start
         else
           let diff_byte = start ! diff_index in
           if diff_byte < 0xff \<and> unat diff_byte + 1 < unat (limit ! diff_index)
           then take (diff_index + 1) (start[diff_index := diff_byte + 1])
           else start)"

fun BytewiseComparator_FindShortSuccessor :: "bytes \<Rightarrow> bytes" where
  "BytewiseComparator_FindShortSuccessor [] = []"
| "BytewiseComparator_FindShortSuccessor (byte # key) =
     (if byte \<noteq> 0xff then [byte + 1]
      else byte # BytewiseComparator_FindShortSuccessor key)"

subsection \<open>The contract of a comparator\<close>

text \<open>
  \<open>Compare\<close> is a three-way comparison for a strict total order on the keys that satisfy \<open>ok\<close>.
\<close>

locale comparator =
  fixes Compare :: "slice \<Rightarrow> slice \<Rightarrow> int" and ok :: "slice \<Rightarrow> bool"
  assumes compare_eq: "ok a \<Longrightarrow> ok b \<Longrightarrow> Compare a b = 0 \<longleftrightarrow> a = b"
    and compare_antisym: "ok a \<Longrightarrow> ok b \<Longrightarrow> Compare b a < 0 \<longleftrightarrow> 0 < Compare a b"
    and compare_trans: "ok a \<Longrightarrow> ok b \<Longrightarrow> ok c \<Longrightarrow> Compare a b < 0 \<Longrightarrow> Compare b c < 0 \<Longrightarrow> Compare a c < 0"
begin

lemma compare_refl [simp]: "ok a \<Longrightarrow> Compare a a = 0"
  by (simp add: compare_eq)

lemma compare_le_iff: "ok a \<Longrightarrow> ok b \<Longrightarrow> Compare a b \<le> 0 \<longleftrightarrow> Compare a b < 0 \<or> a = b"
  using compare_eq [of a b] by (auto simp: le_less)

lemma compare_ge_iff: "ok a \<Longrightarrow> ok b \<Longrightarrow> 0 \<le> Compare a b \<longleftrightarrow> Compare b a \<le> 0"
  by (metis compare_antisym linorder_not_le)

lemma compare_total: "ok a \<Longrightarrow> ok b \<Longrightarrow> Compare a b < 0 \<or> a = b \<or> Compare b a < 0"
  using compare_eq compare_antisym by (meson linorder_neqE_linordered_idom)

lemma compare_le_trans:
  "ok a \<Longrightarrow> ok b \<Longrightarrow> ok c \<Longrightarrow> Compare a b \<le> 0 \<Longrightarrow> Compare b c \<le> 0 \<Longrightarrow> Compare a c \<le> 0"
  by (metis compare_le_iff compare_trans)

lemma compare_less_le_trans:
  "ok a \<Longrightarrow> ok b \<Longrightarrow> ok c \<Longrightarrow> Compare a b < 0 \<Longrightarrow> Compare b c \<le> 0 \<Longrightarrow> Compare a c < 0"
  by (metis compare_le_iff compare_trans)

lemma compare_le_less_trans:
  "ok a \<Longrightarrow> ok b \<Longrightarrow> ok c \<Longrightarrow> Compare a b \<le> 0 \<Longrightarrow> Compare b c < 0 \<Longrightarrow> Compare a c < 0"
  by (metis compare_le_iff compare_trans)

end

text \<open>
  Containers are generic in the key and need less: a total preorder. \<open>cmp a b = 0\<close> may hold of
  different keys, as it does of memtable entries that differ in their value only.
\<close>

locale weak_order =
  fixes cmp :: "'k \<Rightarrow> 'k \<Rightarrow> int" and ok :: "'k \<Rightarrow> bool"
  assumes cmp_antisym: "ok a \<Longrightarrow> ok b \<Longrightarrow> cmp b a < 0 \<longleftrightarrow> 0 < cmp a b"
    and cmp_le_trans: "ok a \<Longrightarrow> ok b \<Longrightarrow> ok c \<Longrightarrow> cmp a b \<le> 0 \<Longrightarrow> cmp b c \<le> 0 \<Longrightarrow> cmp a c \<le> 0"
begin

lemma cmp_not_less: "ok a \<Longrightarrow> ok b \<Longrightarrow> \<not> cmp a b < 0 \<longleftrightarrow> cmp b a \<le> 0"
  using cmp_antisym [of b a] by linarith

lemma cmp_less_le_trans:
  "ok a \<Longrightarrow> ok b \<Longrightarrow> ok c \<Longrightarrow> cmp a b < 0 \<Longrightarrow> cmp b c \<le> 0 \<Longrightarrow> cmp a c < 0"
  by (meson cmp_le_trans cmp_not_less)

lemma cmp_le_less_trans:
  "ok a \<Longrightarrow> ok b \<Longrightarrow> ok c \<Longrightarrow> cmp a b \<le> 0 \<Longrightarrow> cmp b c < 0 \<Longrightarrow> cmp a c < 0"
  by (meson cmp_le_trans cmp_not_less)

lemma cmp_less_trans:
  "ok a \<Longrightarrow> ok b \<Longrightarrow> ok c \<Longrightarrow> cmp a b < 0 \<Longrightarrow> cmp b c < 0 \<Longrightarrow> cmp a c < 0"
  by (meson cmp_less_le_trans less_imp_le)

lemma cmp_irrefl: "ok a \<Longrightarrow> cmp a a = 0"
  using cmp_antisym [of a a] by linarith

end

sublocale comparator \<subseteq> weak: weak_order Compare ok
  by unfold_locales (auto simp: compare_antisym intro: compare_le_trans)

text \<open>
  The two shortening operations a table builder uses for its index keys: a separator lies between the
  last key of one block and the first key of the next, a successor is not below the last key.
\<close>

locale shortening_comparator = comparator +
  fixes FindShortestSeparator :: "bytes \<Rightarrow> slice \<Rightarrow> bytes"
    and FindShortSuccessor :: "bytes \<Rightarrow> bytes"
  assumes separator_ok: "ok start \<Longrightarrow> ok limit \<Longrightarrow> ok (FindShortestSeparator start limit)"
    and separator_ge: "ok start \<Longrightarrow> ok limit \<Longrightarrow> Compare start limit < 0 \<Longrightarrow>
          Compare start (FindShortestSeparator start limit) \<le> 0"
    and separator_less: "ok start \<Longrightarrow> ok limit \<Longrightarrow> Compare start limit < 0 \<Longrightarrow>
          Compare (FindShortestSeparator start limit) limit < 0"
    and successor_ok: "ok key \<Longrightarrow> ok (FindShortSuccessor key)"
    and successor_ge: "ok key \<Longrightarrow> Compare key (FindShortSuccessor key) \<le> 0"

subsection \<open>Bytewise order is the lexicographic order\<close>

lemma Slice_compare_Nil [simp]:
  "Slice_compare [] [] = 0" "Slice_compare [] (b # bs) = -1" "Slice_compare (a # as) [] = 1"
  by (simp_all add: Slice_compare_def)

lemma Slice_compare_Cons [simp]:
  "Slice_compare (a # as) (b # bs) = (if a < b then -1 else if b < a then 1 else Slice_compare as bs)"
  by (simp add: Slice_compare_def Let_def)

lemma Slice_compare_eq:
  "Slice_compare a b = (if a < b then -1 else if a = b then 0 else 1)"
  by (induction a b rule: list_induct2') auto

lemma Slice_compare_sign [simp]:
  "Slice_compare a b < 0 \<longleftrightarrow> a < b" "0 < Slice_compare a b \<longleftrightarrow> b < a" "Slice_compare a b = 0 \<longleftrightarrow> a = b"
  "Slice_compare a b \<le> 0 \<longleftrightarrow> a \<le> b" "0 \<le> Slice_compare a b \<longleftrightarrow> b \<le> a"
  by (auto simp: Slice_compare_eq)

lemmas bytewise_sign [simp] = Slice_compare_sign [folded BytewiseComparator_Compare_def]

subsection \<open>Separators and successors\<close>

lemma FindShortestSeparator_Nil [simp]:
  "BytewiseComparator_FindShortestSeparator [] limit = []"
  "BytewiseComparator_FindShortestSeparator start [] = start"
  by (simp_all add: BytewiseComparator_FindShortestSeparator_def)

lemma FindShortestSeparator_Cons:
  "BytewiseComparator_FindShortestSeparator (a # start) (b # limit) =
     (if a = b then a # BytewiseComparator_FindShortestSeparator start limit
      else if a < 0xff \<and> unat a + 1 < unat b then [a + 1] else a # start)"
  by (simp add: BytewiseComparator_FindShortestSeparator_def Let_def)

lemma byte_incr: "(a :: byte) < 0xff \<Longrightarrow> unat (a + 1) = unat a + 1"
  by (simp add: word_less_nat_alt unat_word_ariths)

lemma byte_incr_less: "(a :: byte) \<noteq> 0xff \<Longrightarrow> a < a + 1"
proof -
  assume "a \<noteq> 0xff"
  then have "unat a \<noteq> unat (0xff :: byte)" by (simp only: word_unat_eq_iff [symmetric]) simp
  then have "unat a \<noteq> 255" by simp
  moreover have "unat a < 256" using unsigned_less [of a, where 'a = nat] by simp
  ultimately show ?thesis by (simp add: word_less_nat_alt unat_word_ariths)
qed

lemma FindShortestSeparator_between:
  "start < limit \<Longrightarrow>
   start \<le> BytewiseComparator_FindShortestSeparator start limit \<and>
   BytewiseComparator_FindShortestSeparator start limit < limit"
  by (induction start limit rule: list_induct2')
    (auto simp: FindShortestSeparator_Cons word_less_nat_alt byte_incr)

lemma length_FindShortestSeparator:
  "length (BytewiseComparator_FindShortestSeparator start limit) \<le> length start"
  by (induction start limit rule: diff_index_loop.induct) (auto simp: FindShortestSeparator_Cons)

lemma FindShortSuccessor_ge: "key \<le> BytewiseComparator_FindShortSuccessor key"
  by (induction key) (auto simp: byte_incr_less)

lemma length_FindShortSuccessor:
  "length (BytewiseComparator_FindShortSuccessor key) \<le> length key"
  by (induction key) auto

interpretation bytewise: shortening_comparator BytewiseComparator_Compare "\<lambda>_. True"
    BytewiseComparator_FindShortestSeparator BytewiseComparator_FindShortSuccessor
  by unfold_locales (auto simp: FindShortestSeparator_between FindShortSuccessor_ge)

end
