(* ===== verification/Bloom.thy ===== *)
theory Bloom
  imports Coding
begin

text \<open>
  The hash function of \<open>util/hash.cc\<close> and the built-in filter policy of \<open>util/bloom.cc\<close>, with the
  contract of \<open>include/leveldb/filter_policy.h\<close> as a locale: a filter built from a list of keys
  accepts each of them.

  \<open>size_t\<close> is 64 bits wide: a size is a natural number and the one product of the code that could
  exceed the range is reduced modulo \<open>2 ^ 64\<close>.
\<close>

subsection \<open>Hash\<close>

fun Hash_loop :: "u32 \<Rightarrow> bytes \<Rightarrow> u32 \<times> bytes" where
  "Hash_loop h (b0 # b1 # b2 # b3 # data) =
     (let w = DecodeFixed32 [b0, b1, b2, b3];
          h = h + w;
          h = h * 0xc6a4a793;
          h = h XOR drop_bit 16 h
      in Hash_loop h data)"
| "Hash_loop h data = (h, data)"

definition Hash_tail :: "u32 \<Rightarrow> bytes \<Rightarrow> u32" where
  "Hash_tail h data =
     (let m = 0xc6a4a793; r = 24;
          h = (if length data = 3 then h + push_bit 16 (ucast (data ! 2)) else h);
          h = (if length data = 3 \<or> length data = 2 then h + push_bit 8 (ucast (data ! 1)) else h)
      in if length data = 3 \<or> length data = 2 \<or> length data = 1 then
           let h = h + ucast (data ! 0); h = h * m in h XOR drop_bit r h
         else h)"

definition Hash :: "bytes \<Rightarrow> u32 \<Rightarrow> u32" where
  "Hash data seed =
     (let n = length data;
          h = (ucast ((ucast seed :: u64) XOR (of_nat n * 0xc6a4a793)) :: u32);
          (h, data) = Hash_loop h data
      in Hash_tail h data)"

subsection \<open>The filter policy\<close>

record BloomFilterPolicy =
  bits_per_key :: nat
  k_probes :: nat

text \<open>
  The number of probes \<open>k_\<close> is computed in double precision from \<open>bits_per_key * 0.69\<close>, truncated. Below the bound of 30
  that follows, \<open>bits_per_key\<close> is at most 43, where the product is never within rounding distance of
  an integer, so the integer quotient below is the same number. A negative argument has no defined
  conversion in the source; statements about the policy assume it is not negative.
\<close>

definition NewBloomFilterPolicy :: "int \<Rightarrow> BloomFilterPolicy" where
  "NewBloomFilterPolicy n =
     (let k = nat (n * 69 div 100);
          k = (if k < 1 then 1 else k);
          k = (if k > 30 then 30 else k)
      in \<lparr>bits_per_key = nat (n mod 2 ^ 64), k_probes = k\<rparr>)"

definition BloomHash :: "slice \<Rightarrow> u32" where
  "BloomHash key = Hash key 0xbc9f1d34"

definition bloom_delta :: "u32 \<Rightarrow> u32" where
  "bloom_delta h = drop_bit 17 h OR push_bit 15 h"

text \<open>The inner loops: \<open>j\<close> probes are left, \<open>array\<close> starts at \<open>base\<close> in the string.\<close>

fun CreateFilter_probes :: "nat \<Rightarrow> nat \<Rightarrow> nat \<Rightarrow> u32 \<Rightarrow> u32 \<Rightarrow> bytes \<Rightarrow> bytes" where
  "CreateFilter_probes 0 base bits h delta dst = dst"
| "CreateFilter_probes (Suc j) base bits h delta dst =
     (let bitpos = unat h mod bits;
          i = base + bitpos div 8;
          dst = dst[i := dst ! i OR push_bit (bitpos mod 8) 1]
      in CreateFilter_probes j base bits (h + delta) delta dst)"

fun CreateFilter_keys :: "nat \<Rightarrow> nat \<Rightarrow> nat \<Rightarrow> slice list \<Rightarrow> bytes \<Rightarrow> bytes" where
  "CreateFilter_keys k base bits [] dst = dst"
| "CreateFilter_keys k base bits (key # keys) dst =
     (let h = BloomHash key in
      CreateFilter_keys k base bits keys
        (CreateFilter_probes k base bits h (bloom_delta h) dst))"

definition CreateFilter :: "BloomFilterPolicy \<Rightarrow> slice list \<Rightarrow> bytes \<Rightarrow> bytes" where
  "CreateFilter this keys dst =
     (let n = length keys;
          bits = n * bits_per_key this mod 2 ^ 64;
          bits = (if bits < 64 then 64 else bits);
          bytes = ((bits + 7) mod 2 ^ 64) div 8;
          bits = bytes * 8;
          init_size = length dst;
          dst = dst @ replicate bytes 0;
          dst = dst @ [of_nat (k_probes this)]
      in CreateFilter_keys (k_probes this) init_size bits keys dst)"

fun KeyMayMatch_probes :: "nat \<Rightarrow> nat \<Rightarrow> u32 \<Rightarrow> u32 \<Rightarrow> bytes \<Rightarrow> bool" where
  "KeyMayMatch_probes 0 bits h delta array = True"
| "KeyMayMatch_probes (Suc j) bits h delta array =
     (let bitpos = unat h mod bits in
      if array ! (bitpos div 8) AND push_bit (bitpos mod 8) 1 = 0 then False
      else KeyMayMatch_probes j bits (h + delta) delta array)"

definition KeyMayMatch :: "slice \<Rightarrow> slice \<Rightarrow> bool" where
  "KeyMayMatch key bloom_filter =
     (let len = length bloom_filter in
      if len < 2 then False
      else
        let bits = (len - 1) * 8;
            k = unat (bloom_filter ! (len - 1))
        in if k > 30 then True
           else let h = BloomHash key in KeyMayMatch_probes k bits h (bloom_delta h) bloom_filter)"

subsection \<open>Hash values\<close>

text \<open>The values \<open>util/hash_test.cc\<close> expects.\<close>

lemma Hash_test_vectors:
  "Hash [] 0xbc9f1d34 = 0xbc9f1d34"
  "Hash [0x62] 0xbc9f1d34 = 0xef1345c4"
  "Hash [0xc3, 0x97] 0xbc9f1d34 = 0x5b663814"
  "Hash [0xe2, 0x99, 0xa5] 0xbc9f1d34 = 0x323c078f"
  "Hash [0xe1, 0x80, 0xb9, 0x32] 0xbc9f1d34 = 0xed21633a"
  by (simp_all add: Hash_def Hash_tail_def DecodeFixed32_def Let_def)

lemma Hash_test_vector_seed:
  "Hash [0x01, 0xc0, 0, 0, 0, 0, 0, 0, 0, 0, 0, 0, 0, 0, 0, 0, 0x14, 0, 0, 0, 0, 0, 4, 0,
     0, 0, 0, 0x14, 0, 0, 0, 0x18, 0x28, 0, 0, 0, 0, 0, 0, 0, 2, 0, 0, 0, 0, 0, 0, 0]
     0x12345678 = 0xf333dabb"
  by code_simp

subsection \<open>Bits of the filter\<close>

definition bit_at :: "bytes \<Rightarrow> nat \<Rightarrow> bool" where
  "bit_at dst pos \<longleftrightarrow> dst ! (pos div 8) AND push_bit (pos mod 8) 1 \<noteq> 0"

lemma byte_bit_test: "b AND push_bit i 1 \<noteq> 0 \<longleftrightarrow> bit b i" for b :: byte
  by (auto simp: bit_iff_and_push_bit_not_eq_0 and.commute)

lemma bit_at_iff: "bit_at dst pos \<longleftrightarrow> bit (dst ! (pos div 8)) (pos mod 8)"
  by (simp only: bit_at_def byte_bit_test)

lemma length_CreateFilter_probes [simp]:
  "length (CreateFilter_probes j base bits h delta dst) = length dst"
  by (induction j arbitrary: h dst) (simp_all add: Let_def)

lemma CreateFilter_probes_append:
  "CreateFilter_probes j (length pre) bits h delta (pre @ dst) = pre @ CreateFilter_probes j 0 bits h delta dst"
  by (induction j arbitrary: h dst) (simp_all add: Let_def nth_append list_update_append)

lemma CreateFilter_keys_append:
  "CreateFilter_keys k (length pre) bits keys (pre @ dst) = pre @ CreateFilter_keys k 0 bits keys dst"
  by (induction keys arbitrary: dst) (simp_all add: Let_def CreateFilter_probes_append)

lemma length_CreateFilter_keys [simp]:
  "length (CreateFilter_keys k base bits keys dst) = length dst"
  by (induction keys arbitrary: dst) (simp_all add: Let_def)

text \<open>A filter is a bit array of \<open>bits\<close> bits followed by the probe count; probing stays inside it.\<close>

lemma probe_in_array: "0 < nb \<Longrightarrow> unat h mod (8 * nb) div 8 < nb"
  by (simp add: div_less_iff_less_mult mult.commute)

lemma CreateFilter_probes_count:
  "0 < nb \<Longrightarrow> CreateFilter_probes j 0 (8 * nb) h delta dst ! nb = dst ! nb"
proof (induction j arbitrary: h dst)
  case (Suc j)
  then show ?case
    using probe_in_array [OF Suc.prems, of h] by (simp add: Let_def)
qed simp

lemma CreateFilter_keys_count:
  "0 < nb \<Longrightarrow> CreateFilter_keys k 0 (8 * nb) keys dst ! nb = dst ! nb"
  by (induction keys arbitrary: dst) (simp_all add: Let_def CreateFilter_probes_count)

text \<open>Bits are only ever set.\<close>

lemma set_bit_mono:
  "bit_at dst pos \<Longrightarrow> bit_at (dst[i := dst ! i OR b]) pos"
  by (cases "i < length dst"; cases "i = pos div 8")
    (auto simp: bit_at_iff bit_or_iff list_update_beyond)

lemma set_bit_sets:
  "p div 8 < length dst \<Longrightarrow> bit_at (dst[p div 8 := dst ! (p div 8) OR push_bit (p mod 8) 1]) p"
  by (simp add: bit_at_iff bit_simps)

lemma CreateFilter_probes_mono:
  "bit_at dst pos \<Longrightarrow> bit_at (CreateFilter_probes j base bits h delta dst) pos"
  by (induction j arbitrary: h dst) (simp_all add: Let_def set_bit_mono del: push_bit_of_1)

lemma CreateFilter_keys_mono:
  "bit_at dst pos \<Longrightarrow> bit_at (CreateFilter_keys k base bits keys dst) pos"
  by (induction keys arbitrary: dst) (simp_all add: Let_def CreateFilter_probes_mono)

lemma KeyMayMatch_probes_mono:
  assumes "\<And>pos. bit_at a pos \<Longrightarrow> bit_at b pos"
  shows "KeyMayMatch_probes j bits h delta a \<Longrightarrow> KeyMayMatch_probes j bits h delta b"
proof (induction j arbitrary: h)
  case (Suc j)
  from Suc.prems have "bit_at a (unat h mod bits)" and "KeyMayMatch_probes j bits (h + delta) delta a"
    by (auto simp: Let_def bit_at_def split: if_splits)
  then have "bit_at b (unat h mod bits)" and "KeyMayMatch_probes j bits (h + delta) delta b"
    using assms Suc.IH by auto
  then show ?case by (simp add: Let_def bit_at_def)
qed simp

lemma KeyMayMatch_after_probes:
  assumes "0 < nb" "nb \<le> length dst"
  shows "KeyMayMatch_probes j (8 * nb) h delta (CreateFilter_probes j 0 (8 * nb) h delta dst)"
  using assms(2)
proof (induction j arbitrary: h dst)
  case (Suc j)
  let ?p = "unat h mod (8 * nb)"
  let ?dst = "dst[?p div 8 := dst ! (?p div 8) OR push_bit (?p mod 8) 1]"
  have "bit_at ?dst ?p"
    using probe_in_array [OF assms(1), of h] Suc.prems by (intro set_bit_sets) linarith
  then have "bit_at (CreateFilter_probes j 0 (8 * nb) (h + delta) delta ?dst) ?p"
    by (rule CreateFilter_probes_mono)
  moreover have "KeyMayMatch_probes j (8 * nb) (h + delta) delta
      (CreateFilter_probes j 0 (8 * nb) (h + delta) delta ?dst)"
    using Suc by simp
  ultimately show ?case by (simp add: Let_def bit_at_def del: push_bit_of_1)
qed simp

lemma KeyMayMatch_after_keys:
  assumes "0 < nb" "nb \<le> length dst" "key \<in> set keys"
  shows "KeyMayMatch_probes k (8 * nb) (BloomHash key) (bloom_delta (BloomHash key))
           (CreateFilter_keys k 0 (8 * nb) keys dst)"
  using assms(2,3)
proof (induction keys arbitrary: dst)
  case (Cons x keys)
  let ?dst = "CreateFilter_probes k 0 (8 * nb) (BloomHash x) (bloom_delta (BloomHash x)) dst"
  show ?case
  proof (cases "key \<in> set keys")
    case True
    with Cons show ?thesis by (simp add: Let_def)
  next
    case False
    with Cons.prems have "key = x" by simp
    then have "KeyMayMatch_probes k (8 * nb) (BloomHash key) (bloom_delta (BloomHash key)) ?dst"
      using KeyMayMatch_after_probes [OF assms(1) Cons.prems(1)] by simp
    then show ?thesis
      by (auto simp: Let_def intro: KeyMayMatch_probes_mono [OF CreateFilter_keys_mono])
  qed
qed simp

subsection \<open>The policy keeps its promise\<close>

lemma NewBloomFilterPolicy_probes:
  "1 \<le> k_probes (NewBloomFilterPolicy n) \<and> k_probes (NewBloomFilterPolicy n) \<le> 30"
  by (auto simp: NewBloomFilterPolicy_def Let_def)

lemma CreateFilter_append: "CreateFilter this keys dst = dst @ CreateFilter this keys []"
  using CreateFilter_keys_append [of _ dst] by (simp add: CreateFilter_def Let_def)

text \<open>The size of the bit array: at least 64 bits, and enough for \<open>bits_per_key\<close> bits per key.\<close>

definition filter_bytes :: "BloomFilterPolicy \<Rightarrow> nat \<Rightarrow> nat" where
  "filter_bytes this n = (max 64 (n * bits_per_key this) + 7) div 8"

definition bloom_ok :: "BloomFilterPolicy \<Rightarrow> nat \<Rightarrow> bool" where
  "bloom_ok this n \<longleftrightarrow> n * bits_per_key this < 2 ^ 62 \<and> 1 \<le> k_probes this \<and> k_probes this \<le> 30"

lemma CreateFilter_eq:
  assumes "bloom_ok this (length keys)"
  shows "CreateFilter this keys [] =
    CreateFilter_keys (k_probes this) 0 (8 * filter_bytes this (length keys)) keys
      (replicate (filter_bytes this (length keys)) 0 @ [of_nat (k_probes this)])"
  using assms
  by (simp add: CreateFilter_def Let_def filter_bytes_def bloom_ok_def max_def mult.commute)

lemma filter_bytes_ge: "8 \<le> filter_bytes this n"
proof -
  have "(64 + 7) div 8 \<le> (max 64 (n * bits_per_key this) + 7) div 8"
    by (rule div_le_mono) simp
  then show ?thesis by (simp add: filter_bytes_def)
qed

lemma KeyMayMatch_CreateFilter:
  assumes "bloom_ok this (length keys)" and "key \<in> set keys"
  shows "KeyMayMatch key (CreateFilter this keys [])"
proof -
  let ?nb = "filter_bytes this (length keys)" and ?k = "k_probes this"
  let ?f = "CreateFilter this keys []"
  have nb: "0 < ?nb" using filter_bytes_ge [of this "length keys"] by linarith
  have len: "length ?f = ?nb + 1" by (simp add: CreateFilter_eq [OF assms(1)])
  have "?f ! ?nb = of_nat ?k"
    using nb by (simp add: CreateFilter_eq [OF assms(1)] CreateFilter_keys_count nth_append)
  then have k: "unat (?f ! ?nb) = ?k"
    using assms(1) by (simp add: unat_of_nat bloom_ok_def)
  have "KeyMayMatch_probes ?k (8 * ?nb) (BloomHash key) (bloom_delta (BloomHash key)) ?f"
    unfolding CreateFilter_eq [OF assms(1)]
    by (rule KeyMayMatch_after_keys [OF nb _ assms(2)]) simp
  then show ?thesis
    using k len nb by (simp add: KeyMayMatch_def Let_def mult.commute)
qed

text \<open>
  The contract of \<open>FilterPolicy\<close>: filters are appended to the destination, and a filter matches every
  key it was built from. Users of a policy (the filter block of a table, the internal-key wrapper of
  the database) rely on nothing else.
\<close>

locale filter_policy =
  fixes create :: "slice list \<Rightarrow> bytes \<Rightarrow> bytes"
    and may_match :: "slice \<Rightarrow> slice \<Rightarrow> bool"
    and ok :: "slice list \<Rightarrow> bool"
  assumes create_append: "create keys dst = dst @ create keys []"
    and may_match_create: "ok keys \<Longrightarrow> key \<in> set keys \<Longrightarrow> may_match key (create keys [])"
begin

lemma create_prefix: "prefix dst (create keys dst)"
  by (subst create_append) simp

lemma may_match_appended:
  "ok keys \<Longrightarrow> key \<in> set keys \<Longrightarrow> may_match key (drop (length dst) (create keys dst))"
  by (subst create_append) (simp add: may_match_create)

end

interpretation bloom: filter_policy "CreateFilter this" KeyMayMatch "\<lambda>keys. bloom_ok this (length keys)"
  for this
  by unfold_locales (rule CreateFilter_append, rule KeyMayMatch_CreateFilter)

lemma NewBloomFilterPolicy_ok:
  assumes "0 \<le> n" "n < 2 ^ 31" "m < 2 ^ 31"
  shows "bloom_ok (NewBloomFilterPolicy n) m"
proof -
  have "bits_per_key (NewBloomFilterPolicy n) = nat n"
    using assms by (simp add: NewBloomFilterPolicy_def Let_def)
  moreover have "nat n < 2 ^ 31" using assms by simp
  with assms have "m * nat n < 2 ^ 31 * 2 ^ 31" by (intro mult_strict_mono) auto
  ultimately show ?thesis
    using NewBloomFilterPolicy_probes [of n] by (simp add: bloom_ok_def)
qed

text \<open>
  C13: A Bloom filter has no false negatives. For every bits-per-key setting an \<open>int\<close> can hold that is
  not negative and every list of keys, a filter \<open>CreateFilter\<close> appends to any string matches every key
  it was built from, so a negative answer of \<open>KeyMayMatch\<close> is proof that the key is absent.
\<close>

theorem bloom_no_false_negatives:
  assumes "0 \<le> n" "n < 2 ^ 31" "length keys < 2 ^ 31" "key \<in> set keys"
  shows "KeyMayMatch key (drop (length dst) (CreateFilter (NewBloomFilterPolicy n) keys dst))"
  using assms by (intro bloom.may_match_appended NewBloomFilterPolicy_ok)

theorem bloom_no_false_negatives_witness:
  "KeyMayMatch [104, 105] (drop 1 (CreateFilter (NewBloomFilterPolicy 10) [[104], [104, 105]] [7]))"
  using bloom_no_false_negatives [of 10 "[[104], [104, 105]]" "[104, 105]" "[7]"] by simp

text \<open>
  Size of a filter. What \<open>CreateFilter\<close> appends is the bit array of \<open>filter_bytes\<close> bytes (never less
  than eight) and one byte holding the number of probes, which is between 1 and 30, so that a reader
  never mistakes it for a reserved encoding.
\<close>

theorem bloom_filter_layout:
  assumes "0 \<le> n" "n < 2 ^ 31" "length keys < 2 ^ 31"
  shows "let p = NewBloomFilterPolicy n; f = CreateFilter p keys [] in
     length f = filter_bytes p (length keys) + 1 \<and> 9 \<le> length f \<and>
     unat (last f) = k_probes p \<and> unat (last f) \<in> {1..30}"
proof -
  let ?p = "NewBloomFilterPolicy n"
  let ?nb = "filter_bytes ?p (length keys)" and ?f = "CreateFilter ?p keys []"
  have ok: "bloom_ok ?p (length keys)" using assms by (rule NewBloomFilterPolicy_ok)
  have nb: "8 \<le> ?nb" by (rule filter_bytes_ge)
  have len: "length ?f = ?nb + 1" by (simp add: CreateFilter_eq [OF ok])
  have "?f ! ?nb = of_nat (k_probes ?p)"
    using nb by (simp add: CreateFilter_eq [OF ok] CreateFilter_keys_count nth_append)
  then have "unat (last ?f) = k_probes ?p"
    using len ok by (simp add: last_conv_nth flip: length_greater_0_conv)
      (simp add: unat_of_nat bloom_ok_def)
  then show ?thesis
    using len nb NewBloomFilterPolicy_probes [of n] by (simp add: Let_def)
qed

theorem bloom_filter_layout_witness:
  "length (CreateFilter (NewBloomFilterPolicy 10) [[1], [2, 3]] []) = 9"
  using bloom_filter_layout [of 10 "[[1], [2, 3]]"]
  by (simp add: Let_def filter_bytes_def NewBloomFilterPolicy_def)

end
