(* ===== verification/Dbformat.thy ===== *)
theory Dbformat
  imports Comparator Bloom
begin

text \<open>
  Internal keys (\<open>db/dbformat.h\<close>, \<open>db/dbformat.cc\<close>): a user key followed by eight bytes that pack a
  sequence number and a value type. The internal comparator orders them by user key and then from the
  newest to the oldest entry; lookup keys are built so that a seek lands on the newest visible entry.
\<close>

subsection \<open>Data\<close>

definition kNumLevels :: nat where "kNumLevels = 7"
definition kL0_CompactionTrigger :: nat where "kL0_CompactionTrigger = 4"
definition kL0_SlowdownWritesTrigger :: nat where "kL0_SlowdownWritesTrigger = 8"
definition kL0_StopWritesTrigger :: nat where "kL0_StopWritesTrigger = 12"
definition kMaxMemCompactLevel :: nat where "kMaxMemCompactLevel = 2"

datatype ValueType = kTypeDeletion | kTypeValue

fun ValueType_code :: "ValueType \<Rightarrow> u64" where
  "ValueType_code kTypeDeletion = 0"
| "ValueType_code kTypeValue = 1"

definition kValueTypeForSeek :: ValueType where "kValueTypeForSeek = kTypeValue"

type_synonym SequenceNumber = u64

definition kMaxSequenceNumber :: SequenceNumber where
  "kMaxSequenceNumber = push_bit 56 1 - 1"

record ParsedInternalKey =
  user_key :: slice
  sequence :: SequenceNumber
  vtype :: ValueType

definition PackSequenceAndType :: "u64 \<Rightarrow> ValueType \<Rightarrow> u64" where
  "PackSequenceAndType seq t = push_bit 8 seq OR ValueType_code t"

definition InternalKeyEncodingLength :: "ParsedInternalKey \<Rightarrow> nat" where
  "InternalKeyEncodingLength key = length (user_key key) + 8"

definition AppendInternalKey :: "bytes \<Rightarrow> ParsedInternalKey \<Rightarrow> bytes" where
  "AppendInternalKey result key =
     PutFixed64 (result @ user_key key) (PackSequenceAndType (sequence key) (vtype key))"

definition ExtractUserKey :: "slice \<Rightarrow> slice" where
  "ExtractUserKey internal_key = take (length internal_key - 8) internal_key"

definition ParseInternalKey :: "slice \<Rightarrow> ParsedInternalKey option" where
  "ParseInternalKey internal_key =
     (let n = length internal_key in
      if n < 8 then None
      else
        let num = DecodeFixed64 (drop (n - 8) internal_key);
            c = num AND 0xff
        in if c \<le> ValueType_code kTypeValue then
             Some \<lparr>user_key = take (n - 8) internal_key, sequence = drop_bit 8 num,
                   vtype = (if c = 0 then kTypeDeletion else kTypeValue)\<rparr>
           else None)"

text \<open>The class \<open>InternalKey\<close> wraps the encoded string.\<close>

type_synonym InternalKey = bytes

definition InternalKey :: "slice \<Rightarrow> SequenceNumber \<Rightarrow> ValueType \<Rightarrow> InternalKey" where
  "InternalKey u s t = AppendInternalKey [] \<lparr>user_key = u, sequence = s, vtype = t\<rparr>"

definition InternalKey_DecodeFrom :: "slice \<Rightarrow> InternalKey \<times> bool" where
  "InternalKey_DecodeFrom s = (s, s \<noteq> [])"

definition InternalKey_SetFrom :: "ParsedInternalKey \<Rightarrow> InternalKey" where
  "InternalKey_SetFrom p = AppendInternalKey [] p"

subsection \<open>The internal comparator and filter policy\<close>

definition InternalKeyComparator_Compare ::
  "(slice \<Rightarrow> slice \<Rightarrow> int) \<Rightarrow> slice \<Rightarrow> slice \<Rightarrow> int" where
  "InternalKeyComparator_Compare user_compare akey bkey =
     (let r = user_compare (ExtractUserKey akey) (ExtractUserKey bkey) in
      if r = 0 then
        let anum = DecodeFixed64 (drop (length akey - 8) akey);
            bnum = DecodeFixed64 (drop (length bkey - 8) bkey)
        in if anum > bnum then -1 else if anum < bnum then 1 else r
      else r)"

definition InternalKeyComparator_FindShortestSeparator ::
  "(slice \<Rightarrow> slice \<Rightarrow> int) \<Rightarrow> (bytes \<Rightarrow> slice \<Rightarrow> bytes) \<Rightarrow> bytes \<Rightarrow> slice \<Rightarrow> bytes" where
  "InternalKeyComparator_FindShortestSeparator user_compare user_separator start limit =
     (let user_start = ExtractUserKey start;
          user_limit = ExtractUserKey limit;
          tmp = user_separator user_start user_limit
      in if length tmp < length user_start \<and> user_compare user_start tmp < 0
         then PutFixed64 tmp (PackSequenceAndType kMaxSequenceNumber kValueTypeForSeek)
         else start)"

definition InternalKeyComparator_FindShortSuccessor ::
  "(slice \<Rightarrow> slice \<Rightarrow> int) \<Rightarrow> (bytes \<Rightarrow> bytes) \<Rightarrow> bytes \<Rightarrow> bytes" where
  "InternalKeyComparator_FindShortSuccessor user_compare user_successor key =
     (let ukey = ExtractUserKey key;
          tmp = user_successor ukey
      in if length tmp < length ukey \<and> user_compare ukey tmp < 0
         then PutFixed64 tmp (PackSequenceAndType kMaxSequenceNumber kValueTypeForSeek)
         else key)"

definition InternalFilterPolicy_CreateFilter ::
  "(slice list \<Rightarrow> bytes \<Rightarrow> bytes) \<Rightarrow> slice list \<Rightarrow> bytes \<Rightarrow> bytes" where
  "InternalFilterPolicy_CreateFilter user_create keys dst = user_create (map ExtractUserKey keys) dst"

definition InternalFilterPolicy_KeyMayMatch ::
  "(slice \<Rightarrow> slice \<Rightarrow> bool) \<Rightarrow> slice \<Rightarrow> slice \<Rightarrow> bool" where
  "InternalFilterPolicy_KeyMayMatch user_may_match key f = user_may_match (ExtractUserKey key) f"

subsection \<open>Lookup keys\<close>

text \<open>\<open>lk_rep\<close> holds the bytes from \<open>start_\<close> to \<open>end_\<close>, \<open>lk_kstart\<close> is \<open>kstart_ - start_\<close>.\<close>

record LookupKey =
  lk_rep :: bytes
  lk_kstart :: nat

definition LookupKey :: "slice \<Rightarrow> SequenceNumber \<Rightarrow> LookupKey" where
  "LookupKey ukey s =
     (let usize = length ukey;
          klength = EncodeVarint32 (of_nat (usize + 8))
      in \<lparr>lk_rep = klength @ ukey @ EncodeFixed64 (PackSequenceAndType s kValueTypeForSeek),
          lk_kstart = length klength\<rparr>)"

definition LookupKey_memtable_key :: "LookupKey \<Rightarrow> slice" where
  "LookupKey_memtable_key lk = lk_rep lk"

definition LookupKey_internal_key :: "LookupKey \<Rightarrow> slice" where
  "LookupKey_internal_key lk = drop (lk_kstart lk) (lk_rep lk)"

definition LookupKey_user_key :: "LookupKey \<Rightarrow> slice" where
  "LookupKey_user_key lk = take (length (lk_rep lk) - lk_kstart lk - 8) (drop (lk_kstart lk) (lk_rep lk))"

subsection \<open>Packing\<close>

lemma kMaxSequenceNumber_eq: "kMaxSequenceNumber = 0xffffffffffffff"
  by (simp add: kMaxSequenceNumber_def push_bit_of_1)

lemma ValueType_code_bits: "bit (ValueType_code t) n \<longleftrightarrow> n = 0 \<and> t = kTypeValue"
  by (cases t) (auto simp: bit_1_iff)

lemma seq_bound_bits: "s \<le> kMaxSequenceNumber \<Longrightarrow> take_bit 56 s = s"
proof -
  assume "s \<le> kMaxSequenceNumber"
  then have "s < 2 ^ 56" by (simp add: kMaxSequenceNumber_eq word_le_nat_alt word_less_nat_alt)
  then show ?thesis by (simp only: take_bit_eq_mask less_mask_eq)
qed

lemma drop_bit_Pack [simp]:
  assumes "s \<le> kMaxSequenceNumber"
  shows "drop_bit 8 (PackSequenceAndType s t) = s"
proof -
  have "drop_bit 8 (PackSequenceAndType s t) = take_bit 56 s"
    by (rule bit_word_eqI) (auto simp: PackSequenceAndType_def bit_simps ValueType_code_bits)
  with assms show ?thesis by (simp add: seq_bound_bits)
qed

lemma bit_255: "bit (255 :: int) n \<longleftrightarrow> n < 8"
  using bit_mask_iff [of 8 n, where 'a = int] by (auto simp: mask_eq_exp_minus_1)

lemma low_byte_Pack [simp]: "PackSequenceAndType s t AND 0xff = ValueType_code t"
  by (rule bit_word_eqI) (auto simp: PackSequenceAndType_def bit_simps ValueType_code_bits bit_255)

lemma unat_low_byte: "unat (w AND 0xff) = unat w mod 256" for w :: u64
proof -
  have "w AND 0xff = take_bit 8 w" by (simp add: take_bit_eq_mask mask_eq_exp_minus_1)
  then show ?thesis by (simp add: take_bit_eq_mod unat_mod)
qed

lemma unat_Pack:
  assumes "s \<le> kMaxSequenceNumber"
  shows "unat (PackSequenceAndType s t) = 256 * unat s + unat (ValueType_code t)"
proof -
  let ?p = "PackSequenceAndType s t"
  have "unat ?p = unat ?p div 256 * 256 + unat ?p mod 256" by simp
  moreover have "unat ?p div 256 = unat s"
    using unat_drop_bit_div [of 8 ?p] assms by simp
  moreover have "unat ?p mod 256 = unat (ValueType_code t)"
    using low_byte_Pack [of s t] unat_low_byte [of ?p] by simp
  ultimately show ?thesis by simp
qed

subsection \<open>Parsing\<close>

lemma EncodeFixed64_inject [simp]: "EncodeFixed64 a = EncodeFixed64 b \<longleftrightarrow> a = b"
  using fixed64.put_inject by simp

lemma EncodeFixed64_DecodeFixed64:
  assumes "length bs = 8"
  shows "EncodeFixed64 (DecodeFixed64 bs) = bs"
proof -
  obtain b0 b1 b2 b3 b4 b5 b6 b7 where bs: "bs = [b0, b1, b2, b3, b4, b5, b6, b7]"
    using assms by (auto simp: numeral_eq_Suc length_Suc_conv)
  have byte: "\<not> bit (b :: byte) n" if "8 \<le> n" for b n
    using that bit_imp_le_length [of b n] by auto
  show ?thesis
    unfolding bs EncodeFixed64_def DecodeFixed64_def list.inject
    by (intro conjI; (rule bit_word_eqI)?; auto simp: bit_simps byte)
qed

lemma DecodeFixed64_inject:
  "length a = 8 \<Longrightarrow> length b = 8 \<Longrightarrow> DecodeFixed64 a = DecodeFixed64 b \<longleftrightarrow> a = b"
  by (metis EncodeFixed64_DecodeFixed64)

lemma InternalKey_eq: "InternalKey u s t = u @ EncodeFixed64 (PackSequenceAndType s t)"
  by (simp add: InternalKey_def AppendInternalKey_def PutFixed64_def)

lemma ExtractUserKey_append [simp]: "ExtractUserKey (u @ EncodeFixed64 n) = u"
  by (simp add: ExtractUserKey_def)

definition internal_tag :: "slice \<Rightarrow> u64" where
  "internal_tag ikey = DecodeFixed64 (drop (length ikey - 8) ikey)"

lemma internal_tag_append [simp]: "internal_tag (u @ EncodeFixed64 n) = n"
  using DecodeFixed64_EncodeFixed64 [of n "[]"] by (simp add: internal_tag_def)

lemma internal_key_split:
  "8 \<le> length k \<Longrightarrow> k = ExtractUserKey k @ EncodeFixed64 (internal_tag k)"
  by (simp add: ExtractUserKey_def internal_tag_def EncodeFixed64_DecodeFixed64)

lemma internal_key_eqI:
  "8 \<le> length a \<Longrightarrow> 8 \<le> length b \<Longrightarrow> ExtractUserKey a = ExtractUserKey b \<Longrightarrow>
   internal_tag a = internal_tag b \<Longrightarrow> a = b"
  by (metis internal_key_split)

text \<open>
  C19: Internal keys round trip. Parsing what \<open>AppendInternalKey\<close> writes returns the same user key,
  sequence number and type, for every sequence number up to \<open>kMaxSequenceNumber\<close>.
\<close>

theorem ParseInternalKey_AppendInternalKey:
  assumes "sequence key \<le> kMaxSequenceNumber"
  shows "ParseInternalKey (AppendInternalKey [] key) = Some key"
  using assms DecodeFixed64_EncodeFixed64 [of _ "[]"]
  by (cases key; cases "vtype key")
    (simp_all add: ParseInternalKey_def AppendInternalKey_def PutFixed64_def Let_def)

theorem ParseInternalKey_AppendInternalKey_witness:
  "ParseInternalKey (AppendInternalKey [] \<lparr>user_key = [97], sequence = 5, vtype = kTypeValue\<rparr>)
     = Some \<lparr>user_key = [97], sequence = 5, vtype = kTypeValue\<rparr>"
  using ParseInternalKey_AppendInternalKey [of "\<lparr>user_key = [97], sequence = 5, vtype = kTypeValue\<rparr>"]
  by (simp add: kMaxSequenceNumber_eq)

lemma ParseInternalKey_short: "length k < 8 \<Longrightarrow> ParseInternalKey k = None"
  by (simp add: ParseInternalKey_def)

subsection \<open>The internal order\<close>

lemma InternalKeyComparator_Compare_eq:
  "InternalKeyComparator_Compare ucmp a b =
     (let r = ucmp (ExtractUserKey a) (ExtractUserKey b) in
      if r = 0 then if internal_tag b < internal_tag a then -1
                    else if internal_tag a < internal_tag b then 1 else 0
      else r)"
  by (simp add: InternalKeyComparator_Compare_def internal_tag_def Let_def)

text \<open>
  A user comparator that keeps the contract of \<open>Comparator\<close>, and leaves a start key alone that is not
  below its limit, lifts to internal keys: the internal comparator keeps the same contract on every
  string long enough to be an internal key.
\<close>

locale user_comparator = shortening_comparator +
  assumes separator_same: "ok a \<Longrightarrow> FindShortestSeparator a a = a"

abbreviation internal_ok :: "(slice \<Rightarrow> bool) \<Rightarrow> slice \<Rightarrow> bool" where
  "internal_ok ok k \<equiv> 8 \<le> length k \<and> ok (ExtractUserKey k)"

context comparator
begin

lemma internal_compare_less:
  assumes "internal_ok ok a" "internal_ok ok b"
  shows "InternalKeyComparator_Compare Compare a b < 0 \<longleftrightarrow>
    Compare (ExtractUserKey a) (ExtractUserKey b) < 0 \<or>
    ExtractUserKey a = ExtractUserKey b \<and> internal_tag b < internal_tag a"
  using assms by (auto simp: InternalKeyComparator_Compare_eq Let_def compare_eq)

lemma internal_compare_greater:
  assumes "internal_ok ok a" "internal_ok ok b"
  shows "0 < InternalKeyComparator_Compare Compare a b \<longleftrightarrow>
    0 < Compare (ExtractUserKey a) (ExtractUserKey b) \<or>
    ExtractUserKey a = ExtractUserKey b \<and> internal_tag a < internal_tag b"
  using assms by (auto simp: InternalKeyComparator_Compare_eq Let_def compare_eq)

end

context user_comparator
begin

lemma internal_compare_eq:
  assumes "internal_ok ok a" "internal_ok ok b"
  shows "InternalKeyComparator_Compare Compare a b = 0 \<longleftrightarrow> a = b"
proof
  assume *: "InternalKeyComparator_Compare Compare a b = 0"
  with assms have "ExtractUserKey a = ExtractUserKey b" "internal_tag a = internal_tag b"
    by (auto simp: InternalKeyComparator_Compare_eq Let_def compare_eq split: if_splits)
  with assms show "a = b" by (auto intro: internal_key_eqI)
next
  assume "a = b"
  with assms show "InternalKeyComparator_Compare Compare a b = 0"
    by (simp add: InternalKeyComparator_Compare_eq)
qed

lemma internal_compare_refl: "internal_ok ok a \<Longrightarrow> InternalKeyComparator_Compare Compare a a = 0"
  by (simp add: internal_compare_eq)

lemma internal_separator_cases:
  obtains (same) "InternalKeyComparator_FindShortestSeparator Compare FindShortestSeparator start limit = start"
  | (short) tmp where "InternalKeyComparator_FindShortestSeparator Compare FindShortestSeparator start limit
        = tmp @ EncodeFixed64 (PackSequenceAndType kMaxSequenceNumber kValueTypeForSeek)"
      "tmp = FindShortestSeparator (ExtractUserKey start) (ExtractUserKey limit)"
      "Compare (ExtractUserKey start) tmp < 0"
  by (fastforce simp: InternalKeyComparator_FindShortestSeparator_def PutFixed64_def Let_def split: if_splits)

lemma internal_successor_cases:
  obtains (same) "InternalKeyComparator_FindShortSuccessor Compare FindShortSuccessor key = key"
  | (short) tmp where "InternalKeyComparator_FindShortSuccessor Compare FindShortSuccessor key
        = tmp @ EncodeFixed64 (PackSequenceAndType kMaxSequenceNumber kValueTypeForSeek)"
      "tmp = FindShortSuccessor (ExtractUserKey key)" "Compare (ExtractUserKey key) tmp < 0"
  by (fastforce simp: InternalKeyComparator_FindShortSuccessor_def PutFixed64_def Let_def split: if_splits)

lemma internal_separator_between:
  assumes "internal_ok ok start" "internal_ok ok limit"
    and less: "InternalKeyComparator_Compare Compare start limit < 0"
  defines "sep \<equiv> InternalKeyComparator_FindShortestSeparator Compare FindShortestSeparator start limit"
  shows "internal_ok ok sep \<and> InternalKeyComparator_Compare Compare start sep \<le> 0 \<and>
    InternalKeyComparator_Compare Compare sep limit < 0"
proof (cases rule: internal_separator_cases [of start limit])
  case same
  with assms show ?thesis by (simp add: sep_def internal_compare_refl)
next
  case (short tmp)
  let ?us = "ExtractUserKey start" and ?ul = "ExtractUserKey limit"
  have "?us \<noteq> ?ul" using short(2,3) assms(2) by (auto simp: separator_same)
  with less assms have ul: "Compare ?us ?ul < 0" by (simp add: internal_compare_less)
  have ok: "ok tmp" using short(2) assms by (simp add: separator_ok)
  with short ul assms show ?thesis
    by (auto simp: sep_def internal_compare_less separator_less intro: less_imp_le)
qed

lemma internal_successor_ge:
  assumes "internal_ok ok key"
  defines "succ \<equiv> InternalKeyComparator_FindShortSuccessor Compare FindShortSuccessor key"
  shows "internal_ok ok succ \<and> InternalKeyComparator_Compare Compare key succ \<le> 0"
proof (cases rule: internal_successor_cases [of key])
  case same
  with assms show ?thesis by (simp add: succ_def internal_compare_refl)
next
  case (short tmp)
  have "ok tmp" using short(2) assms by (simp add: successor_ok)
  with short assms show ?thesis
    by (auto simp: succ_def internal_compare_less intro!: less_imp_le)
qed

end

sublocale user_comparator \<subseteq> internal: shortening_comparator
    "InternalKeyComparator_Compare Compare" "internal_ok ok"
    "InternalKeyComparator_FindShortestSeparator Compare FindShortestSeparator"
    "InternalKeyComparator_FindShortSuccessor Compare FindShortSuccessor"
proof
  fix a b c
  assume a: "internal_ok ok a" and b: "internal_ok ok b"
  show "InternalKeyComparator_Compare Compare a b = 0 \<longleftrightarrow> a = b"
    using a b by (rule internal_compare_eq)
  show "InternalKeyComparator_Compare Compare b a < 0 \<longleftrightarrow> 0 < InternalKeyComparator_Compare Compare a b"
    using a b by (auto simp: internal_compare_less internal_compare_greater compare_antisym)
  assume c: "internal_ok ok c"
    and "InternalKeyComparator_Compare Compare a b < 0" "InternalKeyComparator_Compare Compare b c < 0"
  then show "InternalKeyComparator_Compare Compare a c < 0"
    using a b by (auto simp: internal_compare_less intro: compare_trans)
next
  fix start limit
  assume "internal_ok ok start" "internal_ok ok limit"
  then show "internal_ok ok (InternalKeyComparator_FindShortestSeparator Compare FindShortestSeparator start limit)"
    by - (rule internal_separator_cases [of start limit], auto simp: separator_ok)
qed (use internal_separator_between internal_successor_ge in blast)+

interpretation bytewise_internal: user_comparator BytewiseComparator_Compare "\<lambda>_. True"
    BytewiseComparator_FindShortestSeparator BytewiseComparator_FindShortSuccessor
proof
  fix a :: bytes
  have "diff_index_loop a a = length a" by (induction a) auto
  then show "BytewiseComparator_FindShortestSeparator a a = a"
    by (simp add: BytewiseComparator_FindShortestSeparator_def)
qed

abbreviation internal_compare :: "slice \<Rightarrow> slice \<Rightarrow> int" where
  "internal_compare \<equiv> InternalKeyComparator_Compare BytewiseComparator_Compare"

subsection \<open>Newest first\<close>

lemma Pack_less_iff:
  assumes "s \<le> kMaxSequenceNumber" "s' \<le> kMaxSequenceNumber"
  shows "PackSequenceAndType s t < PackSequenceAndType s' t' \<longleftrightarrow>
    s < s' \<or> s = s' \<and> t = kTypeDeletion \<and> t' = kTypeValue"
  using assms
  by (cases t; cases t') (auto simp: word_less_nat_alt unat_Pack word_unat_eq_iff)

lemma Pack_inject [simp]:
  assumes "s \<le> kMaxSequenceNumber" "s' \<le> kMaxSequenceNumber"
  shows "PackSequenceAndType s t = PackSequenceAndType s' t' \<longleftrightarrow> s = s' \<and> t = t'"
  using Pack_less_iff [OF assms, of t t'] Pack_less_iff [OF assms(2,1), of t' t]
  by (cases t; cases t') (metis ValueType.distinct(1) less_irrefl linorder_neqE)+

lemma internal_compare_keys:
  assumes "s \<le> kMaxSequenceNumber" "s' \<le> kMaxSequenceNumber"
  shows "internal_compare (InternalKey u s t) (InternalKey u' s' t') < 0 \<longleftrightarrow>
    u < u' \<or> u = u' \<and> (s' < s \<or> s = s' \<and> t = kTypeValue \<and> t' = kTypeDeletion)"
  using assms
  by (auto simp: InternalKey_eq bytewise.internal_compare_less Pack_less_iff)

text \<open>
  C20: The internal order is by user key, and newest first within a user key. For sequence numbers in
  range, one internal key is before another exactly if its user key is smaller, or the user keys are
  equal and its sequence number is larger, or the sequence numbers are equal too and it is a value
  where the other is a deletion.
\<close>

theorem internal_order_newest_first:
  assumes "s \<le> kMaxSequenceNumber" "s' \<le> kMaxSequenceNumber"
  shows "internal_compare (InternalKey u s t) (InternalKey u' s' t') < 0 \<longleftrightarrow>
    u < u' \<or> u = u' \<and> (s' < s \<or> s = s' \<and> t = kTypeValue \<and> t' = kTypeDeletion)"
  using assms by (rule internal_compare_keys)

theorem internal_order_newest_first_witness:
  "internal_compare (InternalKey [97] 7 kTypeValue) (InternalKey [97] 3 kTypeValue) < 0"
  using internal_order_newest_first [of 7 3 "[97]" kTypeValue "[97]" kTypeValue]
  by (simp add: kMaxSequenceNumber_eq)

text \<open>
  C21: Index keys of tables. For internal keys under the bytewise comparator, the separator
  \<open>FindShortestSeparator\<close> makes from two keys in order lies between them (it is not below the first
  and strictly below the second), and \<open>FindShortSuccessor\<close> returns a key that is not below its
  argument; both results are long enough to be internal keys.
\<close>

theorem internal_separator_successor:
  assumes "8 \<le> length start" "8 \<le> length limit" "internal_compare start limit < 0"
  shows "let sep = InternalKeyComparator_FindShortestSeparator BytewiseComparator_Compare
               BytewiseComparator_FindShortestSeparator start limit;
             succ = InternalKeyComparator_FindShortSuccessor BytewiseComparator_Compare
               BytewiseComparator_FindShortSuccessor start
         in 8 \<le> length sep \<and> internal_compare start sep \<le> 0 \<and> internal_compare sep limit < 0 \<and>
            8 \<le> length succ \<and> internal_compare start succ \<le> 0"
  using assms bytewise_internal.internal_separator_between [of start limit]
    bytewise_internal.internal_successor_ge [of start]
  by (simp add: Let_def)

theorem internal_separator_successor_witness:
  "internal_compare (InternalKeyComparator_FindShortestSeparator BytewiseComparator_Compare
      BytewiseComparator_FindShortestSeparator (InternalKey [97, 98, 99] 4 kTypeValue)
      (InternalKey [99, 100] 9 kTypeValue)) (InternalKey [99, 100] 9 kTypeValue) < 0"
  using internal_separator_successor [of "InternalKey [97, 98, 99] 4 kTypeValue" "InternalKey [99, 100] 9 kTypeValue"]
    internal_compare_keys [of 4 9 "[97, 98, 99]" kTypeValue "[99, 100]" kTypeValue]
  by (simp add: Let_def kMaxSequenceNumber_eq InternalKey_eq)

subsection \<open>Lookup keys\<close>

lemma LookupKey_internal_key_eq [simp]:
  "LookupKey_internal_key (LookupKey u s) = InternalKey u s kValueTypeForSeek"
  by (simp add: LookupKey_internal_key_def LookupKey_def InternalKey_eq Let_def)

lemma LookupKey_user_key_eq [simp]: "LookupKey_user_key (LookupKey u s) = u"
  by (simp add: LookupKey_user_key_def LookupKey_def Let_def)

lemma LookupKey_memtable_key_eq:
  "LookupKey_memtable_key (LookupKey u s) = PutLengthPrefixedSlice [] (InternalKey u s kValueTypeForSeek)"
  by (simp add: LookupKey_memtable_key_def LookupKey_def Let_def InternalKey_eq
      PutLengthPrefixedSlice_def PutVarint32_def add.commute)

text \<open>
  C22: A lookup key separates what a snapshot sees from what it does not. The internal key a
  \<open>LookupKey\<close> for user key \<open>u\<close> and sequence number \<open>s\<close> holds is not after any entry of \<open>u\<close> with a
  sequence number up to \<open>s\<close>, and after every entry of \<open>u\<close> with a larger one, so the first entry at or
  after it is the newest one the snapshot may see.
\<close>

theorem lookup_key_seek:
  assumes "s \<le> kMaxSequenceNumber" "s' \<le> kMaxSequenceNumber"
  shows "internal_compare (LookupKey_internal_key (LookupKey u s)) (InternalKey u s' t) \<le> 0 \<longleftrightarrow> s' \<le> s"
proof -
  let ?lk = "InternalKey u s kValueTypeForSeek" and ?e = "InternalKey u s' t"
  have "internal_compare ?lk ?e \<le> 0 \<longleftrightarrow> \<not> internal_compare ?e ?lk < 0"
    using bytewise_internal.internal.compare_antisym [of ?lk ?e] by (simp add: InternalKey_eq not_less)
  also have "\<dots> \<longleftrightarrow> s' \<le> s"
    using assms by (auto simp: internal_compare_keys kValueTypeForSeek_def)
  finally show ?thesis by simp
qed

theorem lookup_key_seek_witness:
  "internal_compare (LookupKey_internal_key (LookupKey [97] 9)) (InternalKey [97] 4 kTypeDeletion) \<le> 0 \<and>
   \<not> internal_compare (LookupKey_internal_key (LookupKey [97] 3)) (InternalKey [97] 4 kTypeDeletion) \<le> 0"
  using lookup_key_seek [of 9 4 "[97]" kTypeDeletion] lookup_key_seek [of 3 4 "[97]" kTypeDeletion]
  by (simp add: kMaxSequenceNumber_eq)

text \<open>
  The buffer of a lookup key is large enough. \<open>LookupKey\<close> reserves \<open>usize + 13\<close> bytes before it
  knows the length of the varint; the bytes it writes never exceed that, whatever the key.
\<close>

theorem LookupKey_fits_buffer: "length (lk_rep (LookupKey u s)) \<le> length u + 13"
  using length_EncodeVarint32_5 [of "of_nat (length u + 8)"] by (simp add: LookupKey_def Let_def)

subsection \<open>The internal filter policy\<close>

context filter_policy
begin

lemma internal_filter_policy:
  "filter_policy (InternalFilterPolicy_CreateFilter create)
     (InternalFilterPolicy_KeyMayMatch may_match) (\<lambda>keys. ok (map ExtractUserKey keys))"
  by unfold_locales
    (simp_all add: InternalFilterPolicy_CreateFilter_def InternalFilterPolicy_KeyMayMatch_def
      may_match_create flip: create_append)

end

interpretation internal_bloom: filter_policy "InternalFilterPolicy_CreateFilter (CreateFilter this)"
    "InternalFilterPolicy_KeyMayMatch KeyMayMatch"
    "\<lambda>keys. bloom_ok this (length (map ExtractUserKey keys))" for this
  by (rule bloom.internal_filter_policy)

end
