(* ===== verification/Rng.thy ===== *)
theory Rng
  imports Prelude
begin

text \<open>
  The pseudo-random generator of \<open>util/random.h\<close>, which decides the heights of skip list nodes and the
  sampling of reads. The object is its seed.
\<close>

definition Random :: "u32 \<Rightarrow> u32" where
  "Random s =
     (let seed = s AND 0x7fffffff in
      if seed = 0 \<or> seed = 2147483647 then 1 else seed)"

definition Random_Next :: "u32 \<Rightarrow> u32" where
  "Random_Next seed =
     (let M = 2147483647 :: u32;
          A = 16807 :: u64;
          product = ucast seed * A;
          seed = (ucast (drop_bit 31 product + (product AND ucast M)) :: u32)
      in if seed > M then seed - M else seed)"

definition Random_Uniform :: "u32 \<Rightarrow> nat \<Rightarrow> u32 \<times> u32" where
  "Random_Uniform seed n = (let seed = Random_Next seed in (seed, seed mod of_nat n))"

definition Random_OneIn :: "u32 \<Rightarrow> nat \<Rightarrow> u32 \<times> bool" where
  "Random_OneIn seed n = (let seed = Random_Next seed in (seed, seed mod of_nat n = 0))"

definition Random_Skewed :: "u32 \<Rightarrow> nat \<Rightarrow> u32 \<times> u32" where
  "Random_Skewed seed max_log =
     (let (seed, b) = Random_Uniform seed (max_log + 1) in Random_Uniform seed (2 ^ unat b))"

subsection \<open>The reduction modulo \<open>2 ^ 31 - 1\<close>\<close>

lemma and_M_mod: "unat (p AND 0x7fffffff) = unat p mod 2 ^ 31" for p :: u64
proof -
  have "p AND 0x7fffffff = take_bit 31 p" by (simp add: take_bit_eq_mask mask_eq_exp_minus_1)
  then show ?thesis by (simp add: take_bit_eq_mod unat_mod)
qed

lemma fold_reduction:
  fixes p :: nat
  assumes "0 < p" "p mod 2147483647 \<noteq> 0" "p < 2147483647 * 16807"
  shows "(let s = p div 2147483648 + p mod 2147483648 in if s > 2147483647 then s - 2147483647 else s)
    = p mod 2147483647"
proof -
  define q r where "q = p div 2147483648" and "r = p mod 2147483648"
  have p: "p = 2147483648 * q + r" and r: "r < 2147483648" by (simp_all add: q_def r_def)
  have q: "q < 16807" using assms(3) by (simp add: q_def div_less_iff_less_mult)
  have m: "p mod 2147483647 = (q + r) mod 2147483647"
  proof -
    have "p = (q + r) + 2147483647 * q" using p by simp
    then show ?thesis by (metis mod_mult_self2)
  qed
  show ?thesis
  proof (cases "q + r > 2147483647")
    case True
    then have "(q + r) mod 2147483647 = (q + r - 2147483647) mod 2147483647"
      by (simp add: le_mod_geq)
    also have "\<dots> = q + r - 2147483647" using q r by simp
    finally show ?thesis using True m by (simp add: q_def r_def Let_def)
  next
    case False
    have "q + r \<noteq> 2147483647" using assms(2) m by auto
    with False have "(q + r) mod 2147483647 = q + r" by simp
    then show ?thesis using False m by (simp add: q_def r_def Let_def)
  qed
qed

lemma product_not_multiple:
  fixes s :: nat
  assumes "0 < s" "s < 2147483647"
  shows "s * 16807 mod 2147483647 \<noteq> 0"
proof
  assume "s * 16807 mod 2147483647 = 0"
  then have "2147483647 dvd s * 16807" by presburger
  moreover have "coprime (2147483647 :: nat) 16807" by (simp add: coprime_iff_gcd_eq_1 gcd_non_0_nat)
  ultimately have "2147483647 dvd s" by (simp add: coprime_dvd_mult_left_iff)
  with assms show False by (auto dest: dvd_imp_le)
qed

lemma Random_Next_nat:
  assumes "0 < unat seed" "unat seed < 2147483647"
  shows "unat (Random_Next seed) = unat seed * 16807 mod 2147483647"
proof -
  let ?p = "(ucast seed :: u64) * 16807"
  have less: "unat seed * 16807 < 2147483647 * 16807" using assms by simp
  have p: "unat ?p = unat seed * 16807"
    using less by (simp add: unat_word_ariths unat_ucast_le)
  let ?s = "drop_bit 31 ?p + (?p AND 0x7fffffff)"
  have "unat (drop_bit 31 ?p) = unat seed * 16807 div 2147483648"
    by (simp add: unat_drop_bit_div p)
  moreover have "unat (?p AND 0x7fffffff) = unat seed * 16807 mod 2147483648"
    using and_M_mod [of ?p] p by simp
  ultimately have s: "unat ?s = unat seed * 16807 div 2147483648 + unat seed * 16807 mod 2147483648"
    and small: "unat ?s < 2 ^ 32"
    using less by (simp_all add: unat_word_ariths div_less_iff_less_mult)
  then have u: "unat (ucast ?s :: u32) = unat ?s" by (simp add: unat_ucast_mod)
  have step: "Random_Next seed =
      (if ucast ?s > (0x7fffffff :: u32) then ucast ?s - 0x7fffffff else ucast ?s)"
    by (simp add: Random_Next_def Let_def)
  have "unat (Random_Next seed) = (let s = unat seed * 16807 div 2147483648 + unat seed * 16807 mod 2147483648
      in if s > 2147483647 then s - 2147483647 else s)"
    unfolding step Let_def s [symmetric] using u by (simp add: word_less_nat_alt unat_sub_if')
  also have "\<dots> = unat seed * 16807 mod 2147483647"
    using assms by (intro fold_reduction product_not_multiple less) simp_all
  finally show ?thesis .
qed

lemma Random_range: "unat (Random s) \<in> {1..2147483646}"
proof (cases "s AND 0x7fffffff = 0 \<or> s AND 0x7fffffff = 2147483647")
  case True
  then show ?thesis by (auto simp: Random_def Let_def)
next
  case False
  have "s AND 0x7fffffff = take_bit 31 s" by (simp add: take_bit_eq_mask mask_eq_exp_minus_1)
  then have "unat (s AND 0x7fffffff) < 2147483648" by (simp add: take_bit_eq_mod unat_mod)
  moreover have "unat (s AND 0x7fffffff) \<noteq> 0" "unat (s AND 0x7fffffff) \<noteq> unat (2147483647 :: u32)"
    using False by (simp_all only: word_unat_eq_iff [symmetric] unat_eq_0) auto
  ultimately have "unat (s AND 0x7fffffff) \<in> {1..2147483646}" by simp
  moreover have "Random s = s AND 0x7fffffff" using False by (simp add: Random_def Let_def)
  ultimately show ?thesis by simp
qed

text \<open>
  C23: The generator computes \<open>seed * 16807 mod (2^31 - 1)\<close>. From every seed between 1 and \<open>2^31 - 2\<close>
  the shift-and-add reduction gives exactly that residue, which is again between 1 and \<open>2^31 - 2\<close>; the
  constructor always starts in that range, so the generator never falls into the fixed points 0 and
  \<open>2^31 - 1\<close>.
\<close>

theorem Random_Next_residue:
  assumes "1 \<le> unat seed" "unat seed \<le> 2 ^ 31 - 2"
  shows "unat (Random_Next seed) = unat seed * 16807 mod (2 ^ 31 - 1) \<and>
    unat (Random_Next seed) \<in> {1..2 ^ 31 - 2} \<and> unat (Random s) \<in> {1..2 ^ 31 - 2}"
proof -
  have seed: "0 < unat seed" "unat seed < 2147483647" using assms by auto
  have "unat (Random_Next seed) \<in> {1..2147483646}"
    using Random_Next_nat [OF seed] product_not_multiple [OF seed]
      mod_less_divisor [of 2147483647 "unat seed * 16807"] by simp
  then show ?thesis using Random_Next_nat [OF seed] Random_range [of s] by simp
qed

theorem Random_Next_residue_witness:
  "unat (Random_Next 1) = 16807 \<and> unat (Random 0xdeadbeef) \<in> {1..2 ^ 31 - 2}"
  using Random_Next_residue [of 1 "0xdeadbeef"] by simp

end
