(* ===== verification/Skiplist.thy ===== *)
theory Skiplist
  imports Comparator Rng
begin

text \<open>
  The skip list of \<open>db/skiplist.h\<close> with its links. Nodes live in an arena and are never freed: the
  arena is the list \<open>nodes\<close>, a node is addressed by its position, and position 0 is the head. Every
  search loop is a \<open>partial_function\<close>, so that running into a cycle would show as \<open>None\<close>; that the
  loops return is part of what is proved. The memory-order annotations of the source concern
  concurrent readers and are not modelled.
\<close>

subsection \<open>Data\<close>

type_synonym addr = nat

definition kMaxHeight :: nat where "kMaxHeight = 12"

record 'k Node =
  node_key :: 'k
  node_next :: "addr option list"

record 'k SkipList =
  nodes :: "'k Node list"
  max_height :: nat
  rnd :: u32

abbreviation (input) head :: addr where "head \<equiv> 0"

definition Node_Next :: "'k SkipList \<Rightarrow> addr \<Rightarrow> nat \<Rightarrow> addr option" where
  "Node_Next l x n = node_next (nodes l ! x) ! n"

definition Node_SetNext :: "'k SkipList \<Rightarrow> addr \<Rightarrow> nat \<Rightarrow> addr option \<Rightarrow> 'k SkipList" where
  "Node_SetNext l x n y =
     l\<lparr>nodes := (nodes l)[x := (nodes l ! x)\<lparr>node_next := (node_next (nodes l ! x))[n := y]\<rparr>]\<rparr>"

text \<open>A fresh node's links are not initialised by the source; \<open>Insert\<close> sets each before it is read.\<close>

definition NewNode :: "'k SkipList \<Rightarrow> 'k \<Rightarrow> nat \<Rightarrow> 'k SkipList \<times> addr" where
  "NewNode l k height =
     (l\<lparr>nodes := nodes l @ [\<lparr>node_key = k, node_next = replicate height None\<rparr>]\<rparr>, length (nodes l))"

subsection \<open>Construction and searching\<close>

definition SkipList_new :: "'k \<Rightarrow> 'k SkipList" where
  "SkipList_new any_key =
     \<lparr>nodes = [\<lparr>node_key = any_key, node_next = replicate kMaxHeight None\<rparr>],
      max_height = 1, rnd = Random 0xdeadbeef\<rparr>"

function RandomHeight_loop :: "nat \<Rightarrow> u32 \<Rightarrow> nat \<times> u32" where
  "RandomHeight_loop height seed =
     (if height < kMaxHeight then
        let (seed, b) = Random_OneIn seed 4
        in if b then RandomHeight_loop (height + 1) seed else (height, seed)
      else (height, seed))"
  by pat_completeness auto
termination
  by (relation "measure (\<lambda>(h, s). kMaxHeight - h)") auto

declare RandomHeight_loop.simps [simp del]

definition RandomHeight :: "'k SkipList \<Rightarrow> 'k SkipList \<times> nat" where
  "RandomHeight l = (let (height, seed) = RandomHeight_loop 1 (rnd l) in (l\<lparr>rnd := seed\<rparr>, height))"

definition KeyIsAfterNode :: "('k \<Rightarrow> 'k \<Rightarrow> int) \<Rightarrow> 'k SkipList \<Rightarrow> 'k \<Rightarrow> addr option \<Rightarrow> bool" where
  "KeyIsAfterNode cmp l k n =
     (case n of None \<Rightarrow> False | Some a \<Rightarrow> cmp (node_key (nodes l ! a)) k < 0)"

text \<open>\<open>prev\<close> is the array of the caller, the empty list where the caller passes \<open>nullptr\<close>.\<close>

partial_function (option) FindGreaterOrEqual_loop ::
  "('k \<Rightarrow> 'k \<Rightarrow> int) \<Rightarrow> 'k SkipList \<Rightarrow> 'k \<Rightarrow> addr \<Rightarrow> nat \<Rightarrow> addr list \<Rightarrow> (addr option \<times> addr list) option"
where
  "FindGreaterOrEqual_loop cmp l k x level prev =
     (let next = Node_Next l x level in
      if KeyIsAfterNode cmp l k next then FindGreaterOrEqual_loop cmp l k (the next) level prev
      else
        let prev = prev[level := x] in
        if level = 0 then Some (next, prev)
        else FindGreaterOrEqual_loop cmp l k x (level - 1) prev)"

definition FindGreaterOrEqual ::
  "('k \<Rightarrow> 'k \<Rightarrow> int) \<Rightarrow> 'k SkipList \<Rightarrow> 'k \<Rightarrow> addr list \<Rightarrow> (addr option \<times> addr list) option" where
  "FindGreaterOrEqual cmp l k prev = FindGreaterOrEqual_loop cmp l k head (max_height l - 1) prev"

partial_function (option) FindLessThan_loop ::
  "('k \<Rightarrow> 'k \<Rightarrow> int) \<Rightarrow> 'k SkipList \<Rightarrow> 'k \<Rightarrow> addr \<Rightarrow> nat \<Rightarrow> addr option" where
  "FindLessThan_loop cmp l k x level =
     (case Node_Next l x level of
        None \<Rightarrow> if level = 0 then Some x else FindLessThan_loop cmp l k x (level - 1)
      | Some next \<Rightarrow>
          if cmp (node_key (nodes l ! next)) k \<ge> 0
          then if level = 0 then Some x else FindLessThan_loop cmp l k x (level - 1)
          else FindLessThan_loop cmp l k next level)"

definition FindLessThan :: "('k \<Rightarrow> 'k \<Rightarrow> int) \<Rightarrow> 'k SkipList \<Rightarrow> 'k \<Rightarrow> addr option" where
  "FindLessThan cmp l k = FindLessThan_loop cmp l k head (max_height l - 1)"

partial_function (option) FindLast_loop :: "'k SkipList \<Rightarrow> addr \<Rightarrow> nat \<Rightarrow> addr option" where
  "FindLast_loop l x level =
     (case Node_Next l x level of
        None \<Rightarrow> if level = 0 then Some x else FindLast_loop l x (level - 1)
      | Some next \<Rightarrow> FindLast_loop l next level)"

definition FindLast :: "'k SkipList \<Rightarrow> addr option" where
  "FindLast l = FindLast_loop l head (max_height l - 1)"

subsection \<open>Insertion and membership\<close>

text \<open>The linking loop, from level \<open>i\<close> up to \<open>height\<close>.\<close>

function Insert_links :: "nat \<Rightarrow> nat \<Rightarrow> addr \<Rightarrow> addr list \<Rightarrow> 'k SkipList \<Rightarrow> 'k SkipList" where
  "Insert_links i height x prev l =
     (if i < height then
        let l = Node_SetNext l x i (Node_Next l (prev ! i) i);
            l = Node_SetNext l (prev ! i) i (Some x)
        in Insert_links (i + 1) height x prev l
      else l)"
  by pat_completeness auto
termination
  by (relation "measure (\<lambda>(i, h, _). h - i)") auto

declare Insert_links.simps [simp del]

definition raise_prev :: "nat \<Rightarrow> nat \<Rightarrow> addr list \<Rightarrow> addr list" where
  "raise_prev from height prev = take from prev @ replicate (height - from) head @ drop height prev"

text \<open>
  The code leaves \<open>prev\<close> uninitialised. \<open>FindGreaterOrEqual\<close> writes the entries below the old height and the
  loop those above it, so no initial entry is read, and what the model starts with does not matter.
\<close>

definition Insert :: "('k \<Rightarrow> 'k \<Rightarrow> int) \<Rightarrow> 'k SkipList \<Rightarrow> 'k \<Rightarrow> 'k SkipList option" where
  "Insert cmp l k =
     (case FindGreaterOrEqual cmp l k (replicate kMaxHeight head) of
        None \<Rightarrow> None
      | Some (_, prev) \<Rightarrow>
          let (l, height) = RandomHeight l;
              (l, prev) = (if height > max_height l
                           then (l\<lparr>max_height := height\<rparr>, raise_prev (max_height l) height prev)
                           else (l, prev));
              (l, x) = NewNode l k height
          in Some (Insert_links 0 height x prev l))"

definition Contains :: "('k \<Rightarrow> 'k \<Rightarrow> int) \<Rightarrow> 'k SkipList \<Rightarrow> 'k \<Rightarrow> bool option" where
  "Contains cmp l k =
     (case FindGreaterOrEqual cmp l k [] of
        None \<Rightarrow> None
      | Some (x, _) \<Rightarrow>
          Some (case x of None \<Rightarrow> False | Some a \<Rightarrow> cmp k (node_key (nodes l ! a)) = 0))"

subsection \<open>Iterators\<close>

text \<open>An iterator is the node it stands at, \<open>None\<close> for \<open>nullptr\<close>.\<close>

type_synonym iter = "addr option"

definition Iterator_Valid :: "iter \<Rightarrow> bool" where
  "Iterator_Valid it \<longleftrightarrow> it \<noteq> None"

definition Iterator_key :: "'k SkipList \<Rightarrow> iter \<Rightarrow> 'k" where
  "Iterator_key l it = node_key (nodes l ! the it)"

definition Iterator_Next :: "'k SkipList \<Rightarrow> iter \<Rightarrow> iter" where
  "Iterator_Next l it = Node_Next l (the it) 0"

definition Iterator_Prev :: "('k \<Rightarrow> 'k \<Rightarrow> int) \<Rightarrow> 'k SkipList \<Rightarrow> iter \<Rightarrow> iter option" where
  "Iterator_Prev cmp l it =
     (case FindLessThan cmp l (node_key (nodes l ! the it)) of
        None \<Rightarrow> None
      | Some node \<Rightarrow> Some (if node = head then None else Some node))"

definition Iterator_Seek :: "('k \<Rightarrow> 'k \<Rightarrow> int) \<Rightarrow> 'k SkipList \<Rightarrow> 'k \<Rightarrow> iter option" where
  "Iterator_Seek cmp l target = map_option fst (FindGreaterOrEqual cmp l target [])"

definition Iterator_SeekToFirst :: "'k SkipList \<Rightarrow> iter" where
  "Iterator_SeekToFirst l = Node_Next l head 0"

definition Iterator_SeekToLast :: "'k SkipList \<Rightarrow> iter option" where
  "Iterator_SeekToLast l =
     (case FindLast l of
        None \<Rightarrow> None
      | Some node \<Rightarrow> Some (if node = head then None else Some node))"

subsection \<open>Chains\<close>

text \<open>
  \<open>chain l i x as\<close>: following the links of level \<open>i\<close> from \<open>x\<close> visits the nodes \<open>as\<close> and ends.
\<close>

fun chain :: "'k SkipList \<Rightarrow> nat \<Rightarrow> addr \<Rightarrow> addr list \<Rightarrow> bool" where
  "chain l i x [] \<longleftrightarrow> Node_Next l x i = None"
| "chain l i x (a # as) \<longleftrightarrow> Node_Next l x i = Some a \<and> chain l i a as"

definition height :: "'k SkipList \<Rightarrow> addr \<Rightarrow> nat" where
  "height l a = length (node_next (nodes l ! a))"

abbreviation key_at :: "'k SkipList \<Rightarrow> addr \<Rightarrow> 'k" where
  "key_at l a \<equiv> node_key (nodes l ! a)"

definition level_nodes :: "'k SkipList \<Rightarrow> nat \<Rightarrow> addr list \<Rightarrow> addr list" where
  "level_nodes l i as = filter (\<lambda>a. i < height l a) as"

text \<open>
  The invariant of a skip list that holds the nodes \<open>as\<close>, in order: keys increase strictly, heights are
  between 1 and \<open>max_height\<close>, and each of the twelve chains from the head visits exactly the nodes that
  are tall enough.
\<close>

definition skiplist_inv :: "('k \<Rightarrow> 'k \<Rightarrow> int) \<Rightarrow> ('k \<Rightarrow> bool) \<Rightarrow> 'k SkipList \<Rightarrow> addr list \<Rightarrow> bool" where
  "skiplist_inv cmp ok l as \<longleftrightarrow>
     sorted_wrt (\<lambda>a b. cmp (key_at l a) (key_at l b) < 0) as \<and>
     distinct (head # as) \<and> set (head # as) = {..<length (nodes l)} \<and>
     (\<forall>a \<in> set as. ok (key_at l a) \<and> 1 \<le> height l a \<and> height l a \<le> max_height l) \<and>
     height l head = kMaxHeight \<and> 1 \<le> max_height l \<and> max_height l \<le> kMaxHeight \<and>
     (\<forall>i < kMaxHeight. chain l i head (level_nodes l i as))"

lemma chain_suffix:
  "chain l i h as \<Longrightarrow> h # as = xs @ x # ys \<Longrightarrow> chain l i x ys"
proof (induction xs arbitrary: h as)
  case (Cons z xs)
  then show ?case by (cases as) auto
qed simp

lemma chain_next: "chain l i x ys \<Longrightarrow> Node_Next l x i = (case ys of [] \<Rightarrow> None | y # _ \<Rightarrow> Some y)"
  by (cases ys) auto

lemma chain_cong:
  "chain l i h as \<Longrightarrow> Node_Next l' h' i = Node_Next l h i \<Longrightarrow>
   (\<And>a. a \<in> set as \<Longrightarrow> Node_Next l' a i = Node_Next l a i) \<Longrightarrow> chain l' i h' as"
proof (induction as arbitrary: h h')
  case (Cons a as)
  then show ?case by simp (metis list.set_intros(2))
qed simp

lemma chain_insert:
  assumes "chain l i h (ps @ ds)" "distinct (h # ps @ ds)" "x \<notin> set (h # ps @ ds)"
    and "Node_Next l' x i = Node_Next l (last (h # ps)) i" "Node_Next l' (last (h # ps)) i = Some x"
    and "\<And>a. a \<in> set (h # ps @ ds) \<Longrightarrow> a \<noteq> last (h # ps) \<Longrightarrow> Node_Next l' a i = Node_Next l a i"
  shows "chain l' i h (ps @ x # ds)"
  using assms
proof (induction ps arbitrary: h)
  case Nil
  have "chain l' i x ds"
    by (rule chain_cong [of l i h]) (use Nil in auto)
  with Nil show ?case by simp
next
  case (Cons p ps)
  have "last (p # ps) \<in> set (p # ps)" by (rule last_in_set) simp
  then have "h \<noteq> last (p # ps)" using Cons.prems(2) by auto
  with Cons.prems have "Node_Next l' h i = Some p" by auto
  moreover have "chain l' i p (ps @ x # ds)"
    using Cons.prems by (intro Cons.IH) auto
  ultimately show ?case by simp
qed

subsection \<open>Searching\<close>

definition first_of :: "addr list \<Rightarrow> addr option" where
  "first_of as = (case as of [] \<Rightarrow> None | a # _ \<Rightarrow> Some a)"

definition lower :: "('k \<Rightarrow> 'k \<Rightarrow> int) \<Rightarrow> 'k SkipList \<Rightarrow> 'k \<Rightarrow> addr list \<Rightarrow> addr list" where
  "lower cmp l k as = takeWhile (\<lambda>a. cmp (key_at l a) k < 0) as"

definition upper :: "('k \<Rightarrow> 'k \<Rightarrow> int) \<Rightarrow> 'k SkipList \<Rightarrow> 'k \<Rightarrow> addr list \<Rightarrow> addr list" where
  "upper cmp l k as = dropWhile (\<lambda>a. cmp (key_at l a) k < 0) as"

lemma lower_upper: "lower cmp l k as @ upper cmp l k as = as"
  by (simp add: lower_def upper_def)

lemma level_nodes_append [simp]: "level_nodes l i (as @ bs) = level_nodes l i as @ level_nodes l i bs"
  by (simp add: level_nodes_def)

lemma level_nodes_Nil [simp]: "level_nodes l i [] = []"
  by (simp add: level_nodes_def)

lemma set_level_nodes: "set (level_nodes l i as) = {a \<in> set as. i < height l a}"
  by (simp add: level_nodes_def)

lemma lower_less: "a \<in> set (lower cmp l k as) \<Longrightarrow> cmp (key_at l a) k < 0"
  by (auto simp: lower_def dest: set_takeWhileD)

text \<open>The last node of level \<open>j\<close> before the key, the head if there is none.\<close>

definition last_below :: "('k \<Rightarrow> 'k \<Rightarrow> int) \<Rightarrow> 'k SkipList \<Rightarrow> 'k \<Rightarrow> addr list \<Rightarrow> nat \<Rightarrow> addr" where
  "last_below cmp l k as j = last (head # level_nodes l j (lower cmp l k as))"

definition filled_prev ::
  "('k \<Rightarrow> 'k \<Rightarrow> int) \<Rightarrow> 'k SkipList \<Rightarrow> 'k \<Rightarrow> addr list \<Rightarrow> nat \<Rightarrow> addr list \<Rightarrow> addr list" where
  "filled_prev cmp l k as level prev =
     map (\<lambda>j. if j \<le> level then last_below cmp l k as j else prev ! j) [0..<length prev]"

lemma filled_prev_step:
  "0 < level \<Longrightarrow> filled_prev cmp l k as (level - 1) (prev[level := last_below cmp l k as level])
     = filled_prev cmp l k as level prev"
  by (rule nth_equalityI) (auto simp: filled_prev_def nth_list_update)

lemma filled_prev_zero:
  "prev[0 := last_below cmp l k as 0] = filled_prev cmp l k as 0 prev"
  by (rule nth_equalityI) (auto simp: filled_prev_def nth_list_update)

lemma skiplist_invD:
  assumes "skiplist_inv cmp ok l as"
  shows inv_sorted: "sorted_wrt (\<lambda>a b. cmp (key_at l a) (key_at l b) < 0) as"
    and inv_distinct: "distinct (head # as)"
    and inv_nodes: "set (head # as) = {..<length (nodes l)}"
    and inv_ok: "a \<in> set as \<Longrightarrow> ok (key_at l a)"
    and inv_height: "a \<in> set as \<Longrightarrow> 1 \<le> height l a" "a \<in> set as \<Longrightarrow> height l a \<le> max_height l"
    and inv_head: "height l head = kMaxHeight"
    and inv_max: "1 \<le> max_height l" "max_height l \<le> kMaxHeight"
    and inv_chain: "i < kMaxHeight \<Longrightarrow> chain l i head (level_nodes l i as)"
  using assms unfolding skiplist_inv_def by blast+

lemma lower_upper_subset:
  "a \<in> set (lower cmp l k as) \<Longrightarrow> a \<in> set as" "a \<in> set (upper cmp l k as) \<Longrightarrow> a \<in> set as"
  by (auto simp: lower_def upper_def dest: set_takeWhileD set_dropWhileD)

context weak_order
begin

lemma upper_not_less:
  assumes inv: "skiplist_inv cmp ok l as" and k: "ok k" and a: "a \<in> set (upper cmp l k as)"
  shows "\<not> cmp (key_at l a) k < 0"
proof -
  obtain d ds where u: "upper cmp l k as = d # ds" using a by (cases "upper cmp l k as") auto
  then have d: "\<not> cmp (key_at l d) k < 0"
    by (auto simp: upper_def dropWhile_eq_Cons_conv)
  have "sorted_wrt (\<lambda>a b. cmp (key_at l a) (key_at l b) < 0) (lower cmp l k as @ upper cmp l k as)"
    unfolding lower_upper by (rule inv_sorted [OF inv])
  then have sorted: "\<forall>b \<in> set ds. cmp (key_at l d) (key_at l b) < 0"
    by (simp add: u sorted_wrt_append)
  have oks: "ok (key_at l d)" "ok (key_at l a)"
    using a lower_upper_subset(2) [of _ cmp l k as] by (simp_all add: inv_ok [OF inv] u)
  show ?thesis
  proof (cases "a = d")
    case False
    with a u sorted have "cmp (key_at l d) (key_at l a) < 0" by auto
    with d oks k show ?thesis by (meson cmp_less_trans)
  qed (use d in simp)
qed

lemma upper_level_zero:
  assumes "skiplist_inv cmp ok l as"
  shows "level_nodes l 0 (upper cmp l k as) = upper cmp l k as"
  unfolding level_nodes_def
proof (rule filter_True, rule ballI)
  fix a assume "a \<in> set (upper cmp l k as)"
  from inv_height(1) [OF assms lower_upper_subset(2) [OF this]] show "0 < height l a" by simp
qed

lemma next_after:
  assumes inv: "skiplist_inv cmp ok l as" and level: "level < kMaxHeight"
    and split: "head # level_nodes l level (lower cmp l k as) = xs @ x # ys"
  shows "Node_Next l x level = first_of (ys @ level_nodes l level (upper cmp l k as))"
proof -
  have "chain l level head (level_nodes l level (lower cmp l k as @ upper cmp l k as))"
    unfolding lower_upper by (rule inv_chain [OF inv level])
  moreover have "head # level_nodes l level (lower cmp l k as @ upper cmp l k as)
      = xs @ x # (ys @ level_nodes l level (upper cmp l k as))"
    using arg_cong [OF split, of "\<lambda>zs. zs @ level_nodes l level (upper cmp l k as)"] by simp
  ultimately have "chain l level x (ys @ level_nodes l level (upper cmp l k as))"
    by (rule chain_suffix)
  then show ?thesis by (simp add: chain_next first_of_def)
qed

lemma level_split_down:
  assumes "head # level_nodes l level as = xs @ x # ys"
  shows "\<exists>xs' ys'. head # level_nodes l (level - 1) as = xs' @ x # ys'"
proof -
  have "x \<in> set (head # level_nodes l level as)" using assms by simp
  then have "x \<in> set (head # level_nodes l (level - 1) as)" by (auto simp: set_level_nodes)
  then show ?thesis by (metis split_list)
qed

text \<open>One step to the right: the search advances along the nodes before the key.\<close>

lemma FindGreaterOrEqual_loop_right:
  assumes inv: "skiplist_inv cmp ok l as" and level: "level < kMaxHeight"
  shows "head # level_nodes l level (lower cmp l k as) = xs @ x # ys \<Longrightarrow>
    FindGreaterOrEqual_loop cmp l k x level prev
      = FindGreaterOrEqual_loop cmp l k (last_below cmp l k as level) level prev"
proof (induction ys arbitrary: xs x)
  case Nil
  then show ?case by (simp add: last_below_def)
next
  case (Cons y ys)
  have nxt: "Node_Next l x level = Some y"
    using next_after [OF inv level Cons.prems] by (simp add: first_of_def)
  have "y \<in> set (level_nodes l level (lower cmp l k as))"
    using Cons.prems by (cases xs) auto
  then have "cmp (key_at l y) k < 0" by (auto simp: set_level_nodes dest: lower_less)
  then have "FindGreaterOrEqual_loop cmp l k x level prev = FindGreaterOrEqual_loop cmp l k y level prev"
    by (subst FindGreaterOrEqual_loop.simps) (simp add: nxt KeyIsAfterNode_def)
  also have "\<dots> = FindGreaterOrEqual_loop cmp l k (last_below cmp l k as level) level prev"
    using Cons.prems by (intro Cons.IH [of "xs @ [x]"]) simp
  finally show ?case .
qed

lemma last_below_split:
  "\<exists>xs. head # level_nodes l level (lower cmp l k as) = xs @ last_below cmp l k as level # []"
  unfolding last_below_def by (metis append_butlast_last_id list.distinct(1))

lemma last_below_next:
  assumes "skiplist_inv cmp ok l as" "level < kMaxHeight"
  shows "Node_Next l (last_below cmp l k as level) level = first_of (level_nodes l level (upper cmp l k as))"
proof -
  obtain xs where "head # level_nodes l level (lower cmp l k as) = xs @ last_below cmp l k as level # []"
    using last_below_split [of l level k as] by blast
  from next_after [OF assms this] show ?thesis by simp
qed

lemma upper_not_after:
  assumes "skiplist_inv cmp ok l as" "ok k"
  shows "\<not> KeyIsAfterNode cmp l k (first_of (level_nodes l level (upper cmp l k as)))"
proof (cases "level_nodes l level (upper cmp l k as)")
  case (Cons a bs)
  then have "a \<in> set (level_nodes l level (upper cmp l k as))" by simp
  then have "a \<in> set (upper cmp l k as)" by (simp add: set_level_nodes)
  from upper_not_less [OF assms this] show ?thesis by (simp add: Cons first_of_def KeyIsAfterNode_def)
qed (simp add: first_of_def KeyIsAfterNode_def)

lemma FindGreaterOrEqual_loop_correct:
  assumes inv: "skiplist_inv cmp ok l as" and k: "ok k"
  shows "level < kMaxHeight \<Longrightarrow> head # level_nodes l level (lower cmp l k as) = xs @ x # ys \<Longrightarrow>
    FindGreaterOrEqual_loop cmp l k x level prev
      = Some (first_of (upper cmp l k as), filled_prev cmp l k as level prev)"
proof (induction level arbitrary: xs x ys prev)
  case (0 xs x ys prev)
  let ?x = "last_below cmp l k as 0"
  have nxt: "Node_Next l ?x 0 = first_of (upper cmp l k as)"
    using last_below_next [OF inv 0(1), of k] by (simp add: upper_level_zero [OF inv])
  have "\<not> KeyIsAfterNode cmp l k (first_of (upper cmp l k as))"
    using upper_not_after [OF inv k, of 0] by (simp add: upper_level_zero [OF inv])
  then show ?case
    unfolding FindGreaterOrEqual_loop_right [OF inv 0]
    by (subst FindGreaterOrEqual_loop.simps) (simp add: nxt filled_prev_zero)
next
  case (Suc level xs x ys prev)
  let ?x = "last_below cmp l k as (Suc level)"
  have nxt: "Node_Next l ?x (Suc level) = first_of (level_nodes l (Suc level) (upper cmp l k as))"
    using last_below_next [OF inv Suc.prems(1), of k] .
  have "\<not> KeyIsAfterNode cmp l k (first_of (level_nodes l (Suc level) (upper cmp l k as)))"
    by (rule upper_not_after [OF inv k])
  then have "FindGreaterOrEqual_loop cmp l k ?x (Suc level) prev
      = FindGreaterOrEqual_loop cmp l k ?x level (prev[Suc level := ?x])"
    by (subst FindGreaterOrEqual_loop.simps) (simp add: nxt)
  moreover obtain xs' ys' where "head # level_nodes l level (lower cmp l k as) = xs' @ ?x # ys'"
    using last_below_split level_split_down [of l "Suc level"] by (metis diff_Suc_1)
  ultimately show ?case
    unfolding FindGreaterOrEqual_loop_right [OF inv Suc.prems]
    using Suc.IH Suc.prems(1) filled_prev_step [of "Suc level" cmp l k as prev] by simp
qed

lemma FindGreaterOrEqual_correct:
  assumes inv: "skiplist_inv cmp ok l as" and k: "ok k"
  shows "FindGreaterOrEqual cmp l k prev =
    Some (first_of (upper cmp l k as), filled_prev cmp l k as (max_height l - 1) prev)"
proof -
  have "max_height l - 1 < kMaxHeight" using inv_max [OF inv] by simp
  then show ?thesis
    unfolding FindGreaterOrEqual_def
    by (rule FindGreaterOrEqual_loop_correct [OF inv k, where xs = "[]"]) simp
qed

lemma FindLessThan_loop_right:
  assumes inv: "skiplist_inv cmp ok l as" and level: "level < kMaxHeight"
  shows "head # level_nodes l level (lower cmp l k as) = xs @ x # ys \<Longrightarrow>
    FindLessThan_loop cmp l k x level = FindLessThan_loop cmp l k (last_below cmp l k as level) level"
proof (induction ys arbitrary: xs x)
  case Nil
  then show ?case by (simp add: last_below_def)
next
  case (Cons y ys)
  have nxt: "Node_Next l x level = Some y"
    using next_after [OF inv level Cons.prems] by (simp add: first_of_def)
  have "y \<in> set (level_nodes l level (lower cmp l k as))"
    using Cons.prems by (cases xs) auto
  then have "cmp (key_at l y) k < 0" by (auto simp: set_level_nodes dest: lower_less)
  then have "FindLessThan_loop cmp l k x level = FindLessThan_loop cmp l k y level"
    by (subst FindLessThan_loop.simps) (simp add: nxt)
  also have "\<dots> = FindLessThan_loop cmp l k (last_below cmp l k as level) level"
    using Cons.prems by (intro Cons.IH [of "xs @ [x]"]) simp
  finally show ?case .
qed

lemma FindLessThan_loop_down:
  assumes inv: "skiplist_inv cmp ok l as" and k: "ok k" and level: "level < kMaxHeight"
  shows "FindLessThan_loop cmp l k (last_below cmp l k as level) level =
    (if level = 0 then Some (last_below cmp l k as level)
     else FindLessThan_loop cmp l k (last_below cmp l k as level) (level - 1))"
  using last_below_next [OF inv level, of k] upper_not_after [OF inv k, of level]
  by (subst FindLessThan_loop.simps) (auto simp: KeyIsAfterNode_def split: option.splits)

lemma FindLessThan_loop_correct:
  assumes inv: "skiplist_inv cmp ok l as" and k: "ok k"
  shows "level < kMaxHeight \<Longrightarrow> head # level_nodes l level (lower cmp l k as) = xs @ x # ys \<Longrightarrow>
    FindLessThan_loop cmp l k x level = Some (last_below cmp l k as 0)"
proof (induction level arbitrary: xs x ys)
  case (0 xs x ys)
  show ?case
    using FindLessThan_loop_right [OF inv 0] FindLessThan_loop_down [OF inv k 0(1)] by simp
next
  case (Suc level xs x ys)
  obtain xs' ys' where "head # level_nodes l level (lower cmp l k as) = xs' @ last_below cmp l k as (Suc level) # ys'"
    using last_below_split level_split_down [of l "Suc level"] by (metis diff_Suc_1)
  with Suc.IH Suc.prems(1) show ?case
    using FindLessThan_loop_right [OF inv Suc.prems] FindLessThan_loop_down [OF inv k Suc.prems(1)] by simp
qed

lemma FindLessThan_correct:
  assumes inv: "skiplist_inv cmp ok l as" and k: "ok k"
  shows "FindLessThan cmp l k = Some (last (head # lower cmp l k as))"
proof -
  have "max_height l - 1 < kMaxHeight" using inv_max [OF inv] by simp
  then have "FindLessThan cmp l k = Some (last_below cmp l k as 0)"
    unfolding FindLessThan_def
    by (rule FindLessThan_loop_correct [OF inv k, where xs = "[]"]) simp
  moreover have "level_nodes l 0 (lower cmp l k as) = lower cmp l k as"
    unfolding level_nodes_def
  proof (rule filter_True, rule ballI)
    fix a assume "a \<in> set (lower cmp l k as)"
    from inv_height(1) [OF inv lower_upper_subset(1) [OF this]] show "0 < height l a" by simp
  qed
  ultimately show ?thesis by (simp add: last_below_def)
qed

lemma FindLast_loop_correct:
  assumes inv: "skiplist_inv cmp ok l as"
  shows "level < kMaxHeight \<Longrightarrow> head # level_nodes l level as = xs @ x # ys \<Longrightarrow>
    FindLast_loop l x level = Some (last (head # as))"
proof (induction level arbitrary: xs x ys)
  case (0 xs x ys)
  have all: "level_nodes l 0 as = as"
    using inv_height(1) [OF inv] by (auto simp: level_nodes_def filter_id_conv Suc_le_eq)
  from 0(2) show ?case
  proof (induction ys arbitrary: xs x)
    case Nil
    have "Node_Next l x 0 = None"
      using chain_suffix [OF inv_chain [OF inv 0(1)] Nil] by simp
    moreover have "x = last (head # as)" using Nil all by (metis last_snoc)
    ultimately show ?case by (subst FindLast_loop.simps) simp
  next
    case (Cons y ys)
    have "Node_Next l x 0 = Some y"
      using chain_suffix [OF inv_chain [OF inv 0(1)] Cons.prems] by simp
    moreover have "FindLast_loop l y 0 = Some (last (head # as))"
      using Cons.prems by (intro Cons.IH [of "xs @ [x]"]) simp
    ultimately show ?case by (subst FindLast_loop.simps) simp
  qed
next
  case (Suc level xs x ys)
  from Suc.prems(2) show ?case
  proof (induction ys arbitrary: xs x)
    case Nil
    have "Node_Next l x (Suc level) = None"
      using chain_suffix [OF inv_chain [OF inv Suc.prems(1)] Nil] by simp
    moreover obtain xs' ys' where "head # level_nodes l level as = xs' @ x # ys'"
      using level_split_down [OF Nil] by auto
    then have "FindLast_loop l x level = Some (last (head # as))"
      using Suc.IH Suc.prems(1) by simp
    ultimately show ?case by (subst FindLast_loop.simps) simp
  next
    case (Cons y ys)
    have "Node_Next l x (Suc level) = Some y"
      using chain_suffix [OF inv_chain [OF inv Suc.prems(1)] Cons.prems] by simp
    moreover have "FindLast_loop l y (Suc level) = Some (last (head # as))"
      using Cons.prems by (intro Cons.IH [of "xs @ [x]"]) simp
    ultimately show ?case by (subst FindLast_loop.simps) simp
  qed
qed

lemma FindLast_correct:
  assumes inv: "skiplist_inv cmp ok l as"
  shows "FindLast l = Some (last (head # as))"
proof -
  have "max_height l - 1 < kMaxHeight" using inv_max [OF inv] by simp
  then show ?thesis
    unfolding FindLast_def by (rule FindLast_loop_correct [OF inv, where xs = "[]"]) simp
qed

end

subsection \<open>Linking a node in\<close>

lemma Node_SetNext_frame [simp]:
  "length (nodes (Node_SetNext l x n y)) = length (nodes l)"
  "max_height (Node_SetNext l x n y) = max_height l"
  "key_at (Node_SetNext l x n y) a = key_at l a"
  "height (Node_SetNext l x n y) a = height l a"
proof -
  show "length (nodes (Node_SetNext l x n y)) = length (nodes l)"
    "max_height (Node_SetNext l x n y) = max_height l" by (simp_all add: Node_SetNext_def)
  show "key_at (Node_SetNext l x n y) a = key_at l a"
    by (cases "x < length (nodes l)") (simp_all add: Node_SetNext_def nth_list_update list_update_beyond)
  show "height (Node_SetNext l x n y) a = height l a"
    by (cases "x < length (nodes l)") (simp_all add: Node_SetNext_def height_def nth_list_update list_update_beyond)
qed

lemma Node_Next_SetNext:
  "x < length (nodes l) \<Longrightarrow> n < height l x \<Longrightarrow>
   Node_Next (Node_SetNext l x n y) a i = (if a = x \<and> i = n then y else Node_Next l a i)"
  by (auto simp: Node_Next_def Node_SetNext_def height_def nth_list_update)

lemma Insert_links_frame [simp]:
  "length (nodes (Insert_links j h x prev l)) = length (nodes l)"
  "max_height (Insert_links j h x prev l) = max_height l"
  "key_at (Insert_links j h x prev l) a = key_at l a"
  "height (Insert_links j h x prev l) a = height l a"
proof (induction j h x prev l rule: Insert_links.induct)
  case (1 j h x prev l)
  case 1 show ?case using "1.IH"(1) by (subst Insert_links.simps) (simp add: Let_def)
  case 2 show ?case using "1.IH"(2) by (subst Insert_links.simps) (simp add: Let_def)
  case 3 show ?case using "1.IH"(3) by (subst Insert_links.simps) (simp add: Let_def)
  case 4 show ?case using "1.IH"(4) by (subst Insert_links.simps) (simp add: Let_def)
qed

definition can_link :: "'k SkipList \<Rightarrow> nat \<Rightarrow> addr \<Rightarrow> addr list \<Rightarrow> bool" where
  "can_link l h x prev \<longleftrightarrow> x < length (nodes l) \<and> h \<le> height l x \<and>
     (\<forall>i < h. prev ! i < length (nodes l) \<and> i < height l (prev ! i) \<and> prev ! i \<noteq> x)"

lemma can_link_SetNext [simp]: "can_link (Node_SetNext l y n z) h x prev = can_link l h x prev"
  by (simp add: can_link_def)

lemma Node_Next_Insert_links:
  "can_link l h x prev \<Longrightarrow>
   Node_Next (Insert_links j h x prev l) a i =
     (if j \<le> i \<and> i < h \<and> a = x then Node_Next l (prev ! i) i
      else if j \<le> i \<and> i < h \<and> a = prev ! i then Some x
      else Node_Next l a i)"
proof (induction j h x prev l rule: Insert_links.induct)
  case (1 j h x prev l)
  show ?case
  proof (cases "j < h")
    case True
    let ?l1 = "Node_SetNext l x j (Node_Next l (prev ! j) j)"
    let ?l2 = "Node_SetNext ?l1 (prev ! j) j (Some x)"
    have ok: "x < length (nodes l)" "j < height l x" "prev ! j < length (nodes l)" "j < height l (prev ! j)"
      "prev ! j \<noteq> x" "\<And>i. i < h \<Longrightarrow> prev ! i \<noteq> x"
      using "1.prems" True by (auto simp: can_link_def)
    have step: "Node_Next ?l2 b m = (if b = x \<and> m = j then Node_Next l (prev ! j) j
        else if b = prev ! j \<and> m = j then Some x else Node_Next l b m)" for b m
      using ok by (simp add: Node_Next_SetNext)
    have "Node_Next (Insert_links j h x prev l) a i = Node_Next (Insert_links (j + 1) h x prev ?l2) a i"
      using True by (subst Insert_links.simps) (simp add: Let_def)
    also have "\<dots> = (if j + 1 \<le> i \<and> i < h \<and> a = x then Node_Next ?l2 (prev ! i) i
      else if j + 1 \<le> i \<and> i < h \<and> a = prev ! i then Some x
      else Node_Next ?l2 a i)"
      using "1.prems" True by (intro "1.IH") auto
    finally show ?thesis
      using True ok(5,6) unfolding step by (cases "i = j") auto
  next
    case False
    then show ?thesis by (subst Insert_links.simps) auto
  qed
qed

lemma NewNode_frame:
  "a < length (nodes l) \<Longrightarrow> key_at (fst (NewNode l k h)) a = key_at l a"
  "a < length (nodes l) \<Longrightarrow> height (fst (NewNode l k h)) a = height l a"
  "a < length (nodes l) \<Longrightarrow> Node_Next (fst (NewNode l k h)) a i = Node_Next l a i"
  "key_at (fst (NewNode l k h)) (length (nodes l)) = k"
  "height (fst (NewNode l k h)) (length (nodes l)) = h"
  "length (nodes (fst (NewNode l k h))) = Suc (length (nodes l))"
  "max_height (fst (NewNode l k h)) = max_height l"
  by (simp_all add: NewNode_def height_def Node_Next_def nth_append)

lemma RandomHeight_loop_bounds:
  "h \<le> kMaxHeight \<Longrightarrow> h \<le> fst (RandomHeight_loop h s) \<and> fst (RandomHeight_loop h s) \<le> kMaxHeight"
proof (induction h s rule: RandomHeight_loop.induct)
  case (1 h s)
  show ?case
  proof (cases "h < kMaxHeight \<and> snd (Random_OneIn s 4)")
    case True
    obtain s' where s': "Random_OneIn s 4 = (s', True)" using True by (cases "Random_OneIn s 4") auto
    have "h + 1 \<le> fst (RandomHeight_loop (h + 1) s') \<and> fst (RandomHeight_loop (h + 1) s') \<le> kMaxHeight"
      using True s' by (intro "1.IH" [OF _ s'[symmetric] refl]) auto
    then show ?thesis using True s' by (subst (1 2) RandomHeight_loop.simps) simp
  next
    case False
    then show ?thesis using "1.prems" by (subst (1 2) RandomHeight_loop.simps) (auto split: prod.splits)
  qed
qed

lemma RandomHeight_bounds: "1 \<le> snd (RandomHeight l)" "snd (RandomHeight l) \<le> kMaxHeight"
  using RandomHeight_loop_bounds [of 1 "rnd l"] by (auto simp: RandomHeight_def kMaxHeight_def split: prod.splits)

context weak_order
begin

lemma last_below_mem:
  assumes "skiplist_inv cmp ok l as" "i < kMaxHeight"
  shows "last_below cmp l k as i \<in> set (head # lower cmp l k as)"
    "last_below cmp l k as i < length (nodes l)" "i < height l (last_below cmp l k as i)"
proof -
  have mem: "last_below cmp l k as i \<in> set (head # level_nodes l i (lower cmp l k as))"
    unfolding last_below_def by (rule last_in_set) simp
  then show "last_below cmp l k as i \<in> set (head # lower cmp l k as)"
    by (auto simp: set_level_nodes)
  then have "last_below cmp l k as i \<in> set (head # as)"
    by (auto dest: lower_upper_subset(1))
  then show "last_below cmp l k as i < length (nodes l)"
    unfolding inv_nodes [OF assms(1)] by simp
  show "i < height l (last_below cmp l k as i)"
    using mem inv_head [OF assms(1)] assms(2) by (auto simp: set_level_nodes)
qed

lemma last_below_high:
  assumes "skiplist_inv cmp ok l as" "max_height l \<le> i"
  shows "last_below cmp l k as i = head"
proof -
  have "level_nodes l i (lower cmp l k as) = []"
    unfolding level_nodes_def
  proof (rule filter_False, rule ballI)
    fix a assume "a \<in> set (lower cmp l k as)"
    from inv_height(2) [OF assms(1) lower_upper_subset(1) [OF this]] assms(2)
    show "\<not> i < height l a" by simp
  qed
  then show ?thesis by (simp add: last_below_def)
qed

text \<open>
  The array \<open>prev\<close> that \<open>Insert\<close> links through, after the levels above the old \<open>max_height\<close> have been
  filled with the head: at every level it holds the last node before the key.
\<close>

lemma Insert_prev:
  assumes inv: "skiplist_inv cmp ok l as" and h: "h \<le> kMaxHeight" "i < h"
    and prev: "prev = filled_prev cmp l k as (max_height l - 1) (replicate kMaxHeight head)"
  shows "(if h > max_height l then raise_prev (max_height l) h prev else prev) ! i = last_below cmp l k as i"
proof (cases "i < max_height l")
  case True
  then have "prev ! i = last_below cmp l k as i" "i < length prev"
    using h by (auto simp: prev filled_prev_def)
  then show ?thesis using True by (simp add: raise_prev_def nth_append)
next
  case False
  then have "i - max_height l < h - max_height l" using h by linarith
  with False show ?thesis
    using h inv_max [OF inv] last_below_high [OF inv, of i k]
    by (simp add: raise_prev_def nth_append prev filled_prev_def)
qed

text \<open>
  What \<open>Insert\<close> does to the list: one node more, at a fresh address, of some height; the keys and
  heights of the others are kept, and the links of every level below the new height are redirected.
\<close>

lemma Insert_effect:
  assumes inv: "skiplist_inv cmp ok l as" and k: "ok k"
  obtains l' h where "Insert cmp l k = Some l'" "1 \<le> h" "h \<le> kMaxHeight"
    "max_height l' = max (max_height l) h" "length (nodes l') = Suc (length (nodes l))"
    "\<And>a. a < length (nodes l) \<Longrightarrow> key_at l' a = key_at l a \<and> height l' a = height l a"
    "key_at l' (length (nodes l)) = k" "height l' (length (nodes l)) = h"
    "\<And>a i. a < length (nodes l) \<Longrightarrow> Node_Next l' a i =
       (if i < h \<and> a = last_below cmp l k as i then Some (length (nodes l)) else Node_Next l a i)"
    "\<And>i. i < h \<Longrightarrow> Node_Next l' (length (nodes l)) i = Node_Next l (last_below cmp l k as i) i"
proof -
  define prev where "prev = filled_prev cmp l k as (max_height l - 1) (replicate kMaxHeight head)"
  define h where "h = snd (RandomHeight l)"
  define seed where "seed = rnd (fst (RandomHeight l))"
  define prev' where "prev' = (if h > max_height l then raise_prev (max_height l) h prev else prev)"
  define l2 where "l2 = l\<lparr>rnd := seed, max_height := max (max_height l) h\<rparr>"
  define l3 where "l3 = fst (NewNode l2 k h)"
  let ?x = "length (nodes l)"
  define l' where "l' = Insert_links 0 h ?x prev' l3"
  have h: "1 \<le> h" "h \<le> kMaxHeight" unfolding h_def by (rule RandomHeight_bounds)+
  have rh: "RandomHeight l = (l\<lparr>rnd := seed\<rparr>, h)"
    by (simp add: RandomHeight_def h_def seed_def split: prod.splits)
  have l2: "nodes l2 = nodes l" "max_height l2 = max (max_height l) h" by (simp_all add: l2_def)
  have new: "NewNode l2 k h = (l3, ?x)" by (simp add: l3_def NewNode_def l2)
  have ins: "Insert cmp l k = Some l'"
    unfolding Insert_def FindGreaterOrEqual_correct [OF inv k] prev_def [symmetric]
    using new rh by (auto simp: l'_def prev'_def l2_def max_def Let_def)
  have p: "prev' ! i = last_below cmp l k as i" if "i < h" for i
    unfolding prev'_def by (rule Insert_prev [OF inv h(2) that prev_def])
  have frame: "key_at l3 a = key_at l a" "height l3 a = height l a" "Node_Next l3 a i = Node_Next l a i"
    if "a < ?x" for a i
    using NewNode_frame(1-3) [of a l2 k h] that by (simp_all add: l3_def l2 height_def Node_Next_def)
  have fresh: "key_at l3 ?x = k" "height l3 ?x = h" "length (nodes l3) = Suc ?x"
    "max_height l3 = max (max_height l) h"
    using NewNode_frame(4-7) [of l2 k h] by (simp_all add: l3_def l2)
  have below: "last_below cmp l k as i < ?x" "i < height l (last_below cmp l k as i)" if "i < h" for i
    using last_below_mem(2,3) [OF inv, of i k] that h by auto
  have link: "can_link l3 h ?x prev'"
    unfolding can_link_def fresh
    using below by (auto simp: p frame(2) less_Suc_eq dest: order.strict_implies_not_eq)
  show ?thesis
    by (rule that [OF ins h])
      (use below in \<open>auto simp: l'_def frame fresh p Node_Next_Insert_links [OF link]\<close>)
qed

lemma Insert_chain:
  assumes inv: "skiplist_inv cmp ok l as" and i: "i < kMaxHeight"
    and frame: "\<And>a. a < length (nodes l) \<Longrightarrow> height l' a = height l a" and h: "height l' (length (nodes l)) = h"
    and old: "\<And>a. a < length (nodes l) \<Longrightarrow> Node_Next l' a i =
       (if i < h \<and> a = last_below cmp l k as i then Some (length (nodes l)) else Node_Next l a i)"
    and new: "i < h \<Longrightarrow> Node_Next l' (length (nodes l)) i = Node_Next l (last_below cmp l k as i) i"
  shows "chain l' i head (level_nodes l' i (lower cmp l k as @ length (nodes l) # upper cmp l k as))"
proof -
  let ?ps = "level_nodes l i (lower cmp l k as)" and ?ds = "level_nodes l i (upper cmp l k as)"
  have as: "level_nodes l i as = ?ps @ ?ds"
    unfolding level_nodes_append [symmetric] lower_upper ..
  have ch: "chain l i head (?ps @ ?ds)" using inv_chain [OF inv i] as by simp
  have small: "a < length (nodes l)" if "a \<in> set (head # as)" for a
    using that unfolding inv_nodes [OF inv] by simp
  have sub: "a \<in> set (head # ?ps @ ?ds) \<Longrightarrow> a < length (nodes l)" for a
    using small unfolding as [symmetric] by (auto simp: set_level_nodes)
  have same: "level_nodes l' i zs = level_nodes l i zs" if "set zs \<subseteq> set as" for zs
    unfolding level_nodes_def using that small frame by (intro filter_cong) auto
  have lu: "set (lower cmp l k as) \<subseteq> set as" "set (upper cmp l k as) \<subseteq> set as"
    by (auto dest: lower_upper_subset)
  have dist: "distinct (head # ?ps @ ?ds)"
    using inv_distinct [OF inv] unfolding as [symmetric] by (auto simp: level_nodes_def)
  show ?thesis
  proof (cases "i < h")
    case True
    have "chain l' i head (?ps @ length (nodes l) # ?ds)"
      using ch dist
    proof (rule chain_insert)
      show "length (nodes l) \<notin> set (head # ?ps @ ?ds)" using sub by blast
      show "Node_Next l' (length (nodes l)) i = Node_Next l (last (head # ?ps)) i"
        using new True by (simp add: last_below_def)
      show "Node_Next l' (last (head # ?ps)) i = Some (length (nodes l))"
        using True last_below_mem(2) [OF inv i, of k] old by (simp add: last_below_def)
      show "Node_Next l' a i = Node_Next l a i" if "a \<in> set (head # ?ps @ ?ds)" "a \<noteq> last (head # ?ps)" for a
        using old [OF sub [OF that(1)]] that(2) by (simp add: last_below_def)
    qed
    then show ?thesis using True h same [OF lu(1)] same [OF lu(2)] by (simp add: level_nodes_def)
  next
    case False
    have "chain l' i head (?ps @ ?ds)"
      using ch by (rule chain_cong) (use False old sub in auto)
    then show ?thesis using False h same [OF lu(1)] same [OF lu(2)] by (simp add: level_nodes_def)
  qed
qed

lemma Insert_correct:
  assumes inv: "skiplist_inv cmp ok l as" and k: "ok k" and new: "\<And>a. a \<in> set as \<Longrightarrow> cmp (key_at l a) k \<noteq> 0"
  shows "\<exists>l'. Insert cmp l k = Some l' \<and>
    skiplist_inv cmp ok l' (lower cmp l k as @ length (nodes l) # upper cmp l k as) \<and>
    (\<forall>a \<in> set as. key_at l' a = key_at l a) \<and> key_at l' (length (nodes l)) = k"
proof -
  let ?x = "length (nodes l)" and ?as = "lower cmp l k as @ length (nodes l) # upper cmp l k as"
  obtain l' h where ins: "Insert cmp l k = Some l'" and h: "1 \<le> h" "h \<le> kMaxHeight"
    and mh: "max_height l' = max (max_height l) h" and len: "length (nodes l') = Suc ?x"
    and frame: "\<And>a. a < ?x \<Longrightarrow> key_at l' a = key_at l a \<and> height l' a = height l a"
    and fresh: "key_at l' ?x = k" "height l' ?x = h"
    and old: "\<And>a i. a < ?x \<Longrightarrow> Node_Next l' a i =
       (if i < h \<and> a = last_below cmp l k as i then Some ?x else Node_Next l a i)"
    and nxt: "\<And>i. i < h \<Longrightarrow> Node_Next l' ?x i = Node_Next l (last_below cmp l k as i) i"
    by (rule Insert_effect [OF inv k]) (rule that)
  have set: "set as = set (lower cmp l k as) \<union> set (upper cmp l k as)"
    by (metis lower_upper set_append)
  have small: "a < ?x" if "a \<in> set (head # as)" for a
    using that unfolding inv_nodes [OF inv] by simp
  have key: "key_at l' a = key_at l a" "height l' a = height l a" if "a \<in> set as" for a
    using small [of a] frame [of a] that by simp_all
  have up: "cmp k (key_at l a) < 0" if "a \<in> set (upper cmp l k as)" for a
  proof -
    have "a \<in> set as" using that set by simp
    then show ?thesis
      using upper_not_less [OF inv k that] new [of a] cmp_antisym [OF inv_ok [OF inv, of a] k]
      by simp
  qed
  have "sorted_wrt (\<lambda>a b. cmp (key_at l' a) (key_at l' b) < 0) as"
    by (rule sorted_wrt_mono_rel [OF _ inv_sorted [OF inv]]) (simp add: key)
  then have "sorted_wrt (\<lambda>a b. cmp (key_at l' a) (key_at l' b) < 0) (lower cmp l k as @ upper cmp l k as)"
    unfolding lower_upper .
  then have "sorted_wrt (\<lambda>a b. cmp (key_at l' a) (key_at l' b) < 0) ?as"
    using up lower_less [of _ cmp l k as] fresh key unfolding set by (simp add: sorted_wrt_append)
  moreover have "distinct (head # ?as)" "set (head # ?as) = {..<length (nodes l')}"
  proof -
    have "distinct (head # lower cmp l k as @ upper cmp l k as)"
      unfolding lower_upper by (rule inv_distinct [OF inv])
    moreover have "?x \<notin> set (head # as)" using small by blast
    ultimately show "distinct (head # ?as)" by (simp add: set)
    have "set (head # ?as) = insert ?x (set (head # as))" by (auto simp: set)
    then show "set (head # ?as) = {..<length (nodes l')}"
      unfolding inv_nodes [OF inv] len lessThan_Suc .
  qed
  moreover have "\<forall>a \<in> set ?as. ok (key_at l' a) \<and> 1 \<le> height l' a \<and> height l' a \<le> max_height l'"
    using inv_ok [OF inv] inv_height [OF inv] key fresh k h set by (auto simp: mh le_max_iff_disj)
  moreover have "height l' head = kMaxHeight" "1 \<le> max_height l'" "max_height l' \<le> kMaxHeight"
    using frame [of head] small [of head] inv_head [OF inv] inv_max [OF inv] h by (auto simp: mh)
  moreover have "chain l' i head (level_nodes l' i ?as)" if "i < kMaxHeight" for i
    by (rule Insert_chain [OF inv that _ fresh(2)]) (use frame old nxt in auto)
  ultimately show ?thesis
    using ins key fresh unfolding skiplist_inv_def by blast
qed

end

subsection \<open>Contents and positions\<close>

text \<open>
  What a client sees: the keys a list holds, in order, and where an iterator stands, as the keys
  before it and the keys from it on (none if it is not valid).
\<close>

definition skip_holds :: "('k \<Rightarrow> 'k \<Rightarrow> int) \<Rightarrow> ('k \<Rightarrow> bool) \<Rightarrow> 'k SkipList \<Rightarrow> 'k list \<Rightarrow> bool" where
  "skip_holds cmp ok l ks \<longleftrightarrow> (\<exists>as. skiplist_inv cmp ok l as \<and> map (key_at l) as = ks)"

definition skip_at ::
  "('k \<Rightarrow> 'k \<Rightarrow> int) \<Rightarrow> ('k \<Rightarrow> bool) \<Rightarrow> 'k SkipList \<Rightarrow> iter \<Rightarrow> 'k list \<Rightarrow> 'k list \<Rightarrow> bool" where
  "skip_at cmp ok l it bef aft \<longleftrightarrow>
     (\<exists>xs ys. skiplist_inv cmp ok l (xs @ ys) \<and> it = first_of ys \<and>
        map (key_at l) xs = bef \<and> map (key_at l) ys = aft)"

lemma skip_atI:
  "skiplist_inv cmp ok l (xs @ ys) \<Longrightarrow> it = first_of ys \<Longrightarrow>
   skip_at cmp ok l it (map (key_at l) xs) (map (key_at l) ys)"
  unfolding skip_at_def by blast

lemma skip_at_holds: "skip_at cmp ok l it bef aft \<Longrightarrow> skip_holds cmp ok l (bef @ aft)"
  unfolding skip_at_def skip_holds_def by fastforce

lemma map_lower: "map (key_at l) (lower cmp l k as) = takeWhile (\<lambda>x. cmp x k < 0) (map (key_at l) as)"
  by (simp add: lower_def takeWhile_map comp_def)

lemma map_upper: "map (key_at l) (upper cmp l k as) = dropWhile (\<lambda>x. cmp x k < 0) (map (key_at l) as)"
  by (simp add: upper_def dropWhile_map comp_def)

lemma skip_holds_new: "skip_holds cmp ok (SkipList_new any) []"
  unfolding skip_holds_def
  by (rule exI [of _ "[]"])
    (simp add: skiplist_inv_def SkipList_new_def height_def Node_Next_def lessThan_Suc kMaxHeight_def nth_replicate)

lemma first_of_simps [simp]: "first_of [] = None" "first_of (a # as) = Some a"
  "first_of as = None \<longleftrightarrow> as = []"
  by (simp_all add: first_of_def split: list.splits)

lemma Iterator_Valid_at: "skip_at cmp ok l it bef aft \<Longrightarrow> Iterator_Valid it \<longleftrightarrow> aft \<noteq> []"
  unfolding skip_at_def Iterator_Valid_def by auto

lemma Iterator_key_at: "skip_at cmp ok l it bef (k # aft) \<Longrightarrow> Iterator_key l it = k"
  by (auto simp: skip_at_def Iterator_key_def)

lemma level_nodes_0:
  assumes "skiplist_inv cmp ok l as"
  shows "level_nodes l 0 as = as"
  unfolding level_nodes_def using inv_height(1) [OF assms] by (auto simp: filter_id_conv Suc_le_eq)

lemma chain_0:
  assumes "skiplist_inv cmp ok l as"
  shows "chain l 0 head as"
  using inv_chain [OF assms, of 0] by (simp add: kMaxHeight_def level_nodes_0 [OF assms])

lemma Iterator_Next_at:
  assumes "skip_at cmp ok l it bef (k # aft)"
  shows "skip_at cmp ok l (Iterator_Next l it) (bef @ [k]) aft"
proof -
  obtain xs y ys where inv: "skiplist_inv cmp ok l (xs @ y # ys)" and it: "it = Some y"
    and keys: "map (key_at l) xs = bef" "key_at l y = k" "map (key_at l) ys = aft"
    using assms unfolding skip_at_def by (auto simp: map_eq_Cons_conv)
  have "chain l 0 y ys"
    using chain_suffix [OF chain_0 [OF inv], of "head # xs" y ys] by simp
  then have "Iterator_Next l it = first_of ys"
    by (simp add: it Iterator_Next_def chain_next first_of_def)
  then show ?thesis
    using skip_atI [of cmp ok l "xs @ [y]" ys] inv keys by simp
qed

lemma Iterator_SeekToFirst_at:
  assumes "skip_holds cmp ok l ks"
  shows "skip_at cmp ok l (Iterator_SeekToFirst l) [] ks"
proof -
  obtain as where inv: "skiplist_inv cmp ok l as" and ks: "map (key_at l) as = ks"
    using assms unfolding skip_holds_def by blast
  have "Iterator_SeekToFirst l = first_of as"
    using chain_0 [OF inv] by (simp add: Iterator_SeekToFirst_def chain_next first_of_def)
  then show ?thesis using skip_atI [of cmp ok l "[]" as] inv ks by simp
qed

lemma last_not_head:
  assumes "skiplist_inv cmp ok l as" "xs \<noteq> []" "set xs \<subseteq> set as"
  shows "last xs \<noteq> head"
  using inv_distinct [OF assms(1)] last_in_set [OF assms(2)] assms(3) by (metis distinct.simps(2) subsetD)

context weak_order
begin

lemma lower_at:
  assumes inv: "skiplist_inv cmp ok l (xs @ y # ys)"
  shows "lower cmp l (key_at l y) (xs @ y # ys) = xs"
proof -
  have "sorted_wrt (\<lambda>a b. cmp (key_at l a) (key_at l b) < 0) (xs @ y # ys)" by (rule inv_sorted [OF inv])
  moreover have "\<not> cmp (key_at l y) (key_at l y) < 0"
    using cmp_irrefl [OF inv_ok [OF inv, of y]] by simp
  ultimately show ?thesis
    unfolding lower_def by (auto simp: sorted_wrt_append takeWhile_append2)
qed

lemma Iterator_Seek_at:
  assumes "skip_holds cmp ok l ks" "ok k"
  shows "\<exists>it. Iterator_Seek cmp l k = Some it \<and>
    skip_at cmp ok l it (takeWhile (\<lambda>x. cmp x k < 0) ks) (dropWhile (\<lambda>x. cmp x k < 0) ks)"
proof -
  obtain as where inv: "skiplist_inv cmp ok l as" and ks: "map (key_at l) as = ks"
    using assms unfolding skip_holds_def by blast
  have "Iterator_Seek cmp l k = Some (first_of (upper cmp l k as))"
    unfolding Iterator_Seek_def FindGreaterOrEqual_correct [OF inv assms(2)] by simp
  moreover have "skiplist_inv cmp ok l (lower cmp l k as @ upper cmp l k as)"
    unfolding lower_upper by (rule inv)
  from skip_atI [OF this refl] have
    "skip_at cmp ok l (first_of (upper cmp l k as)) (takeWhile (\<lambda>x. cmp x k < 0) ks) (dropWhile (\<lambda>x. cmp x k < 0) ks)"
    by (simp add: map_lower map_upper ks)
  ultimately show ?thesis by blast
qed

lemma Iterator_Prev_at:
  assumes "skip_at cmp ok l it bef (k # aft)"
  shows "\<exists>it'. Iterator_Prev cmp l it = Some it' \<and>
    (if bef = [] then skip_at cmp ok l it' (k # aft) []
     else skip_at cmp ok l it' (butlast bef) (last bef # k # aft))"
proof -
  obtain xs y ys where inv: "skiplist_inv cmp ok l (xs @ y # ys)" and it: "it = Some y"
    and keys: "map (key_at l) xs = bef" "key_at l y = k" "map (key_at l) ys = aft"
    using assms unfolding skip_at_def by (auto simp: map_eq_Cons_conv)
  have "FindLessThan cmp l (key_at l y) = Some (last (head # xs))"
    using FindLessThan_correct [OF inv inv_ok [OF inv, of y]] by (simp add: lower_at [OF inv])
  moreover have "set xs \<subseteq> set (xs @ y # ys)" by auto
  ultimately have prev: "Iterator_Prev cmp l it = Some (if xs = [] then None else Some (last xs))"
    using last_not_head [OF inv, of xs] by (cases "xs = []") (simp_all add: Iterator_Prev_def it)
  show ?thesis
  proof (cases xs rule: rev_cases)
    case Nil
    then show ?thesis
      using prev inv keys skip_atI [of cmp ok l "y # ys" "[]" None] by simp
  next
    case (snoc zs z)
    then show ?thesis
      using prev inv keys skip_atI [of cmp ok l zs "z # y # ys" "Some z"] by auto
  qed
qed

lemma Iterator_SeekToLast_at:
  assumes "skip_holds cmp ok l ks"
  shows "\<exists>it. Iterator_SeekToLast l = Some it \<and>
    (if ks = [] then skip_at cmp ok l it [] [] else skip_at cmp ok l it (butlast ks) [last ks])"
proof -
  obtain as where inv: "skiplist_inv cmp ok l as" and ks: "map (key_at l) as = ks"
    using assms unfolding skip_holds_def by blast
  have seek: "Iterator_SeekToLast l = Some (if as = [] then None else Some (last as))"
    using last_not_head [OF inv, of as]
    by (cases "as = []") (simp_all add: Iterator_SeekToLast_def FindLast_correct [OF inv])
  show ?thesis
  proof (cases as rule: rev_cases)
    case Nil
    then show ?thesis using seek inv ks skip_atI [of cmp ok l "[]" "[]" None] by simp
  next
    case (snoc zs z)
    then show ?thesis
      using seek inv ks skip_atI [of cmp ok l zs "[z]" "Some z"] by auto
  qed
qed

lemma Insert_holds:
  assumes "skip_holds cmp ok l ks" "ok k" "\<And>x. x \<in> set ks \<Longrightarrow> cmp x k \<noteq> 0"
  shows "\<exists>l'. Insert cmp l k = Some l' \<and>
    skip_holds cmp ok l' (takeWhile (\<lambda>x. cmp x k < 0) ks @ k # dropWhile (\<lambda>x. cmp x k < 0) ks)"
proof -
  obtain as where inv: "skiplist_inv cmp ok l as" and ks: "map (key_at l) as = ks"
    using assms unfolding skip_holds_def by blast
  have "cmp (key_at l a) k \<noteq> 0" if "a \<in> set as" for a using assms(3) [of "key_at l a"] ks that by auto
  from Insert_correct [OF inv assms(2) this] obtain l' where l': "Insert cmp l k = Some l'"
    "skiplist_inv cmp ok l' (lower cmp l k as @ length (nodes l) # upper cmp l k as)"
    "\<forall>a \<in> set as. key_at l' a = key_at l a" "key_at l' (length (nodes l)) = k"
    by blast
  have "map (key_at l') (lower cmp l k as) = map (key_at l) (lower cmp l k as)"
    "map (key_at l') (upper cmp l k as) = map (key_at l) (upper cmp l k as)"
    using l'(3) lower_upper_subset [of _ cmp l k as] by simp_all
  then have "map (key_at l') (lower cmp l k as @ length (nodes l) # upper cmp l k as)
      = takeWhile (\<lambda>x. cmp x k < 0) ks @ k # dropWhile (\<lambda>x. cmp x k < 0) ks"
    by (simp add: map_lower map_upper ks l'(4))
  with l'(1,2) show ?thesis unfolding skip_holds_def by blast
qed

lemma Contains_holds:
  assumes "skip_holds cmp ok l ks" "ok k"
  shows "Contains cmp l k = Some (\<exists>x \<in> set ks. cmp k x = 0)"
proof -
  obtain as where inv: "skiplist_inv cmp ok l as" and ks: "map (key_at l) as = ks"
    using assms unfolding skip_holds_def by blast
  have lu: "set ks = key_at l ` set (lower cmp l k as) \<union> key_at l ` set (upper cmp l k as)"
    unfolding ks [symmetric] set_map image_Un [symmetric] set_append [symmetric] lower_upper ..
  have low: "cmp k (key_at l a) \<noteq> 0" if "a \<in> set (lower cmp l k as)" for a
    using lower_less [OF that] cmp_antisym [OF assms(2) inv_ok [OF inv lower_upper_subset(1) [OF that]]] by simp
  show ?thesis
  proof (cases "upper cmp l k as")
    case Nil
    then show ?thesis
      using low lu by (auto simp: Contains_def FindGreaterOrEqual_correct [OF inv assms(2)] first_of_def)
  next
    case (Cons d ds)
    have oks: "ok (key_at l a)" if "a \<in> set (d # ds)" for a
      using that Cons lower_upper_subset(2) inv_ok [OF inv] by metis
    have kd: "cmp k (key_at l d) \<le> 0"
      using upper_not_less [OF inv assms(2), of d] Cons cmp_not_less [OF oks [of d] assms(2)] by simp
    have "sorted_wrt (\<lambda>a b. cmp (key_at l a) (key_at l b) < 0) (lower cmp l k as @ upper cmp l k as)"
      unfolding lower_upper by (rule inv_sorted [OF inv])
    then have "cmp k (key_at l a) < 0" if "a \<in> set ds" for a
      using that cmp_le_less_trans [OF assms(2) oks [of d] oks [of a] kd] by (simp add: Cons sorted_wrt_append)
    then have "(\<exists>x \<in> set ks. cmp k x = 0) \<longleftrightarrow> cmp k (key_at l d) = 0"
      using low lu Cons by force
    then show ?thesis
      by (simp add: Contains_def FindGreaterOrEqual_correct [OF inv assms(2)] first_of_def Cons)
  qed
qed

end

subsection \<open>Properties\<close>

text \<open>
  C11: Inserting a key that compares equal to none present terminates, keeps the list well formed and
  puts the key at its place: the list then holds the smaller keys, the new key and the greater keys,
  whatever height the random generator draws for the new node. A key is found afterwards by
  \<open>Contains\<close> exactly if it was there before or compares equal to the new one.
\<close>

theorem skiplist_insert:
  assumes "weak_order cmp ok" "skip_holds cmp ok l ks" "ok k" "\<forall>x \<in> set ks. cmp x k \<noteq> 0"
  shows "\<exists>l'. Insert cmp l k = Some l' \<and>
    skip_holds cmp ok l' (takeWhile (\<lambda>x. cmp x k < 0) ks @ k # dropWhile (\<lambda>x. cmp x k < 0) ks) \<and>
    (\<forall>q. ok q \<longrightarrow> Contains cmp l' q = Some (the (Contains cmp l q) \<or> cmp q k = 0))"
proof -
  obtain l' where l': "Insert cmp l k = Some l'"
    "skip_holds cmp ok l' (takeWhile (\<lambda>x. cmp x k < 0) ks @ k # dropWhile (\<lambda>x. cmp x k < 0) ks)"
    using weak_order.Insert_holds [OF assms(1-3)] assms(4) by blast
  have "set ks = set (takeWhile (\<lambda>x. cmp x k < 0) ks) \<union> set (dropWhile (\<lambda>x. cmp x k < 0) ks)"
    unfolding set_append [symmetric] takeWhile_dropWhile_id ..
  then have "Contains cmp l' q = Some (the (Contains cmp l q) \<or> cmp q k = 0)" if "ok q" for q
    unfolding weak_order.Contains_holds [OF assms(1) l'(2) that] weak_order.Contains_holds [OF assms(1,2) that]
    by auto
  with l' show ?thesis by blast
qed

theorem skiplist_insert_witness:
  "\<exists>l'. Insert BytewiseComparator_Compare (SkipList_new []) [1] = Some l' \<and>
     skip_holds BytewiseComparator_Compare (\<lambda>_. True) l' [[1]] \<and> Contains BytewiseComparator_Compare l' [1] = Some True"
  using skiplist_insert [OF bytewise.weak.weak_order_axioms skip_holds_new, of "[1]" "[]"] by auto

text \<open>
  C24: The iterator walks the list in both directions. \<open>Seek\<close> terminates and stands at the first key not
  below the target; \<open>Next\<close> moves one key forward; \<open>Prev\<close>, which searches from the head, moves one key back
  and becomes invalid at the front; \<open>SeekToFirst\<close> and \<open>SeekToLast\<close> stand at the two ends.
\<close>

theorem skiplist_iterator:
  assumes "weak_order cmp ok" "skip_at cmp ok l it bef (k # aft)" "ok t"
  shows "Iterator_Valid it \<and> Iterator_key l it = k \<and>
    skip_at cmp ok l (Iterator_Next l it) (bef @ [k]) aft \<and>
    (\<exists>it'. Iterator_Prev cmp l it = Some it' \<and>
       (if bef = [] then \<not> Iterator_Valid it'
        else skip_at cmp ok l it' (butlast bef) (last bef # k # aft))) \<and>
    (\<exists>it'. Iterator_Seek cmp l t = Some it' \<and>
       skip_at cmp ok l it' (takeWhile (\<lambda>x. cmp x t < 0) (bef @ k # aft))
         (dropWhile (\<lambda>x. cmp x t < 0) (bef @ k # aft))) \<and>
    skip_at cmp ok l (Iterator_SeekToFirst l) [] (bef @ k # aft) \<and>
    (\<exists>it'. Iterator_SeekToLast l = Some it' \<and>
       skip_at cmp ok l it' (butlast (bef @ k # aft)) [last (bef @ k # aft)])"
proof -
  note holds = skip_at_holds [OF assms(2)]
  have "Iterator_Valid it" using Iterator_Valid_at [OF assms(2)] by simp
  moreover have "\<exists>it'. Iterator_Prev cmp l it = Some it' \<and>
      (if bef = [] then \<not> Iterator_Valid it' else skip_at cmp ok l it' (butlast bef) (last bef # k # aft))"
    using weak_order.Iterator_Prev_at [OF assms(1,2)] by (auto split: if_splits dest: Iterator_Valid_at)
  moreover have "bef @ k # aft \<noteq> []" by simp
  ultimately show ?thesis
    using Iterator_key_at [OF assms(2)] Iterator_Next_at [OF assms(2)]
      weak_order.Iterator_Seek_at [OF assms(1) holds assms(3)] Iterator_SeekToFirst_at [OF holds]
      weak_order.Iterator_SeekToLast_at [OF assms(1) holds]
    by (simp del: butlast_append last_appendR)
qed

definition two_keys :: "slice SkipList" where
  "two_keys = \<lparr>nodes =
     [\<lparr>node_key = [], node_next = Some 2 # replicate 11 None\<rparr>,
      \<lparr>node_key = [5], node_next = [None]\<rparr>, \<lparr>node_key = [3], node_next = [Some 1]\<rparr>],
     max_height = 1, rnd = 1\<rparr>"

lemma two_keys_at: "skip_at BytewiseComparator_Compare (\<lambda>_. True) two_keys (Some 1) [[3]] [[5]]"
proof -
  have "BytewiseComparator_Compare [3] [5] < 0" by code_simp
  then have "skiplist_inv BytewiseComparator_Compare (\<lambda>_. True) two_keys [2, 1]"
    by (auto simp: two_keys_def skiplist_inv_def height_def level_nodes_def Node_Next_def kMaxHeight_def
        less_Suc_eq numeral_eq_Suc lessThan_Suc)
  then show ?thesis
    unfolding skip_at_def
    by (intro exI [of _ "[2]"] exI [of _ "[1]"]) (simp add: two_keys_def)
qed

theorem skiplist_iterator_witness:
  "skip_at BytewiseComparator_Compare (\<lambda>_. True) two_keys (Some 1) [[3]] [[5]] \<and>
   (\<exists>it. Iterator_Prev BytewiseComparator_Compare two_keys (Some 1) = Some it \<and>
      skip_at BytewiseComparator_Compare (\<lambda>_. True) two_keys it [] [[3], [5]]) \<and>
   (\<exists>it. Iterator_Seek BytewiseComparator_Compare two_keys [4] = Some it \<and>
      skip_at BytewiseComparator_Compare (\<lambda>_. True) two_keys it [[3]] [[5]])"
  using skiplist_iterator [OF bytewise.weak.weak_order_axioms two_keys_at, of "[4]"] two_keys_at
  by (simp add: BytewiseComparator_Compare_def Slice_compare_def)

end
