(* ===== verification/Arena.thy ===== *)
theory Arena
  imports Prelude
begin

text \<open>
  The arena allocator (\<open>util/arena.h\<close>, \<open>util/arena.cc\<close>). Addresses and sizes are natural numbers below
  \<open>2 ^ 64\<close>, and sums of sizes wrap around as in \<open>size_t\<close>. The operator \<open>new char[n]\<close> is the argument
  \<open>new_block\<close>, which chooses an address from the blocks that are live and the size; a call that throws ends
  the run and has no counterpart. What the arena relies on is \<open>good_blocks\<close>: the blocks that \<open>new\<close>
  returned do not overlap, are aligned for every object and lie below the end of the address space.
\<close>

definition arena_kBlockSize :: nat where "arena_kBlockSize = 4096"

text \<open>A region is an address and a number of bytes.\<close>

type_synonym region = "nat \<times> nat"

record Arena =
  alloc_ptr :: nat
  alloc_bytes_remaining :: nat
  blocks :: "region list"
  memory_usage :: nat

definition size_add :: "nat \<Rightarrow> nat \<Rightarrow> nat" where
  "size_add a b = (a + b) mod 2 ^ 64"

type_synonym new_block = "region list \<Rightarrow> nat \<Rightarrow> nat"

definition Arena_new :: Arena where
  "Arena_new = \<lparr>alloc_ptr = 0, alloc_bytes_remaining = 0, blocks = [], memory_usage = 0\<rparr>"

definition MemoryUsage :: "Arena \<Rightarrow> nat" where
  "MemoryUsage a = memory_usage a"

definition AllocateNewBlock :: "new_block \<Rightarrow> Arena \<Rightarrow> nat \<Rightarrow> Arena \<times> nat" where
  "AllocateNewBlock new_block a block_bytes =
     (let result = new_block (blocks a) block_bytes
      in (a\<lparr>blocks := blocks a @ [(result, block_bytes)],
            memory_usage := size_add (memory_usage a) (size_add block_bytes 8)\<rparr>, result))"

definition AllocateFallback :: "new_block \<Rightarrow> Arena \<Rightarrow> nat \<Rightarrow> Arena \<times> nat" where
  "AllocateFallback new_block a bytes =
     (if bytes > arena_kBlockSize div 4 then AllocateNewBlock new_block a bytes
      else
        let (a, p) = AllocateNewBlock new_block a arena_kBlockSize;
            a = a\<lparr>alloc_ptr := p, alloc_bytes_remaining := arena_kBlockSize\<rparr>;
            result = alloc_ptr a
        in (a\<lparr>alloc_ptr := alloc_ptr a + bytes,
              alloc_bytes_remaining := alloc_bytes_remaining a - bytes\<rparr>, result))"

definition Allocate :: "new_block \<Rightarrow> Arena \<Rightarrow> nat \<Rightarrow> Arena \<times> nat" where
  "Allocate new_block a bytes =
     (if bytes \<le> alloc_bytes_remaining a then
        let result = alloc_ptr a
        in (a\<lparr>alloc_ptr := alloc_ptr a + bytes,
              alloc_bytes_remaining := alloc_bytes_remaining a - bytes\<rparr>, result)
      else AllocateFallback new_block a bytes)"

definition AllocateAligned :: "new_block \<Rightarrow> Arena \<Rightarrow> nat \<Rightarrow> Arena \<times> nat" where
  "AllocateAligned new_block a bytes =
     (let align = 8;
          current_mod = alloc_ptr a mod align;
          slop = (if current_mod = 0 then 0 else align - current_mod);
          needed = size_add bytes slop
      in if needed \<le> alloc_bytes_remaining a then
           let result = alloc_ptr a + slop
           in (a\<lparr>alloc_ptr := alloc_ptr a + needed,
                 alloc_bytes_remaining := alloc_bytes_remaining a - needed\<rparr>, result)
         else AllocateFallback new_block a bytes)"

subsection \<open>Regions\<close>

definition apart :: "region \<Rightarrow> region \<Rightarrow> bool" where
  "apart r s \<longleftrightarrow> fst r + snd r \<le> fst s \<or> fst s + snd s \<le> fst r"

definition within :: "region \<Rightarrow> region \<Rightarrow> bool" where
  "within r s \<longleftrightarrow> fst s \<le> fst r \<and> fst r + snd r \<le> fst s + snd s"

definition good_blocks :: "region list \<Rightarrow> bool" where
  "good_blocks bs \<longleftrightarrow> sorted_wrt apart bs \<and> (\<forall>b \<in> set bs. fst b mod 8 = 0 \<and> fst b + snd b < 2 ^ 64)"

lemma apart_sym: "apart r s \<longleftrightarrow> apart s r"
  by (auto simp: apart_def)

lemma within_refl [simp]: "within r r"
  by (simp add: within_def)

lemma apart_within: "apart r s \<Longrightarrow> within t s \<Longrightarrow> apart r t"
  by (auto simp: apart_def within_def)

text \<open>
  The invariant, over the regions \<open>given\<close> handed out so far: each lies in a block and they do not
  overlap; the free part of the current block lies in a block and overlaps none of them.
\<close>

definition arena_inv :: "Arena \<Rightarrow> region list \<Rightarrow> bool" where
  "arena_inv a given \<longleftrightarrow>
     (\<forall>r \<in> set given. 0 < snd r \<and> (\<exists>b \<in> set (blocks a). within r b)) \<and>
     pairwise apart (set given) \<and> distinct given \<and>
     (0 < alloc_bytes_remaining a \<longrightarrow>
        (\<exists>b \<in> set (blocks a). within (alloc_ptr a, alloc_bytes_remaining a) b)) \<and>
     (\<forall>r \<in> set given. apart (alloc_ptr a, alloc_bytes_remaining a) r \<or> alloc_bytes_remaining a = 0) \<and>
     memory_usage a = (\<Sum>b \<leftarrow> blocks a. snd b + 8) mod 2 ^ 64"

lemma arena_inv_new: "arena_inv Arena_new []"
  by (simp add: arena_inv_def Arena_new_def)

lemma carve:
  assumes inv: "arena_inv a given" and n: "0 < n" "slop + n \<le> alloc_bytes_remaining a"
  shows "arena_inv (a\<lparr>alloc_ptr := alloc_ptr a + slop + n,
      alloc_bytes_remaining := alloc_bytes_remaining a - (slop + n)\<rparr>) ((alloc_ptr a + slop, n) # given)"
proof -
  let ?free = "(alloc_ptr a, alloc_bytes_remaining a)" and ?r = "(alloc_ptr a + slop, n)"
  let ?rest = "(alloc_ptr a + slop + n, alloc_bytes_remaining a - (slop + n))"
  have sub: "within ?r ?free" "within ?rest ?free" "apart ?rest ?r"
    using n by (auto simp: within_def apart_def)
  have new: "apart r ?free" if "r \<in> set given" for r
    using inv n that by (auto simp: arena_inv_def apart_sym)
  obtain b where b: "b \<in> set (blocks a)" "within ?free b"
    using inv n by (auto simp: arena_inv_def)
  then have "within ?r b" "within ?rest b" using sub by (auto simp: within_def)
  moreover have "apart r ?r" "apart r ?rest" if "r \<in> set given" for r
    using apart_within [OF new [OF that]] sub by blast+
  moreover have "?r \<notin> set given"
    using new [of ?r] sub(1) n by (auto simp: apart_def within_def)
  ultimately show ?thesis
    using inv b n sub(3) unfolding arena_inv_def
    by (auto simp: pairwise_insert apart_sym)
qed

lemma new_block_inv:
  assumes "arena_inv a given" "AllocateNewBlock new_block a n = (a', p)" "good_blocks (blocks a')"
  shows "arena_inv a' given" "p mod 8 = 0" "(p, n) \<in> set (blocks a')"
    "alloc_ptr a' = alloc_ptr a" "alloc_bytes_remaining a' = alloc_bytes_remaining a"
    "\<And>r. r \<in> set given \<Longrightarrow> apart (p, n) r"
    "0 < alloc_bytes_remaining a \<Longrightarrow> apart (p, n) (alloc_ptr a, alloc_bytes_remaining a)"
proof -
  have a': "a' = a\<lparr>blocks := blocks a @ [(p, n)], memory_usage := size_add (memory_usage a) (size_add n 8)\<rparr>"
    using assms(2) by (auto simp: AllocateNewBlock_def Let_def)
  have "memory_usage a' = (\<Sum>b \<leftarrow> blocks a'. snd b + 8) mod 2 ^ 64"
    using assms(1) by (simp add: arena_inv_def a' size_add_def mod_simps add.commute add.left_commute)
  then show "arena_inv a' given" "(p, n) \<in> set (blocks a')" "alloc_ptr a' = alloc_ptr a"
    "alloc_bytes_remaining a' = alloc_bytes_remaining a"
    using assms(1) by (auto simp: arena_inv_def a')
  have far: "apart (p, n) b" if "b \<in> set (blocks a)" for b
    using assms(3) that by (simp add: good_blocks_def a' sorted_wrt_append apart_sym)
  show "p mod 8 = 0" using assms(3) by (simp add: good_blocks_def a')
  show "apart (p, n) r" if "r \<in> set given" for r
    using assms(1) that far apart_within unfolding arena_inv_def by blast
  show "apart (p, n) (alloc_ptr a, alloc_bytes_remaining a)" if "0 < alloc_bytes_remaining a"
    using assms(1) that far apart_within unfolding arena_inv_def by blast
qed

lemma AllocateFallback_inv:
  assumes inv: "arena_inv a given" and n: "0 < n"
    and alloc: "AllocateFallback new_block a n = (a', p)" and good: "good_blocks (blocks a')"
  shows "arena_inv a' ((p, n) # given) \<and> p mod 8 = 0"
proof (cases "n > arena_kBlockSize div 4")
  case True
  then have "AllocateNewBlock new_block a n = (a', p)" using alloc by (simp add: AllocateFallback_def)
  note b = new_block_inv [OF inv this good]
  have "(p, n) \<notin> set given" using b(6) [of "(p, n)"] n by (auto simp: apart_def)
  moreover have "\<exists>b \<in> set (blocks a'). within (p, n) b" using b(3) within_refl by blast
  ultimately show ?thesis
    using b n unfolding arena_inv_def by (auto simp: pairwise_insert apart_sym)
next
  case False
  obtain a1 where a1: "AllocateNewBlock new_block a arena_kBlockSize = (a1, p)"
    and a': "a' = a1\<lparr>alloc_ptr := p + n, alloc_bytes_remaining := arena_kBlockSize - n\<rparr>"
    using False alloc by (auto simp: AllocateFallback_def Let_def split: prod.splits)
  note b = new_block_inv [OF inv a1 good [unfolded a', simplified]]
  have "\<exists>b \<in> set (blocks a1). within (p, arena_kBlockSize) b" using b(3) within_refl by blast
  then have "arena_inv (a1\<lparr>alloc_ptr := p, alloc_bytes_remaining := arena_kBlockSize\<rparr>) given"
    using b(1,6) unfolding arena_inv_def by auto
  from carve [OF this n, of 0] show ?thesis
    using False b(2) by (simp add: a')
qed

lemma Allocate_inv:
  assumes "arena_inv a given" "0 < n" "Allocate new_block a n = (a', p)" "good_blocks (blocks a')"
  shows "arena_inv a' ((p, n) # given)"
  using carve [OF assms(1,2), of 0] AllocateFallback_inv [OF assms(1,2) _ assms(4)] assms(3)
  by (auto simp: Allocate_def Let_def split: if_splits)

lemma AllocateAligned_inv:
  assumes "arena_inv a given" "0 < n" "n + 7 < 2 ^ 64" "AllocateAligned new_block a n = (a', p)" "good_blocks (blocks a')"
  shows "arena_inv a' ((p, n) # given) \<and> p mod 8 = 0"
proof -
  define slop where "slop = (if alloc_ptr a mod 8 = 0 then 0 else 8 - alloc_ptr a mod 8)"
  have aligned: "(alloc_ptr a + slop) mod 8 = 0" unfolding slop_def by presburger
  have "slop < 8" unfolding slop_def by simp
  then have needed: "size_add n slop = n + slop" using assms(3) by (simp add: size_add_def)
  show ?thesis
  proof (cases "n + slop \<le> alloc_bytes_remaining a")
    case True
    then have "p = alloc_ptr a + slop" "a' = a\<lparr>alloc_ptr := alloc_ptr a + slop + n,
        alloc_bytes_remaining := alloc_bytes_remaining a - (slop + n)\<rparr>"
      using assms(4) needed by (auto simp: AllocateAligned_def Let_def simp flip: slop_def split: if_splits)
    then show ?thesis using carve [OF assms(1,2), of slop] True aligned by (simp add: add.commute)
  next
    case False
    then have "AllocateFallback new_block a n = (a', p)"
      using assms(4) needed by (auto simp: AllocateAligned_def Let_def simp flip: slop_def split: if_splits)
    from AllocateFallback_inv [OF assms(1,2) this assms(5)] show ?thesis .
  qed
qed

text \<open>
  The bound on the size is needed: with seven bytes of padding \<open>needed\<close> wraps to zero for a request of
  \<open>2 ^ 64 - 7\<close> bytes, and the next byte of the current block is handed out as if it had that size.
\<close>

lemma AllocateAligned_wraps:
  assumes "alloc_ptr a mod 8 = 1"
  shows "AllocateAligned new_block a (2 ^ 64 - 7) = (a, alloc_ptr a + 7)"
proof -
  have "size_add (2 ^ 64 - 7) 7 = 0" by (simp add: size_add_def)
  then show ?thesis using assms by (simp add: AllocateAligned_def Let_def)
qed

subsection \<open>Any sequence of requests\<close>

text \<open>A request is a size and whether it asks for alignment; \<open>serve\<close> returns the regions, last first.\<close>

fun serve :: "new_block \<Rightarrow> Arena \<Rightarrow> (bool \<times> nat) list \<Rightarrow> Arena \<times> (bool \<times> region) list" where
  "serve new_block a [] = (a, [])"
| "serve new_block a ((aligned, n) # reqs) =
     (let (a', p) = (if aligned then AllocateAligned new_block a n else Allocate new_block a n);
          (a'', given) = serve new_block a' reqs
      in (a'', (aligned, p, n) # given))"

lemma AllocateFallback_blocks: "\<exists>bs. blocks (fst (AllocateFallback new_block a n)) = blocks a @ bs"
  by (simp add: AllocateFallback_def AllocateNewBlock_def Let_def)

lemma Allocate_blocks: "\<exists>bs. blocks (fst (Allocate new_block a n)) = blocks a @ bs"
  using AllocateFallback_blocks [of new_block a n] by (simp add: Allocate_def Let_def)

lemma AllocateAligned_blocks: "\<exists>bs. blocks (fst (AllocateAligned new_block a n)) = blocks a @ bs"
  using AllocateFallback_blocks [of new_block a n] by (simp add: AllocateAligned_def Let_def)

lemma serve_blocks: "\<exists>bs. blocks (fst (serve new_block a reqs)) = blocks a @ bs"
proof (induction new_block a reqs rule: serve.induct)
  case (2 new_block a aligned n reqs)
  obtain a' p where a': "(if aligned then AllocateAligned new_block a n else Allocate new_block a n) = (a', p)" by fastforce
  then obtain bs where "blocks a' = blocks a @ bs"
    using AllocateAligned_blocks [of new_block a n] Allocate_blocks [of new_block a n] by (auto split: if_splits)
  moreover obtain bs' where "blocks (fst (serve new_block a' reqs)) = blocks a' @ bs'" using 2 a' by metis
  ultimately show ?case using a' by (simp split: prod.splits) (metis append.assoc fst_conv)
qed simp

lemma good_blocks_prefix: "good_blocks (bs @ bs') \<Longrightarrow> good_blocks bs"
  by (auto simp: good_blocks_def sorted_wrt_append)

lemma serve_inv:
  "arena_inv a given \<Longrightarrow> \<forall>(al, n) \<in> set reqs. 0 < n \<and> n + 7 < 2 ^ 64 \<Longrightarrow>
   serve new_block a reqs = (a', out) \<Longrightarrow> good_blocks (blocks a') \<Longrightarrow>
   arena_inv a' (rev (map snd out) @ given) \<and> (\<forall>(al, p, n) \<in> set out. al \<longrightarrow> p mod 8 = 0) \<and>
   map (\<lambda>(al, p, n). (al, n)) out = reqs"
proof (induction reqs arbitrary: a given out)
  case (Cons r reqs)
  obtain al n where r: "r = (al, n)" by (cases r)
  obtain a1 p where a1: "(if al then AllocateAligned new_block a n else Allocate new_block a n) = (a1, p)"
    by (metis surj_pair)
  obtain rest where rest: "serve new_block a1 reqs = (a', rest)" "out = (al, p, n) # rest"
    using Cons.prems(3) a1 by (auto simp: r split: prod.splits)
  have n: "0 < n" "n + 7 < 2 ^ 64" using Cons.prems(2) r by auto
  have good: "good_blocks (blocks a1)"
    using serve_blocks [of new_block a1 reqs] rest(1) Cons.prems(4) good_blocks_prefix by fastforce
  then have "arena_inv a1 ((p, n) # given)" "al \<longrightarrow> p mod 8 = 0"
    using a1 n AllocateAligned_inv [OF Cons.prems(1) n, of new_block a1 p] Allocate_inv [OF Cons.prems(1) n(1), of new_block a1 p]
    by (auto split: if_splits)
  with Cons.IH [OF this(1) _ rest(1) Cons.prems(4)] Cons.prems(2) rest(2) show ?case by (auto simp: r)
qed simp

text \<open>
  C14: Memory of an arena is never handed out twice. Take any sequence of \<open>Allocate\<close> and \<open>AllocateAligned\<close>
  calls for sizes between one byte and \<open>2 ^ 64 - 8\<close> during which the blocks returned by \<open>new\<close> are disjoint,
  aligned and inside the address space. The regions handed out do not overlap, each lies inside a block the
  arena owns, the aligned ones start at a multiple of 8, and \<open>MemoryUsage\<close> is the total size of the
  blocks plus one pointer per block, in \<open>size_t\<close> arithmetic.
\<close>

theorem arena_regions_disjoint:
  assumes "\<forall>(al, n) \<in> set reqs. 0 < n \<and> n + 7 < 2 ^ 64" "serve new_block Arena_new reqs = (a, out)" "good_blocks (blocks a)"
  shows "(\<forall>i < length out. \<forall>j < i. apart (snd (out ! i)) (snd (out ! j))) \<and>
    (\<forall>(al, p, n) \<in> set out. (\<exists>b \<in> set (blocks a). within (p, n) b) \<and> (al \<longrightarrow> p mod 8 = 0)) \<and>
    map (\<lambda>(al, p, n). (al, n)) out = reqs \<and>
    MemoryUsage a = (\<Sum>b \<leftarrow> blocks a. snd b + 8) mod 2 ^ 64"
proof -
  have inv: "arena_inv a (rev (map snd out))" and al: "\<forall>(al, p, n) \<in> set out. al \<longrightarrow> p mod 8 = 0"
    and reqs: "map (\<lambda>(al, p, n). (al, n)) out = reqs"
    using serve_inv [OF arena_inv_new assms] by simp_all
  have "apart (snd (out ! i)) (snd (out ! j))" if "i < length out" "j < i" for i j
  proof -
    have "map snd out ! i \<noteq> map snd out ! j"
      using inv that nth_eq_iff_index_eq [of "map snd out" i j] by (simp add: arena_inv_def)
    then show ?thesis
      using inv that unfolding arena_inv_def by (auto simp: pairwise_def)
  qed
  with inv al reqs show ?thesis
    by (fastforce simp: arena_inv_def MemoryUsage_def)
qed

text \<open>A bump allocator, whose blocks are good as long as they stay below the end of the address space.\<close>

definition bump_new :: new_block where
  "bump_new live n = 8 * (\<Sum>b \<leftarrow> live. fst b + snd b)"

theorem arena_regions_disjoint_witness:
  "case serve bump_new Arena_new [(False, 3), (True, 16), (True, 5000)] of (a, out) \<Rightarrow>
     out = [(False, 0, 3), (True, 8, 16), (True, 32768, 5000)] \<and> apart (snd (out ! 1)) (snd (out ! 0)) \<and>
     MemoryUsage a = 4096 + 8 + (5000 + 8)"
proof -
  let ?reqs = "[(False, 3), (True, 16), (True, 5000)] :: (bool \<times> nat) list"
  obtain a out where r: "serve bump_new Arena_new ?reqs = (a, out)" by fastforce
  then have a: "blocks a = [(0, 4096), (32768, 5000)]" "out = [(False, 0, 3), (True, 8, 16), (True, 32768, 5000)]"
    by (auto simp: Arena_new_def Allocate_def AllocateAligned_def AllocateFallback_def AllocateNewBlock_def
        arena_kBlockSize_def bump_new_def size_add_def Let_def)
  have "good_blocks (blocks a)" by (simp add: a good_blocks_def apart_def)
  from arena_regions_disjoint [OF _ r this] have "\<forall>i < length out. \<forall>j < i. apart (snd (out ! i)) (snd (out ! j))"
    "MemoryUsage a = (\<Sum>b \<leftarrow> blocks a. snd b + 8) mod 2 ^ 64" by auto
  moreover from this(1) [rule_format, of 1 0] have "apart (snd (out ! 1)) (snd (out ! 0))" by (simp add: a)
  ultimately have "apart (snd (out ! 1)) (snd (out ! 0))" "MemoryUsage a = 4096 + 8 + (5000 + 8)" by (simp_all add: a)
  then show ?thesis unfolding r using a(2) by simp
qed

end
