(* ===== verification/Status.thy ===== *)
theory Status
  imports Coding
begin

text \<open>
  Result codes (\<open>include/leveldb/status.h\<close>, \<open>util/status.cc\<close>). As in the source a status is a pointer
  to a buffer, null for success: four bytes of message length, one byte of code, the message. The
  length is written by \<open>memcpy\<close> from a \<open>uint32_t\<close> and read back the same way; a little-endian machine
  is assumed, which no property depends on.
\<close>

datatype Code = kOk | kNotFound | kCorruption | kNotSupported | kInvalidArgument | kIOError

fun Code_num :: "Code \<Rightarrow> byte" where
  "Code_num kOk = 0"
| "Code_num kNotFound = 1"
| "Code_num kCorruption = 2"
| "Code_num kNotSupported = 3"
| "Code_num kInvalidArgument = 4"
| "Code_num kIOError = 5"

type_synonym Status = "bytes option"

definition Status_new :: "Code \<Rightarrow> slice \<Rightarrow> slice \<Rightarrow> Status" where
  "Status_new code msg msg2 =
     (let len1 = of_nat (length msg) :: u32;
          len2 = of_nat (length msg2) :: u32;
          size = len1 + (if len2 \<noteq> 0 then 2 + len2 else 0)
      in Some (EncodeFixed32 size @ [Code_num code] @ take (unat len1) msg @
           (if len2 \<noteq> 0 then str '': '' @ take (unat len2) msg2 else [])))"

definition OK :: Status where "OK = None"

definition NotFound :: "slice \<Rightarrow> slice \<Rightarrow> Status" where
  "NotFound msg msg2 = Status_new kNotFound msg msg2"

definition Corruption :: "slice \<Rightarrow> slice \<Rightarrow> Status" where
  "Corruption msg msg2 = Status_new kCorruption msg msg2"

definition NotSupported :: "slice \<Rightarrow> slice \<Rightarrow> Status" where
  "NotSupported msg msg2 = Status_new kNotSupported msg msg2"

definition InvalidArgument :: "slice \<Rightarrow> slice \<Rightarrow> Status" where
  "InvalidArgument msg msg2 = Status_new kInvalidArgument msg msg2"

definition IOError :: "slice \<Rightarrow> slice \<Rightarrow> Status" where
  "IOError msg msg2 = Status_new kIOError msg msg2"

definition Status_ok :: "Status \<Rightarrow> bool" where "Status_ok s \<longleftrightarrow> s = None"

definition Status_code :: "Status \<Rightarrow> byte" where
  "Status_code s = (case s of None \<Rightarrow> Code_num kOk | Some state \<Rightarrow> state ! 4)"

definition IsNotFound :: "Status \<Rightarrow> bool" where "IsNotFound s \<longleftrightarrow> Status_code s = Code_num kNotFound"
definition IsCorruption :: "Status \<Rightarrow> bool" where "IsCorruption s \<longleftrightarrow> Status_code s = Code_num kCorruption"
definition IsIOError :: "Status \<Rightarrow> bool" where "IsIOError s \<longleftrightarrow> Status_code s = Code_num kIOError"
definition IsNotSupportedError :: "Status \<Rightarrow> bool" where
  "IsNotSupportedError s \<longleftrightarrow> Status_code s = Code_num kNotSupported"
definition IsInvalidArgument :: "Status \<Rightarrow> bool" where
  "IsInvalidArgument s \<longleftrightarrow> Status_code s = Code_num kInvalidArgument"

definition CopyState :: "bytes \<Rightarrow> bytes" where
  "CopyState state = take (unat (DecodeFixed32 state + 5)) state"

definition Status_copy :: "Status \<Rightarrow> Status" where
  "Status_copy rhs = (case rhs of None \<Rightarrow> None | Some state \<Rightarrow> Some (CopyState state))"

definition ToString :: "Status \<Rightarrow> bytes" where
  "ToString s =
     (case s of
        None \<Rightarrow> str ''OK''
      | Some state \<Rightarrow>
          let c = Status_code s;
              type = (if c = Code_num kOk then str ''OK''
                      else if c = Code_num kNotFound then str ''NotFound: ''
                      else if c = Code_num kCorruption then str ''Corruption: ''
                      else if c = Code_num kNotSupported then str ''Not implemented: ''
                      else if c = Code_num kInvalidArgument then str ''Invalid argument: ''
                      else if c = Code_num kIOError then str ''IO error: ''
                      else str ''Unknown code('' @ decimal_int (sint c) @ str ''): '');
              len = DecodeFixed32 state
          in type @ take (unat len) (drop 5 state))"

subsection \<open>Properties\<close>

lemma Code_num_inject [simp]: "Code_num a = Code_num b \<longleftrightarrow> a = b"
  by (cases a; cases b) simp_all

lemma code_Status_new [simp]: "Status_code (Status_new c m m2) = Code_num c"
  by (simp add: Status_code_def Status_new_def Let_def nth_append)

lemma code_OK [simp]: "Status_code OK = Code_num kOk"
  by (simp add: Status_code_def OK_def)

lemma ok_simps [simp]: "Status_ok OK" "\<not> Status_ok (Status_new c m m2)"
  by (simp_all add: Status_ok_def OK_def Status_new_def Let_def)

lemmas status_constructors = NotFound_def Corruption_def NotSupported_def InvalidArgument_def IOError_def
lemmas status_tests = IsNotFound_def IsCorruption_def IsIOError_def IsNotSupportedError_def IsInvalidArgument_def

lemma ok_errors [simp]:
  "\<not> Status_ok (NotFound m n)" "\<not> Status_ok (Corruption m n)" "\<not> Status_ok (NotSupported m n)"
  "\<not> Status_ok (InvalidArgument m n)" "\<not> Status_ok (IOError m n)"
  by (simp_all add: status_constructors)

lemma error_kinds [simp]:
  "IsNotFound (NotFound m n)" "IsCorruption (Corruption m n)" "\<not> IsNotFound (Corruption m n)"
  "\<not> IsNotFound OK" "\<not> IsCorruption OK" "\<not> IsCorruption (NotFound m n)" "IsIOError (IOError m n)"
  by (simp_all add: status_constructors status_tests)

lemma ok_iff_OK: "Status_ok s \<longleftrightarrow> s = OK"
  by (simp add: Status_ok_def OK_def)

lemma error_not_OK [simp]:
  "NotFound m n \<noteq> OK" "Corruption m n \<noteq> OK" "NotSupported m n \<noteq> OK" "InvalidArgument m n \<noteq> OK" "IOError m n \<noteq> OK"
  by (metis ok_errors ok_simps(1))+

definition status_message :: "slice \<Rightarrow> slice \<Rightarrow> bytes" where
  "status_message msg msg2 = msg @ (if msg2 = [] then [] else str '': '' @ msg2)"

lemma Status_new_layout:
  assumes "length msg + length msg2 + 7 < 2 ^ 32"
  shows "Status_new c msg msg2 =
    Some (EncodeFixed32 (of_nat (length (status_message msg msg2))) @ [Code_num c] @ status_message msg msg2)"
proof -
  have "of_nat (length msg2) = (0 :: u32) \<longleftrightarrow> msg2 = []"
    using assms by (simp add: word_unat_eq_iff unat_of_nat)
  then show ?thesis
    using assms by (simp add: Status_new_def Let_def status_message_def unat_of_nat str_def)
qed

text \<open>
  A status keeps its code and its message. For messages that fit the four-byte length, the status
  that an error constructor makes is not \<open>ok()\<close>, has the code it was made with, prints as the name of the
  code followed by the message (the two parts joined by a colon), and a copy of it is the same status.
\<close>

theorem status_roundtrip:
  assumes "length msg + length msg2 + 12 < 2 ^ 32"
  shows "\<not> Status_ok (Status_new c msg msg2) \<and> Status_code (Status_new c msg msg2) = Code_num c \<and>
    Status_copy (Status_new c msg msg2) = Status_new c msg msg2 \<and>
    (c = kCorruption \<longrightarrow> ToString (Status_new c msg msg2) =
       str ''Corruption: '' @ msg @ (if msg2 = [] then [] else str '': '' @ msg2)) \<and>
    (c = kNotFound \<longrightarrow> ToString (Status_new c msg msg2) =
       str ''NotFound: '' @ msg @ (if msg2 = [] then [] else str '': '' @ msg2)) \<and>
    (c = kIOError \<longrightarrow> ToString (Status_new c msg msg2) =
       str ''IO error: '' @ msg @ (if msg2 = [] then [] else str '': '' @ msg2))"
proof -
  let ?m = "status_message msg msg2"
  have short: "length ?m + 5 < 2 ^ 32" using assms by (simp add: status_message_def str_def)
  have layout: "Status_new c msg msg2 = Some (EncodeFixed32 (of_nat (length ?m)) @ [Code_num c] @ ?m)"
    using assms by (intro Status_new_layout) simp
  have "unat (of_nat (length ?m) + 5 :: u32) = length ?m + 5"
    using short by (simp add: unat_word_ariths unat_of_nat)
  then have "Status_copy (Status_new c msg msg2) = Status_new c msg msg2"
    unfolding layout Status_copy_def CopyState_def by simp
  moreover have "ToString (Status_new k msg msg2) = str name @ ?m"
    if "(k, name) \<in> {(kCorruption, ''Corruption: ''), (kNotFound, ''NotFound: ''), (kIOError, ''IO error: '')}" for k name
    using that short assms Status_new_layout [of msg msg2 k] code_Status_new [of k msg msg2]
    by (auto simp: ToString_def Let_def unat_of_nat)
  ultimately show ?thesis by (simp add: status_message_def)
qed

theorem status_roundtrip_witness:
  "IsCorruption (Corruption (str ''bad block'') (str ''f'')) \<and>
   ToString (Corruption (str ''bad block'') (str ''f'')) = str ''Corruption: bad block: f''"
  using status_roundtrip [of "str ''bad block''" "str ''f''" kCorruption]
  by (simp add: Corruption_def IsCorruption_def str_def)

end
