(* ===== verification/Iterators.thy ===== *)
theory Iterators
  imports Status Comparator "HOL-Library.Multiset"
begin

text \<open>
  The abstract class \<open>Iterator\<close> (\<open>include/leveldb/iterator.h\<close>, \<open>table/iterator.cc\<close>) and the caching
  \<open>IteratorWrapper\<close> (\<open>table/iterator_wrapper.h\<close>). The class is the record of its virtual functions over
  a type of states; a function that moves the iterator returns the new state, \<open>None\<close> if it would not
  return. The contract every implementation keeps is the locale \<open>sorted_iterator\<close>: the iterator shows
  a fixed list of key-value pairs with strictly increasing keys and stands at an index of it.
\<close>

subsection \<open>The class\<close>

record 's Iterator =
  it_Valid :: "'s \<Rightarrow> bool"
  it_SeekToFirst :: "'s \<Rightarrow> 's option"
  it_SeekToLast :: "'s \<Rightarrow> 's option"
  it_Seek :: "'s \<Rightarrow> slice \<Rightarrow> 's option"
  it_Next :: "'s \<Rightarrow> 's option"
  it_Prev :: "'s \<Rightarrow> 's option"
  it_key :: "'s \<Rightarrow> slice"
  it_value :: "'s \<Rightarrow> slice"
  it_status :: "'s \<Rightarrow> Status"

text \<open>
  Cleanup functions, each with its two arguments, abstractly of type \<open>'f\<close>: the head node is inlined
  in the iterator and later nodes are linked in behind it.
\<close>

record 'f Cleanups =
  cleanup_head :: "'f option"
  cleanup_next :: "'f list"

definition Cleanups_new :: "'f Cleanups" where
  "Cleanups_new = \<lparr>cleanup_head = None, cleanup_next = []\<rparr>"

definition RegisterCleanup :: "'f Cleanups \<Rightarrow> 'f \<Rightarrow> 'f Cleanups" where
  "RegisterCleanup c f =
     (if cleanup_head c = None then c\<lparr>cleanup_head := Some f\<rparr>
      else c\<lparr>cleanup_next := f # cleanup_next c\<rparr>)"

text \<open>What the destructor runs, in order.\<close>

definition Iterator_destroy :: "'f Cleanups \<Rightarrow> 'f list" where
  "Iterator_destroy c = (case cleanup_head c of None \<Rightarrow> [] | Some f \<Rightarrow> f # cleanup_next c)"

text \<open>An iterator over nothing is its status.\<close>

definition EmptyIterator :: "Status Iterator" where
  "EmptyIterator =
     \<lparr>it_Valid = \<lambda>s. False, it_SeekToFirst = Some, it_SeekToLast = Some, it_Seek = \<lambda>s target. Some s,
      it_Next = Some, it_Prev = Some, it_key = \<lambda>s. [], it_value = \<lambda>s. [], it_status = \<lambda>s. s\<rparr>"

definition NewEmptyIterator :: Status where "NewEmptyIterator = OK"

definition NewErrorIterator :: "Status \<Rightarrow> Status" where "NewErrorIterator status = status"

subsection \<open>The contract\<close>

locale sorted_iterator =
  fixes I :: "'s Iterator" and cmp :: "slice \<Rightarrow> slice \<Rightarrow> int" and ok :: "slice \<Rightarrow> bool"
    and kvs :: "(slice \<times> slice) list" and inv :: "'s \<Rightarrow> bool" and at :: "'s \<Rightarrow> nat \<Rightarrow> bool"
  assumes at_inv: "at s i \<Longrightarrow> inv s \<and> i \<le> length kvs"
    and at_valid: "at s i \<Longrightarrow> it_Valid I s \<longleftrightarrow> i < length kvs"
    and at_key: "at s i \<Longrightarrow> i < length kvs \<Longrightarrow> it_key I s = fst (kvs ! i)"
    and at_value: "at s i \<Longrightarrow> i < length kvs \<Longrightarrow> it_value I s = snd (kvs ! i)"
    and at_next: "at s i \<Longrightarrow> i < length kvs \<Longrightarrow> \<exists>s'. it_Next I s = Some s' \<and> at s' (i + 1)"
    and at_prev: "at s i \<Longrightarrow> i < length kvs \<Longrightarrow>
      \<exists>s'. it_Prev I s = Some s' \<and> at s' (if i = 0 then length kvs else i - 1)"
    and at_first: "inv s \<Longrightarrow> \<exists>s'. it_SeekToFirst I s = Some s' \<and> at s' 0"
    and at_last: "inv s \<Longrightarrow> \<exists>s'. it_SeekToLast I s = Some s' \<and> at s' (length kvs - 1)"
    and at_seek: "inv s \<Longrightarrow> ok t \<Longrightarrow>
      \<exists>s'. it_Seek I s t = Some s' \<and> at s' (length (takeWhile (\<lambda>kv. cmp (fst kv) t < 0) kvs))"
    and at_status: "inv s \<Longrightarrow> it_status I s = OK"
    and keys_ok: "kv \<in> set kvs \<Longrightarrow> ok (fst kv)"
    and keys_sorted: "sorted_wrt (\<lambda>a b. cmp (fst a) (fst b) < 0) kvs"

text \<open>A full scan: the loop \<open>for (iter->SeekToFirst(); iter->Valid(); iter->Next())\<close> of the clients.\<close>

partial_function (option) scan_from :: "'s Iterator \<Rightarrow> 's \<Rightarrow> (slice \<times> slice) list option" where
  "scan_from I s =
     (if it_Valid I s then do {
        s' \<leftarrow> it_Next I s;
        rest \<leftarrow> scan_from I s';
        Some ((it_key I s, it_value I s) # rest)
      } else Some [])"

definition scan :: "'s Iterator \<Rightarrow> 's \<Rightarrow> (slice \<times> slice) list option" where
  "scan I s = do { s' \<leftarrow> it_SeekToFirst I s; scan_from I s' }"

context sorted_iterator
begin

lemma scan_from_at: "at s i \<Longrightarrow> scan_from I s = Some (drop i kvs)"
proof (induction "length kvs - i" arbitrary: s i)
  case 0
  then have "\<not> it_Valid I s" using at_inv at_valid [of s i] by fastforce
  then show ?case using 0 by (subst scan_from.simps) simp
next
  case (Suc n)
  then have i: "i < length kvs" by simp
  obtain s' where s': "it_Next I s = Some s'" "at s' (i + 1)" using at_next [OF Suc.prems i] by blast
  have "scan_from I s' = Some (drop (i + 1) kvs)" using Suc.hyps s'(2) by (intro Suc.hyps(1)) auto
  then show ?case
    using at_valid [OF Suc.prems] i s'(1) at_key [OF Suc.prems i] at_value [OF Suc.prems i]
    by (subst scan_from.simps) (simp add: Cons_nth_drop_Suc)
qed

lemma scan_all: "inv s \<Longrightarrow> scan I s = Some kvs"
  using at_first [of s] scan_from_at by (auto simp: scan_def)

lemma seek_scan:
  assumes "inv s" "ok t"
  shows "\<exists>s'. it_Seek I s t = Some s' \<and> scan_from I s' = Some (dropWhile (\<lambda>kv. cmp (fst kv) t < 0) kvs)"
  using at_seek [OF assms] scan_from_at takeWhile_dropWhile_index(2) [of "\<lambda>kv. cmp (fst kv) t < 0" kvs] by fastforce

end

interpretation empty_iterator: sorted_iterator EmptyIterator cmp ok "[]" "\<lambda>s. s = OK" "\<lambda>s i. s = OK \<and> i = 0"
  for cmp ok
  by unfold_locales (auto simp: EmptyIterator_def)

lemma cleanups_run_once:
  "mset (Iterator_destroy (fold (\<lambda>f c. RegisterCleanup c f) fs Cleanups_new)) = mset fs"
proof -
  have step: "mset (Iterator_destroy (fold (\<lambda>f c. RegisterCleanup c f) fs c)) = mset (Iterator_destroy c) + mset fs"
    if "cleanup_head c = None \<longrightarrow> cleanup_next c = []" for c :: "'a Cleanups"
    using that
  proof (induction fs arbitrary: c)
    case (Cons f fs)
    have "mset (Iterator_destroy (RegisterCleanup c f)) = mset (Iterator_destroy c) + {#f#}"
      using Cons.prems by (auto simp: RegisterCleanup_def Iterator_destroy_def split: option.splits)
    moreover have "cleanup_head (RegisterCleanup c f) = None \<longrightarrow> cleanup_next (RegisterCleanup c f) = []"
      by (simp add: RegisterCleanup_def)
    ultimately show ?case using Cons.IH [of "RegisterCleanup c f"] by simp
  qed simp
  show ?thesis using step [of Cleanups_new] by (simp add: Cleanups_new_def Iterator_destroy_def)
qed

subsection \<open>The caching wrapper\<close>

record 's IteratorWrapper =
  w_iter :: "'s option"
  w_valid :: bool
  w_key :: slice

definition Wrapper_Update :: "'s Iterator \<Rightarrow> 's IteratorWrapper \<Rightarrow> 's IteratorWrapper" where
  "Wrapper_Update I w =
     (let w = w\<lparr>w_valid := it_Valid I (the (w_iter w))\<rparr>
      in if w_valid w then w\<lparr>w_key := it_key I (the (w_iter w))\<rparr> else w)"

definition Wrapper_empty :: "'s IteratorWrapper" where
  "Wrapper_empty = \<lparr>w_iter = None, w_valid = False, w_key = []\<rparr>"

definition Wrapper_Set :: "'s Iterator \<Rightarrow> 's IteratorWrapper \<Rightarrow> 's option \<Rightarrow> 's IteratorWrapper" where
  "Wrapper_Set I w iter =
     (let w = w\<lparr>w_iter := iter\<rparr>
      in if w_iter w = None then w\<lparr>w_valid := False\<rparr> else Wrapper_Update I w)"

definition Wrapper_move :: "'s Iterator \<Rightarrow> 's IteratorWrapper \<Rightarrow> 's option \<Rightarrow> 's IteratorWrapper option" where
  "Wrapper_move I w moved =
     (case moved of None \<Rightarrow> None | Some s \<Rightarrow> Some (Wrapper_Update I (w\<lparr>w_iter := Some s\<rparr>)))"

definition WrapperIterator :: "'s Iterator \<Rightarrow> 's IteratorWrapper Iterator" where
  "WrapperIterator I =
     \<lparr>it_Valid = w_valid,
      it_SeekToFirst = \<lambda>w. Wrapper_move I w (it_SeekToFirst I (the (w_iter w))),
      it_SeekToLast = \<lambda>w. Wrapper_move I w (it_SeekToLast I (the (w_iter w))),
      it_Seek = \<lambda>w k. Wrapper_move I w (it_Seek I (the (w_iter w)) k),
      it_Next = \<lambda>w. Wrapper_move I w (it_Next I (the (w_iter w))),
      it_Prev = \<lambda>w. Wrapper_move I w (it_Prev I (the (w_iter w))),
      it_key = w_key,
      it_value = \<lambda>w. it_value I (the (w_iter w)),
      it_status = \<lambda>w. it_status I (the (w_iter w))\<rparr>"

text \<open>The cached fields agree with the iterator.\<close>

definition wrapper_fresh :: "'s Iterator \<Rightarrow> 's IteratorWrapper \<Rightarrow> bool" where
  "wrapper_fresh I w \<longleftrightarrow>
     (case w_iter w of None \<Rightarrow> \<not> w_valid w
      | Some s \<Rightarrow> w_valid w = it_Valid I s \<and> (w_valid w \<longrightarrow> w_key w = it_key I s))"

lemma Wrapper_Update_fresh: "w_iter w = Some s \<Longrightarrow> wrapper_fresh I (Wrapper_Update I w) \<and> w_iter (Wrapper_Update I w) = Some s"
  by (simp add: wrapper_fresh_def Wrapper_Update_def Let_def)

lemma Wrapper_Set_fresh: "wrapper_fresh I (Wrapper_Set I w iter) \<and> w_iter (Wrapper_Set I w iter) = iter"
  using Wrapper_Update_fresh [of "w\<lparr>w_iter := iter\<rparr>" _ I]
  by (cases iter) (auto simp: Wrapper_Set_def Let_def wrapper_fresh_def)

lemma Wrapper_move_fresh:
  "\<exists>s'. moved = Some s' \<and> P s' \<Longrightarrow>
   \<exists>w'. Wrapper_move I w moved = Some w' \<and> wrapper_fresh I w' \<and> (\<exists>s'. w_iter w' = Some s' \<and> P s')"
  using Wrapper_Update_fresh [of "w\<lparr>w_iter := moved\<rparr>" _ I] by (auto simp: Wrapper_move_def)

context sorted_iterator
begin

lemma wrapper_sorted_iterator:
  "sorted_iterator (WrapperIterator I) cmp ok kvs
     (\<lambda>w. wrapper_fresh I w \<and> (\<exists>s. w_iter w = Some s \<and> inv s))
     (\<lambda>w i. wrapper_fresh I w \<and> (\<exists>s. w_iter w = Some s \<and> at s i))"
proof unfold_locales
  fix w i
  assume "wrapper_fresh I w \<and> (\<exists>s. w_iter w = Some s \<and> at s i)"
  then obtain s where w: "wrapper_fresh I w" "w_iter w = Some s" and s: "at s i" by blast
  show "(wrapper_fresh I w \<and> (\<exists>s. w_iter w = Some s \<and> inv s)) \<and> i \<le> length kvs"
    using w at_inv [OF s] by blast
  show "it_Valid (WrapperIterator I) w \<longleftrightarrow> i < length kvs"
    using w at_valid [OF s] by (simp add: WrapperIterator_def wrapper_fresh_def)
  assume i: "i < length kvs"
  show "it_key (WrapperIterator I) w = fst (kvs ! i)" "it_value (WrapperIterator I) w = snd (kvs ! i)"
    using w i at_valid [OF s] at_key [OF s] at_value [OF s] by (simp_all add: WrapperIterator_def wrapper_fresh_def)
  show "\<exists>w'. it_Next (WrapperIterator I) w = Some w' \<and> wrapper_fresh I w' \<and> (\<exists>s. w_iter w' = Some s \<and> at s (i + 1))"
    using Wrapper_move_fresh [OF at_next [OF s i]] w(2) by (simp add: WrapperIterator_def)
  show "\<exists>w'. it_Prev (WrapperIterator I) w = Some w' \<and> wrapper_fresh I w' \<and>
      (\<exists>s. w_iter w' = Some s \<and> at s (if i = 0 then length kvs else i - 1))"
    using Wrapper_move_fresh [OF at_prev [OF s i]] w(2) by (simp add: WrapperIterator_def)
next
  fix w t
  assume "wrapper_fresh I w \<and> (\<exists>s. w_iter w = Some s \<and> inv s)"
  then obtain s where w: "w_iter w = Some s" and s: "inv s" by blast
  show "\<exists>w'. it_SeekToFirst (WrapperIterator I) w = Some w' \<and> wrapper_fresh I w' \<and> (\<exists>s. w_iter w' = Some s \<and> at s 0)"
    using Wrapper_move_fresh [OF at_first [OF s]] w by (simp add: WrapperIterator_def)
  show "\<exists>w'. it_SeekToLast (WrapperIterator I) w = Some w' \<and> wrapper_fresh I w' \<and>
      (\<exists>s. w_iter w' = Some s \<and> at s (length kvs - 1))"
    using Wrapper_move_fresh [OF at_last [OF s]] w by (simp add: WrapperIterator_def)
  show "it_status (WrapperIterator I) w = OK" using at_status [OF s] w by (simp add: WrapperIterator_def)
  assume t: "ok t"
  show "\<exists>w'. it_Seek (WrapperIterator I) w t = Some w' \<and> wrapper_fresh I w' \<and>
      (\<exists>s. w_iter w' = Some s \<and> at s (length (takeWhile (\<lambda>kv. cmp (fst kv) t < 0) kvs)))"
    using Wrapper_move_fresh [OF at_seek [OF s t]] w by (simp add: WrapperIterator_def)
qed (use keys_ok keys_sorted in blast)+

end

end
