(* ===== verification/Memtable.thy ===== *)
theory Memtable
  imports Dbformat Skiplist Arena Iterators
begin

text \<open>
  The memtable (\<open>db/memtable.h\<close>, \<open>db/memtable.cc\<close>): a skip list of encoded entries. The keys of the skip
  list are pointers to entries in the arena; a pointer is modelled by the bytes of the entry it points
  to. An entry is never read past its end: the limit \<open>p + 5\<close> of \<open>GetVarint32Ptr\<close> does not cut a varint.
\<close>

subsection \<open>Data and operations\<close>

text \<open>
  The static \<open>GetLengthPrefixedSlice(const char*)\<close> of the file. Its input is never corrupt; for a corrupt
  one the source would build a slice from a null pointer.
\<close>

definition GetLengthPrefixedSlice_data :: "bytes \<Rightarrow> slice" where
  "GetLengthPrefixedSlice_data data =
     (case GetVarint32Ptr data of None \<Rightarrow> [] | Some (len, p) \<Rightarrow> take (unat len) p)"

record MemTable =
  mem_refs :: int
  mem_arena :: Arena
  mem_table :: "bytes SkipList"

text \<open>Bytes of a skip list node: key and one link, and a further link for each level above the first.\<close>

definition Node_size :: "nat \<Rightarrow> nat" where
  "Node_size h = 16 + 8 * (h - 1)"

definition MemTable_new :: "new_block \<Rightarrow> MemTable" where
  "MemTable_new new_block =
     \<lparr>mem_refs = 0, mem_arena = fst (AllocateAligned new_block Arena_new (Node_size kMaxHeight)),
      mem_table = SkipList_new []\<rparr>"

definition MemTable_Ref :: "MemTable \<Rightarrow> MemTable" where
  "MemTable_Ref m = m\<lparr>mem_refs := mem_refs m + 1\<rparr>"

text \<open>\<open>None\<close> once the table is deleted.\<close>

definition MemTable_Unref :: "MemTable \<Rightarrow> MemTable option" where
  "MemTable_Unref m =
     (let m = m\<lparr>mem_refs := mem_refs m - 1\<rparr> in if mem_refs m \<le> 0 then None else Some m)"

definition ApproximateMemoryUsage :: "MemTable \<Rightarrow> nat" where
  "ApproximateMemoryUsage m = MemoryUsage (mem_arena m)"

definition KeyComparator :: "(slice \<Rightarrow> slice \<Rightarrow> int) \<Rightarrow> bytes \<Rightarrow> bytes \<Rightarrow> int" where
  "KeyComparator user_compare aptr bptr =
     InternalKeyComparator_Compare user_compare
       (GetLengthPrefixedSlice_data aptr) (GetLengthPrefixedSlice_data bptr)"

definition EncodeKey :: "slice \<Rightarrow> bytes" where
  "EncodeKey target = PutVarint32 [] (of_nat (length target)) @ target"

definition MemTableIterator :: "(slice \<Rightarrow> slice \<Rightarrow> int) \<Rightarrow> bytes SkipList \<Rightarrow> iter Iterator" where
  "MemTableIterator user_compare l =
     \<lparr>it_Valid = Iterator_Valid,
      it_SeekToFirst = \<lambda>it. Some (Iterator_SeekToFirst l),
      it_SeekToLast = \<lambda>it. Iterator_SeekToLast l,
      it_Seek = \<lambda>it k. Iterator_Seek (KeyComparator user_compare) l (EncodeKey k),
      it_Next = \<lambda>it. Some (Iterator_Next l it),
      it_Prev = \<lambda>it. Iterator_Prev (KeyComparator user_compare) l it,
      it_key = \<lambda>it. GetLengthPrefixedSlice_data (Iterator_key l it),
      it_value = \<lambda>it.
        (case GetVarint32Ptr (Iterator_key l it) of
           None \<Rightarrow> []
         | Some (len, p) \<Rightarrow> GetLengthPrefixedSlice_data (drop (unat len) p)),
      it_status = \<lambda>it. OK\<rparr>"

definition MemTable_Add ::
  "new_block \<Rightarrow> (slice \<Rightarrow> slice \<Rightarrow> int) \<Rightarrow> MemTable \<Rightarrow> SequenceNumber \<Rightarrow> ValueType \<Rightarrow> slice \<Rightarrow> slice \<Rightarrow>
   MemTable option" where
  "MemTable_Add new_block user_compare m s type key value =
     (let key_size = length key;
          val_size = length value;
          internal_key_size = key_size + 8;
          encoded_len = VarintLength (of_nat internal_key_size) + internal_key_size +
            VarintLength (of_nat val_size) + val_size;
          (arena, _) = Allocate new_block (mem_arena m) encoded_len;
          buf = EncodeVarint32 (of_nat internal_key_size) @ key @
            EncodeFixed64 (push_bit 8 s OR ValueType_code type) @
            EncodeVarint32 (of_nat val_size) @ value
      in case Insert (KeyComparator user_compare) (mem_table m) buf of
           None \<Rightarrow> None
         | Some table \<Rightarrow>
             let node_bytes = Node_size (length (node_next (last (nodes table))));
                 (arena, _) = AllocateAligned new_block arena node_bytes
             in Some (m\<lparr>mem_arena := arena, mem_table := table\<rparr>))"

text \<open>\<open>Get\<close> returns whether the key was decided, the value and the status; \<open>None\<close> if the seek did not return.\<close>

definition MemTable_Get ::
  "(slice \<Rightarrow> slice \<Rightarrow> int) \<Rightarrow> MemTable \<Rightarrow> LookupKey \<Rightarrow> bytes \<Rightarrow> Status \<Rightarrow> (bool \<times> bytes \<times> Status) option" where
  "MemTable_Get user_compare m key value s =
     (let memkey = LookupKey_memtable_key key in
      case Iterator_Seek (KeyComparator user_compare) (mem_table m) memkey of
        None \<Rightarrow> None
      | Some it \<Rightarrow>
          Some (if Iterator_Valid it then
            let entry = Iterator_key (mem_table m) it in
            case GetVarint32Ptr entry of
              None \<Rightarrow> (False, value, s)
            | Some (key_length, key_ptr) \<Rightarrow>
                if user_compare (take (unat key_length - 8) key_ptr) (LookupKey_user_key key) = 0 then
                  let tag = DecodeFixed64 (drop (unat key_length - 8) key_ptr);
                      type = tag AND 0xff
                  in if type = ValueType_code kTypeValue then
                       (True, GetLengthPrefixedSlice_data (drop (unat key_length) key_ptr), s)
                     else if type = ValueType_code kTypeDeletion then (True, value, NotFound [] [])
                     else (False, value, s)
                else (False, value, s)
          else (False, value, s)))"

subsection \<open>Entries\<close>

definition entry_of :: "slice \<times> slice \<Rightarrow> bytes" where
  "entry_of kv = PutLengthPrefixedSlice [] (fst kv) @ PutLengthPrefixedSlice [] (snd kv)"

definition entry_ok :: "(slice \<Rightarrow> bool) \<Rightarrow> bytes \<Rightarrow> bool" where
  "entry_ok ok e \<longleftrightarrow>
     (\<exists>ik rest. e = PutLengthPrefixedSlice [] ik @ rest \<and> length ik < 2 ^ 32 \<and> internal_ok ok ik)"

lemma PutLengthPrefixedSlice_Nil: "PutLengthPrefixedSlice [] k = EncodeVarint32 (of_nat (length k)) @ k"
  by (simp add: PutLengthPrefixedSlice_def PutVarint32_def)

lemma GetVarint32Ptr_Put [simp]:
  "GetVarint32Ptr (PutLengthPrefixedSlice [] k @ rest) = Some (of_nat (length k), k @ rest)"
  by (simp add: PutLengthPrefixedSlice_Nil)

lemma GetLengthPrefixedSlice_data_Put [simp]:
  "length k < 2 ^ 32 \<Longrightarrow> GetLengthPrefixedSlice_data (PutLengthPrefixedSlice [] k @ rest) = k"
  by (simp add: GetLengthPrefixedSlice_data_def unat_of_nat)

lemma GetLengthPrefixedSlice_data_entry [simp]:
  "length (fst kv) < 2 ^ 32 \<Longrightarrow> GetLengthPrefixedSlice_data (entry_of kv) = fst kv"
  by (simp add: entry_of_def)

lemma entry_okD: "entry_ok ok e \<Longrightarrow> internal_ok ok (GetLengthPrefixedSlice_data e)"
  by (auto simp: entry_ok_def)

lemma EncodeKey_eq: "EncodeKey k = PutLengthPrefixedSlice [] k @ []"
  by (simp add: EncodeKey_def PutLengthPrefixedSlice_def)

lemma GetLengthPrefixedSlice_data_EncodeKey [simp]:
  "length k < 2 ^ 32 \<Longrightarrow> GetLengthPrefixedSlice_data (EncodeKey k) = k"
  unfolding EncodeKey_eq by (rule GetLengthPrefixedSlice_data_Put)

text \<open>The length \<open>Add\<close> allocates is the length of what it writes.\<close>

lemma encoded_len_exact:
  assumes "length key + 8 < 2 ^ 32" "length value < 2 ^ 32"
  shows "length (entry_of (InternalKey key s t, value)) =
    VarintLength (of_nat (length key + 8)) + (length key + 8) + VarintLength (of_nat (length value)) + length value"
proof -
  have *: "length (EncodeVarint32 (of_nat n)) = VarintLength (of_nat n)" if "n < 2 ^ 32" for n
  proof -
    have "(ucast (of_nat n :: u32) :: u64) = of_nat n"
      using that by (simp add: word_unat_eq_iff unat_ucast_le unat_of_nat)
    then show ?thesis by (simp add: EncodeVarint32_eq_EncodeVarint64 VarintLength_eq)
  qed
  show ?thesis
    using assms * [of "length key + 8"] * [of "length value"] by (simp add: entry_of_def PutLengthPrefixedSlice_Nil InternalKey_eq add.commute)
qed

subsection \<open>Contents\<close>

definition mem_holds ::
  "(slice \<Rightarrow> slice \<Rightarrow> int) \<Rightarrow> (slice \<Rightarrow> bool) \<Rightarrow> bytes SkipList \<Rightarrow> (slice \<times> slice) list \<Rightarrow> bool" where
  "mem_holds ucmp ok l kvs \<longleftrightarrow>
     skip_holds (KeyComparator ucmp) (entry_ok ok) l (map entry_of kvs) \<and>
     (\<forall>kv \<in> set kvs. length (fst kv) < 2 ^ 32 \<and> length (snd kv) < 2 ^ 32 \<and> internal_ok ok (fst kv))"

definition mem_at ::
  "(slice \<Rightarrow> slice \<Rightarrow> int) \<Rightarrow> (slice \<Rightarrow> bool) \<Rightarrow> bytes SkipList \<Rightarrow> (slice \<times> slice) list \<Rightarrow> iter \<Rightarrow> nat \<Rightarrow> bool" where
  "mem_at ucmp ok l kvs it i \<longleftrightarrow> mem_holds ucmp ok l kvs \<and> i \<le> length kvs \<and>
     skip_at (KeyComparator ucmp) (entry_ok ok) l it (map entry_of (take i kvs)) (map entry_of (drop i kvs))"

lemma skip_holds_sorted:
  "skip_holds cmp ok l ks \<Longrightarrow> sorted_wrt (\<lambda>a b. cmp a b < 0) ks"
  unfolding skip_holds_def skiplist_inv_def by (auto simp: sorted_wrt_map)

context user_comparator
begin

lemma entry_compare:
  "length (fst a) < 2 ^ 32 \<Longrightarrow> length (fst b) < 2 ^ 32 \<Longrightarrow>
   KeyComparator Compare (entry_of a) (entry_of b) = InternalKeyComparator_Compare Compare (fst a) (fst b)"
  by (simp add: KeyComparator_def)

lemma entry_weak_order: "weak_order (KeyComparator Compare) (entry_ok ok)"
proof
  fix a b c
  assume a: "entry_ok ok a" and b: "entry_ok ok b"
  show "KeyComparator Compare b a < 0 \<longleftrightarrow> 0 < KeyComparator Compare a b"
    unfolding KeyComparator_def
    by (rule internal.weak.cmp_antisym) (use entry_okD [OF a] entry_okD [OF b] in simp_all)
  assume c: "entry_ok ok c" and "KeyComparator Compare a b \<le> 0" "KeyComparator Compare b c \<le> 0"
  then show "KeyComparator Compare a c \<le> 0"
    unfolding KeyComparator_def
    using internal.weak.cmp_le_trans entry_okD [OF a] entry_okD [OF b] entry_okD [OF c] by meson
qed

lemma mem_holds_new: "mem_holds Compare ok (SkipList_new []) []"
  by (simp add: mem_holds_def skip_holds_new)

lemma entry_of_ok:
  "length (fst kv) < 2 ^ 32 \<Longrightarrow> internal_ok ok (fst kv) \<Longrightarrow> entry_ok ok (entry_of kv)"
  unfolding entry_ok_def entry_of_def by blast

lemma key_ok: "length k < 2 ^ 32 \<Longrightarrow> internal_ok ok k \<Longrightarrow> entry_ok ok (EncodeKey k)"
  unfolding entry_ok_def EncodeKey_eq by blast

lemma take_entries:
  assumes "mem_holds Compare ok l kvs" "length k < 2 ^ 32"
  shows "takeWhile (\<lambda>e. KeyComparator Compare e (EncodeKey k) < 0) (map entry_of kvs)
      = map entry_of (takeWhile (\<lambda>kv. InternalKeyComparator_Compare Compare (fst kv) k < 0) kvs)"
proof -
  have "takeWhile (\<lambda>kv. KeyComparator Compare (entry_of kv) (EncodeKey k) < 0) kvs
      = takeWhile (\<lambda>kv. InternalKeyComparator_Compare Compare (fst kv) k < 0) kvs"
    using assms by (intro takeWhile_cong) (auto simp: mem_holds_def KeyComparator_def)
  then show ?thesis by (simp add: takeWhile_map comp_def)
qed

lemma mem_seek:
  assumes "mem_holds Compare ok l kvs" "length k < 2 ^ 32" "internal_ok ok k"
  shows "\<exists>it. Iterator_Seek (KeyComparator Compare) l (EncodeKey k) = Some it \<and>
    mem_at Compare ok l kvs it (length (takeWhile (\<lambda>kv. InternalKeyComparator_Compare Compare (fst kv) k < 0) kvs))"
proof -
  let ?n = "length (takeWhile (\<lambda>kv. InternalKeyComparator_Compare Compare (fst kv) k < 0) kvs)"
  let ?lt = "\<lambda>e. KeyComparator Compare e (EncodeKey k) < 0"
  obtain it where it: "Iterator_Seek (KeyComparator Compare) l (EncodeKey k) = Some it"
    "skip_at (KeyComparator Compare) (entry_ok ok) l it (takeWhile ?lt (map entry_of kvs)) (dropWhile ?lt (map entry_of kvs))"
    using weak_order.Iterator_Seek_at [OF entry_weak_order] assms key_ok unfolding mem_holds_def by blast
  have n: "length (takeWhile ?lt (map entry_of kvs)) = ?n"
    using take_entries [OF assms(1,2)] by simp
  have "skip_at (KeyComparator Compare) (entry_ok ok) l it (map entry_of (take ?n kvs)) (map entry_of (drop ?n kvs))"
    using it(2) takeWhile_dropWhile_index [of ?lt "map entry_of kvs"] by (simp add: n take_map drop_map)
  with it(1) assms(1) show ?thesis
    by (auto simp: mem_at_def length_takeWhile_le)
qed

lemma mem_sorted:
  assumes "mem_holds Compare ok l kvs"
  shows "sorted_wrt (\<lambda>a b. InternalKeyComparator_Compare Compare (fst a) (fst b) < 0) kvs"
proof -
  have "sorted_wrt (\<lambda>a b. KeyComparator Compare (entry_of a) (entry_of b) < 0) kvs"
    using assms skip_holds_sorted unfolding mem_holds_def by (fastforce simp: sorted_wrt_map)
  then show ?thesis
    by (rule sorted_wrt_mono_rel [rotated]) (use assms in \<open>auto simp: mem_holds_def entry_compare\<close>)
qed

lemma mem_at_entry:
  assumes "mem_at Compare ok l kvs it i" "i < length kvs"
  shows "Iterator_key l it = entry_of (kvs ! i)"
  using assms Iterator_key_at [of _ _ l it _ "entry_of (kvs ! i)"] by (fastforce simp: mem_at_def drop_index)

lemma memtable_iterator:
  assumes "mem_holds Compare ok l kvs"
  shows "sorted_iterator (MemTableIterator Compare l) (InternalKeyComparator_Compare Compare)
    (\<lambda>k. length k < 2 ^ 32 \<and> internal_ok ok k) kvs (\<lambda>it. True) (mem_at Compare ok l kvs)"
proof unfold_locales
  fix it i
  assume at: "mem_at Compare ok l kvs it i"
  then have skip: "skip_at (KeyComparator Compare) (entry_ok ok) l it (map entry_of (take i kvs)) (map entry_of (drop i kvs))"
    and le: "i \<le> length kvs" by (auto simp: mem_at_def)
  show "True \<and> i \<le> length kvs" using le by simp
  show "it_Valid (MemTableIterator Compare l) it \<longleftrightarrow> i < length kvs"
    using Iterator_Valid_at [OF skip] le by (auto simp: MemTableIterator_def)
  assume i: "i < length kvs"
  then have kv: "length (fst (kvs ! i)) < 2 ^ 32" "length (snd (kvs ! i)) < 2 ^ 32"
    using assms by (auto simp: mem_holds_def)
  show "it_key (MemTableIterator Compare l) it = fst (kvs ! i)"
    using kv by (simp add: MemTableIterator_def mem_at_entry [OF at i])
  show "it_value (MemTableIterator Compare l) it = snd (kvs ! i)"
    using kv GetLengthPrefixedSlice_data_Put [of "snd (kvs ! i)" "[]"]
    by (simp add: MemTableIterator_def mem_at_entry [OF at i] entry_of_def unat_of_nat)
  have skip': "skip_at (KeyComparator Compare) (entry_ok ok) l it (map entry_of (take i kvs))
      (entry_of (kvs ! i) # map entry_of (drop (Suc i) kvs))"
    using skip i by (simp add: drop_index)
  show "\<exists>it'. it_Next (MemTableIterator Compare l) it = Some it' \<and> mem_at Compare ok l kvs it' (i + 1)"
    using Iterator_Next_at [OF skip'] assms i
    by (auto simp: MemTableIterator_def mem_at_def take_Suc_conv_app_nth)
  show "\<exists>it'. it_Prev (MemTableIterator Compare l) it = Some it' \<and>
      mem_at Compare ok l kvs it' (if i = 0 then length kvs else i - 1)"
  proof (cases i)
    case 0
    then show ?thesis
      using weak_order.Iterator_Prev_at [OF entry_weak_order skip'] assms i
      by (auto simp: MemTableIterator_def mem_at_def drop_index [symmetric] Cons_nth_drop_Suc
          simp flip: list.simps(9))
  next
    case (Suc j)
    then have "take i kvs = take j kvs @ [kvs ! j]" "drop j kvs = kvs ! j # kvs ! i # drop (Suc i) kvs"
      using i by (simp_all add: take_Suc_conv_app_nth drop_index)
    then show ?thesis
      using weak_order.Iterator_Prev_at [OF entry_weak_order skip'] assms i Suc
      by (auto simp: MemTableIterator_def mem_at_def)
  qed
next
  fix it t
  have holds: "skip_holds (KeyComparator Compare) (entry_ok ok) l (map entry_of kvs)"
    using assms by (simp add: mem_holds_def)
  show "\<exists>it'. it_SeekToFirst (MemTableIterator Compare l) it = Some it' \<and> mem_at Compare ok l kvs it' 0"
    using Iterator_SeekToFirst_at [OF holds] assms by (simp add: MemTableIterator_def mem_at_def)
  show "\<exists>it'. it_SeekToLast (MemTableIterator Compare l) it = Some it' \<and> mem_at Compare ok l kvs it' (length kvs - 1)"
    using weak_order.Iterator_SeekToLast_at [OF entry_weak_order holds] assms
    by (cases kvs rule: rev_cases) (auto simp: MemTableIterator_def mem_at_def)
  assume "length t < 2 ^ 32 \<and> internal_ok ok t"
  then show "\<exists>it'. it_Seek (MemTableIterator Compare l) it t = Some it' \<and>
      mem_at Compare ok l kvs it' (length (takeWhile (\<lambda>kv. InternalKeyComparator_Compare Compare (fst kv) t < 0) kvs))"
    using mem_seek [OF assms] by (simp add: MemTableIterator_def)
qed (use assms mem_sorted [OF assms] in \<open>auto simp: MemTableIterator_def mem_holds_def\<close>)

lemma Add_buf:
  "EncodeVarint32 (of_nat (length key + 8)) @ key @ EncodeFixed64 (push_bit 8 s OR ValueType_code t) @
     EncodeVarint32 (of_nat (length value)) @ value = entry_of (InternalKey key s t, value)"
  by (simp add: entry_of_def PutLengthPrefixedSlice_Nil InternalKey_eq PackSequenceAndType_def add.commute)

lemma Add_holds:
  assumes holds: "mem_holds Compare ok (mem_table m) kvs"
    and key: "length key + 8 < 2 ^ 32" "length value < 2 ^ 32" "ok key"
    and new: "\<And>kv. kv \<in> set kvs \<Longrightarrow> fst kv \<noteq> InternalKey key s t"
  shows "\<exists>m' kvs'. MemTable_Add new_block Compare m s t key value = Some m' \<and>
    mem_holds Compare ok (mem_table m') kvs' \<and> set kvs' = insert (InternalKey key s t, value) (set kvs)"
proof -
  let ?kv = "(InternalKey key s t, value)"
  let ?lt = "\<lambda>e. KeyComparator Compare e (entry_of ?kv) < 0"
  have kv: "length (fst ?kv) < 2 ^ 32" "internal_ok ok (fst ?kv)"
    using key by (simp_all add: InternalKey_eq)
  have "KeyComparator Compare e (entry_of ?kv) \<noteq> 0" if e: "e \<in> set (map entry_of kvs)" for e
  proof -
    obtain kv' where kv': "kv' \<in> set kvs" "e = entry_of kv'" using e by auto
    then have "length (fst kv') < 2 ^ 32" "internal_ok ok (fst kv')" using holds by (auto simp: mem_holds_def)
    then show ?thesis
      using new [OF kv'(1)] kv kv'(2) internal.compare_eq [of "fst kv'" "fst ?kv"] by (simp add: entry_compare)
  qed
  then obtain l' where l': "Insert (KeyComparator Compare) (mem_table m) (entry_of ?kv) = Some l'"
    "skip_holds (KeyComparator Compare) (entry_ok ok) l'
       (takeWhile ?lt (map entry_of kvs) @ entry_of ?kv # dropWhile ?lt (map entry_of kvs))"
    using weak_order.Insert_holds [OF entry_weak_order _ entry_of_ok [OF kv], of "mem_table m" "map entry_of kvs"] holds
    unfolding mem_holds_def by blast
  define n where "n = length (takeWhile ?lt (map entry_of kvs))"
  let ?kvs = "take n kvs @ ?kv # drop n kvs"
  have "takeWhile ?lt (map entry_of kvs) @ entry_of ?kv # dropWhile ?lt (map entry_of kvs) = map entry_of ?kvs"
    using takeWhile_dropWhile_index [of ?lt "map entry_of kvs"] by (simp add: n_def take_map drop_map)
  moreover have set: "set ?kvs = insert ?kv (set kvs)"
    using set_append [of "take n kvs" "drop n kvs"] by simp
  ultimately have "mem_holds Compare ok l' ?kvs"
    using l'(2) holds kv key(2) unfolding mem_holds_def set by simp
  moreover have "\<exists>m'. MemTable_Add new_block Compare m s t key value = Some m' \<and> mem_table m' = l'"
    using l'(1) Add_buf [of key s t "value"] by (simp add: MemTable_Add_def Let_def split: prod.splits)
  ultimately show ?thesis using set by blast
qed

end

subsection \<open>A memtable as a log\<close>

text \<open>
  What the engine writes is a sequence of operations with increasing sequence numbers; what a reader
  at a snapshot must see of a key is the last operation on it up to the snapshot.
\<close>

type_synonym mem_op = "SequenceNumber \<times> ValueType \<times> slice \<times> slice"

definition op_entry :: "mem_op \<Rightarrow> slice \<times> slice" where
  "op_entry p = (case p of (q, t, k, v) \<Rightarrow> (InternalKey k q t, v))"

definition log_get :: "mem_op list \<Rightarrow> slice \<Rightarrow> SequenceNumber \<Rightarrow> (ValueType \<times> slice) option" where
  "log_get log u s =
     (let ops = filter (\<lambda>(q, t, k, v). k = u \<and> q \<le> s) log in
      if ops = [] then None else case last ops of (q, t, k, v) \<Rightarrow> Some (t, v))"

definition op_ok :: "(slice \<Rightarrow> bool) \<Rightarrow> mem_op \<Rightarrow> bool" where
  "op_ok ok p = (case p of (q, t, k, v) \<Rightarrow>
     q \<le> kMaxSequenceNumber \<and> length k + 8 < 2 ^ 32 \<and> length v < 2 ^ 32 \<and> ok k)"

definition log_ok :: "(slice \<Rightarrow> bool) \<Rightarrow> mem_op list \<Rightarrow> bool" where
  "log_ok ok log \<longleftrightarrow> sorted_wrt (\<lambda>a b. fst a < fst b) log \<and> list_all (op_ok ok) log"

definition mem_log ::
  "(slice \<Rightarrow> slice \<Rightarrow> int) \<Rightarrow> (slice \<Rightarrow> bool) \<Rightarrow> MemTable \<Rightarrow> mem_op list \<Rightarrow> bool" where
  "mem_log ucmp ok m log \<longleftrightarrow>
     log_ok ok log \<and> (\<exists>kvs. mem_holds ucmp ok (mem_table m) kvs \<and> set kvs = op_entry ` set log)"

fun mem_add_all ::
  "new_block \<Rightarrow> (slice \<Rightarrow> slice \<Rightarrow> int) \<Rightarrow> MemTable \<Rightarrow> mem_op list \<Rightarrow> MemTable option" where
  "mem_add_all new_block ucmp m [] = Some m"
| "mem_add_all new_block ucmp m ((q, t, k, v) # log) = do {
     m' \<leftarrow> MemTable_Add new_block ucmp m q t k v;
     mem_add_all new_block ucmp m' log
   }"

lemma log_get_Some:
  assumes "sorted_wrt (\<lambda>a b. fst a < fst b) log" "(q, t, u, v) \<in> set log" "q \<le> s"
    and "\<And>q' t' v'. (q', t', u, v') \<in> set log \<Longrightarrow> q' \<le> s \<Longrightarrow> q' \<le> q"
  shows "log_get log u s = Some (t, v)"
proof -
  let ?ops = "filter (\<lambda>(q, t, k, v). k = u \<and> q \<le> s) log"
  have mem: "(q, t, u, v) \<in> set ?ops" using assms(2,3) by simp
  then obtain ys z where snoc: "?ops = ys @ [z]" by (cases ?ops rule: rev_cases) auto
  obtain q' t' v' where z: "z = (q', t', u, v')" "(q', t', u, v') \<in> set log" "q' \<le> s"
  proof -
    obtain q' t' k' v' where z: "z = (q', t', k', v')" by (rule prod_cases4)
    have "z \<in> set ?ops" by (simp add: snoc)
    with z show thesis using that by auto
  qed
  have srt: "sorted_wrt (\<lambda>a b. fst a < fst b) (ys @ [z])"
    unfolding snoc [symmetric] using assms(1) by (rule sorted_wrt_filter)
  have "(q, t, u, v) = z"
  proof (rule ccontr)
    assume "(q, t, u, v) \<noteq> z"
    then have "(q, t, u, v) \<in> set ys" using mem unfolding snoc by auto
    then have "q < q'" using srt z by (auto simp: sorted_wrt_append)
    then show False using assms(4) [OF z(2,3)] by simp
  qed
  then show ?thesis by (auto simp: log_get_def snoc Let_def)
qed

lemma log_get_None: "\<forall>q t v. (q, t, u, v) \<in> set log \<longrightarrow> \<not> q \<le> s \<Longrightarrow> log_get log u s = None"
proof -
  assume "\<forall>q t v. (q, t, u, v) \<in> set log \<longrightarrow> \<not> q \<le> s"
  then have "filter (\<lambda>(q, t, k, v). k = u \<and> q \<le> s) log = []" by (auto simp: filter_empty_conv)
  then show ?thesis by (simp add: log_get_def)
qed

lemma InternalKey_inject:
  assumes "q \<le> kMaxSequenceNumber" "q' \<le> kMaxSequenceNumber"
  shows "InternalKey k q t = InternalKey k' q' t' \<longleftrightarrow> k = k' \<and> q = q' \<and> t = t'"
  using assms by (auto simp: InternalKey_eq)

lemma InternalKey_parts [simp]:
  "ExtractUserKey (InternalKey k q t) = k" "internal_tag (InternalKey k q t) = PackSequenceAndType q t"
  "length (InternalKey k q t) = length k + 8"
  by (simp_all add: InternalKey_eq)

context user_comparator
begin

lemma mem_log_new: "mem_log Compare ok (MemTable_new new_block) []"
  using mem_holds_new by (auto simp: mem_log_def log_ok_def MemTable_new_def intro!: exI [of _ "[]"])

lemma mem_log_Add:
  assumes "mem_log Compare ok m log" "log_ok ok (log @ [(q, t, k, v)])"
  shows "\<exists>m'. MemTable_Add new_block Compare m q t k v = Some m' \<and> mem_log Compare ok m' (log @ [(q, t, k, v)])"
proof -
  obtain kvs where holds: "mem_holds Compare ok (mem_table m) kvs" and set: "set kvs = op_entry ` set log"
    using assms(1) by (auto simp: mem_log_def)
  have op: "length k + 8 < 2 ^ 32" "length v < 2 ^ 32" "ok k" "q \<le> kMaxSequenceNumber"
    using assms(2) by (auto simp: log_ok_def op_ok_def)
  have "fst kv \<noteq> InternalKey k q t" if kv: "kv \<in> set kvs" for kv
  proof -
    obtain p where p: "p \<in> set log" "kv = op_entry p" using kv set by blast
    obtain q' t' k' v' where p': "p = (q', t', k', v')" by (rule prod_cases4)
    have "q' < q" "q' \<le> kMaxSequenceNumber"
      using assms(2) p(1) by (auto simp: log_ok_def op_ok_def sorted_wrt_append list_all_iff p')
    then show ?thesis using op(4) by (auto simp: p(2) p' op_entry_def InternalKey_inject)
  qed
  from Add_holds [OF holds op(1-3) this, of new_block] obtain m' kvs' where
    "MemTable_Add new_block Compare m q t k v = Some m'" "mem_holds Compare ok (mem_table m') kvs'"
    "set kvs' = insert (InternalKey k q t, v) (set kvs)" by blast
  then show ?thesis
    using assms(2) set by (auto simp: mem_log_def op_entry_def)
qed

lemma mem_log_add_all:
  "mem_log Compare ok m log \<Longrightarrow> log_ok ok (log @ ops) \<Longrightarrow>
   \<exists>m'. mem_add_all new_block Compare m ops = Some m' \<and> mem_log Compare ok m' (log @ ops)"
proof (induction ops arbitrary: m log)
  case (Cons p ops)
  obtain q t k v where p: "p = (q, t, k, v)" by (rule prod_cases4)
  have "log_ok ok (log @ [(q, t, k, v)])"
    using Cons.prems(2) by (auto simp: log_ok_def p sorted_wrt_append)
  from mem_log_Add [OF Cons.prems(1) this, of new_block] obtain m' where
    "MemTable_Add new_block Compare m q t k v = Some m'" "mem_log Compare ok m' (log @ [(q, t, k, v)])" by blast
  with Cons.IH [of m' "log @ [(q, t, k, v)]"] Cons.prems(2) show ?case by (simp add: p)
qed simp

text \<open>The first entry at or after the lookup key decides the lookup.\<close>

lemma seek_decides:
  assumes log: "log_ok ok log" and holds: "mem_holds Compare ok l kvs" and set: "set kvs = op_entry ` set log"
    and u: "ok u" and s: "s \<le> kMaxSequenceNumber"
  defines "n \<equiv> length (takeWhile (\<lambda>kv. InternalKeyComparator_Compare Compare (fst kv) (InternalKey u s kValueTypeForSeek) < 0) kvs)"
  shows "log_get log u s =
    (if n < length kvs \<and> ExtractUserKey (fst (kvs ! n)) = u
     then Some (if internal_tag (fst (kvs ! n)) AND 0xff = 0 then kTypeDeletion else kTypeValue, snd (kvs ! n))
     else None)"
proof -
  let ?lk = "InternalKey u s kValueTypeForSeek" and ?icmp = "InternalKeyComparator_Compare Compare"
  have lk: "internal_ok ok ?lk" using u by simp
  have split: "kvs = take n kvs @ drop n kvs" by simp
  have low: "?icmp (fst kv) ?lk < 0" if "kv \<in> set (take n kvs)" for kv
    using that takeWhile_dropWhile_index(1) [of "\<lambda>kv. ?icmp (fst kv) ?lk < 0" kvs] by (auto simp: n_def dest: set_takeWhileD)
  have srt: "sorted_wrt (\<lambda>a b. ?icmp (fst a) (fst b) < 0) kvs" by (rule mem_sorted [OF holds])
  have visible: "\<not> ?icmp (InternalKey u q t) ?lk < 0 \<longleftrightarrow> q \<le> s" if "q \<le> kMaxSequenceNumber" for q t
    using u s that by (auto simp: internal_compare_less Pack_less_iff kValueTypeForSeek_def)
  have ops: "q \<le> kMaxSequenceNumber \<and> ok k \<and> (InternalKey k q t, v) \<in> set kvs" if "(q, t, k, v) \<in> set log" for q t k v
  proof -
    have "op_ok ok (q, t, k, v)" using log that unfolding log_ok_def list_all_iff by blast
    moreover have "op_entry (q, t, k, v) \<in> set kvs" unfolding set using that by (rule imageI)
    ultimately show ?thesis by (simp add: op_ok_def op_entry_def)
  qed
  have late: "(InternalKey u q t, v) \<in> set (drop n kvs)" if "(q, t, u, v) \<in> set log" "q \<le> s" for q t v
  proof -
    have "(InternalKey u q t, v) \<in> set (take n kvs) \<union> set (drop n kvs)"
      using ops [OF that(1)] split by (metis set_append)
    moreover have "(InternalKey u q t, v) \<notin> set (take n kvs)"
      using low visible [of q t] ops [OF that(1)] that(2) by fastforce
    ultimately show ?thesis by blast
  qed
  show ?thesis
  proof (cases "n < length kvs")
    case False
    then have "drop n kvs = []" by simp
    with late have "log_get log u s = None" by (intro log_get_None) auto
    then show ?thesis using False by simp
  next
    case True
    obtain q t k v where p: "(q, t, k, v) \<in> set log" and kv: "kvs ! n = (InternalKey k q t, v)"
    proof -
      have "kvs ! n \<in> op_entry ` set log" using True set nth_mem by blast
      then show thesis using that by (auto simp: op_entry_def)
    qed
    note q = ops [OF p]
    have head: "\<not> ?icmp (InternalKey k q t) ?lk < 0"
      using nth_length_takeWhile [of "\<lambda>kv. ?icmp (fst kv) ?lk < 0" kvs] True kv by (simp add: n_def)
    have rest: "drop n kvs = kvs ! n # drop (Suc n) kvs" using True by (rule drop_index)
    have after: "?icmp (InternalKey k q t) (fst kv') < 0" if "kv' \<in> set (drop (Suc n) kvs)" for kv'
    proof -
      have "sorted_wrt (\<lambda>a b. ?icmp (fst a) (fst b) < 0) (take n kvs @ drop n kvs)" using srt by simp
      then show ?thesis using that by (simp only: sorted_wrt_append rest) (simp add: kv)
    qed
    have rel: "k = u \<and> q' \<le> q" if op: "(q', t', u, v') \<in> set log" "q' \<le> s" for q' t' v'
    proof (cases "(InternalKey u q' t', v') = kvs ! n")
      case True
      then show ?thesis using kv q ops [OF op(1)] by (auto simp: InternalKey_inject)
    next
      case False
      then have less: "?icmp (InternalKey k q t) (InternalKey u q' t') < 0"
        using late [OF op] after by (auto simp: rest)
      have "Compare k u \<le> 0" using less q u by (auto simp: internal_compare_less)
      moreover have "Compare u k \<le> 0"
      proof -
        have "\<not> Compare k u < 0" using head q u by (auto simp: internal_compare_less)
        then show ?thesis using weak.cmp_not_less [of k u] q u by simp
      qed
      ultimately have "k = u"
        using compare_le_iff [of k u] compare_le_iff [of u k] compare_antisym [of k u] q u by auto
      then show ?thesis
        using less q ops [OF op(1)] u by (auto simp: internal_compare_less Pack_less_iff)
    qed
    show ?thesis
    proof (cases "k = u")
      case True
      then have "q \<le> s" using head visible q by simp
      then have "log_get log u s = Some (t, v)"
        using rel log p True by (intro log_get_Some [where q = q]) (auto simp: log_ok_def)
      then show ?thesis using True \<open>n < length kvs\<close> kv by (cases t) simp_all
    next
      case False
      then have "log_get log u s = None" using rel by (intro log_get_None) blast
      then show ?thesis using False kv by simp
    qed
  qed
qed

lemma mem_log_Get:
  assumes "mem_log Compare ok m log" "ok u" "s \<le> kMaxSequenceNumber" "length u + 8 < 2 ^ 32"
  shows "MemTable_Get Compare m (LookupKey u s) dflt st = Some
    (case log_get log u s of
       None \<Rightarrow> (False, dflt, st)
     | Some (kTypeValue, v) \<Rightarrow> (True, v, st)
     | Some (kTypeDeletion, v) \<Rightarrow> (True, dflt, NotFound [] []))"
proof -
  obtain kvs where log: "log_ok ok log" and holds: "mem_holds Compare ok (mem_table m) kvs"
    and set: "set kvs = op_entry ` set log"
    using assms(1) by (auto simp: mem_log_def)
  let ?lk = "InternalKey u s kValueTypeForSeek"
  define n where "n = length (takeWhile (\<lambda>kv. InternalKeyComparator_Compare Compare (fst kv) ?lk < 0) kvs)"
  note decides = seek_decides [OF log holds set assms(2,3), folded n_def]
  have key: "LookupKey_memtable_key (LookupKey u s) = EncodeKey ?lk"
    by (simp add: LookupKey_memtable_key_eq EncodeKey_eq)
  obtain it where it: "Iterator_Seek (KeyComparator Compare) (mem_table m) (EncodeKey ?lk) = Some it"
    "mem_at Compare ok (mem_table m) kvs it n"
    using mem_seek [OF holds, of ?lk] assms(2,4) by (auto simp: n_def)
  show ?thesis
  proof (cases "n < length kvs")
    case False
    then have "\<not> Iterator_Valid it"
      using it(2) Iterator_Valid_at by (fastforce simp: mem_at_def)
    then show ?thesis
      using False decides it(1) by (simp add: MemTable_Get_def key)
  next
    case True
    then have valid: "Iterator_Valid it" using it(2) Iterator_Valid_at by (fastforce simp: mem_at_def)
    obtain p where p: "p \<in> set log" "kvs ! n = op_entry p" using True set nth_mem by blast
    obtain q t k v where p': "p = (q, t, k, v)" by (rule prod_cases4)
    have k: "length k + 8 < 2 ^ 32" "length v < 2 ^ 32" "ok k"
      using log p(1) by (auto simp: p' log_ok_def list_all_iff op_ok_def)
    have entry: "Iterator_key (mem_table m) it = PutLengthPrefixedSlice [] (InternalKey k q t) @ PutLengthPrefixedSlice [] v"
      using mem_at_entry [OF it(2) True] by (simp add: p(2) p' op_entry_def entry_of_def)
    have len: "unat (of_nat (length k) + 8 :: u32) = length k + 8"
      using k(1) by (simp add: unat_word_ariths unat_of_nat)
    have "MemTable_Get Compare m (LookupKey u s) dflt st = Some
        (if Compare k u = 0
         then case t of kTypeValue \<Rightarrow> (True, v, st) | kTypeDeletion \<Rightarrow> (True, dflt, NotFound [] [])
         else (False, dflt, st))"
      using valid it(1) GetLengthPrefixedSlice_data_Put [OF k(2), of "[]"]
      by (cases t) (simp_all add: MemTable_Get_def key entry len InternalKey_eq Let_def)
    then show ?thesis
      using True decides compare_eq [OF k(3) assms(2)] by (cases t) (simp_all add: p(2) p' op_entry_def)
  qed
qed

end

subsection \<open>Properties\<close>

text \<open>
  C5: A memtable answers from the log of what was added to it. Starting from an empty memtable, adding
  any operations with increasing sequence numbers succeeds, and then a lookup of a user key at a
  snapshot is decided by the last operation on that key with a sequence number up to the snapshot: a
  value is returned, a deletion gives \<open>NotFound\<close>, and if there is no such operation the lookup is left
  to the older levels.
\<close>

theorem memtable_get:
  assumes "user_comparator ucmp ok sep suc" "log_ok ok log"
    and "ok u" "s \<le> kMaxSequenceNumber" "length u + 8 < 2 ^ 32"
  shows "\<exists>m. mem_add_all new_block ucmp (MemTable_new new_block) log = Some m \<and>
    MemTable_Get ucmp m (LookupKey u s) dflt st = Some
      (case log_get log u s of
         None \<Rightarrow> (False, dflt, st)
       | Some (kTypeValue, v) \<Rightarrow> (True, v, st)
       | Some (kTypeDeletion, v) \<Rightarrow> (True, dflt, NotFound [] []))"
  using user_comparator.mem_log_add_all [OF assms(1) user_comparator.mem_log_new [OF assms(1)], of log]
    user_comparator.mem_log_Get [OF assms(1) _ assms(3-5)] assms(2) by fastforce

theorem memtable_get_witness:
  "\<exists>m. mem_add_all bump_new BytewiseComparator_Compare (MemTable_new bump_new)
       [(1, kTypeValue, [97], [1]), (2, kTypeValue, [98], [2]), (3, kTypeDeletion, [97], [])] = Some m \<and>
     MemTable_Get BytewiseComparator_Compare m (LookupKey [97] 2) [] OK = Some (True, [1], OK) "
proof -
  let ?log = "[(1, kTypeValue, [97], [1]), (2, kTypeValue, [98], [2]), (3, kTypeDeletion, [97], [])] :: mem_op list"
  have "log_ok (\<lambda>_. True) ?log" by (simp add: log_ok_def op_ok_def kMaxSequenceNumber_eq)
  moreover have "log_get ?log [97] 2 = Some (kTypeValue, [1])" by (simp add: log_get_def)
  ultimately show ?thesis
    using memtable_get [OF bytewise_internal.user_comparator_axioms, where log = ?log and u = "[97]" and s = 2
        and new_block = bump_new and dflt = "[]" and st = OK]
    by (simp add: kMaxSequenceNumber_eq)
qed

text \<open>
  C25: The iterator of a memtable shows its entries in the internal order. For a memtable that holds
  the operations of a log, there is a list of key-value pairs, sorted strictly by the internal
  comparator and consisting of exactly the logged operations, such that a forward scan returns it and
  a seek stands at the first pair not before the target.
\<close>

theorem memtable_scan:
  assumes "user_comparator ucmp ok sep suc" "mem_log ucmp ok m log"
  shows "\<exists>kvs. scan (MemTableIterator ucmp (mem_table m)) it = Some kvs \<and>
    sorted_wrt (\<lambda>a b. InternalKeyComparator_Compare ucmp (fst a) (fst b) < 0) kvs \<and>
    set kvs = (\<lambda>(q, t, k, v). (InternalKey k q t, v)) ` set log \<and>
    (\<forall>t. length t < 2 ^ 32 \<and> internal_ok ok t \<longrightarrow>
      (\<exists>it'. it_Seek (MemTableIterator ucmp (mem_table m)) it t = Some it' \<and>
         scan_from (MemTableIterator ucmp (mem_table m)) it' =
           Some (dropWhile (\<lambda>kv. InternalKeyComparator_Compare ucmp (fst kv) t < 0) kvs)))"
proof -
  obtain kvs where holds: "mem_holds ucmp ok (mem_table m) kvs" and set: "set kvs = op_entry ` set log"
    using assms(2) by (auto simp: mem_log_def)
  have it: "sorted_iterator (MemTableIterator ucmp (mem_table m)) (InternalKeyComparator_Compare ucmp)
      (\<lambda>k. length k < 2 ^ 32 \<and> internal_ok ok k) kvs (\<lambda>it. True) (mem_at ucmp ok (mem_table m) kvs)"
    using user_comparator.memtable_iterator [OF assms(1) holds] .
  have "op_entry = (\<lambda>(q, t, k, v). (InternalKey k q t, v))" by (auto simp: op_entry_def)
  then show ?thesis
    using sorted_iterator.scan_all [OF it] sorted_iterator.keys_sorted [OF it] set sorted_iterator.seek_scan [OF it]
    by (intro exI [of _ kvs]) simp
qed

theorem memtable_scan_witness:
  "\<exists>m kvs. mem_add_all bump_new BytewiseComparator_Compare (MemTable_new bump_new)
       [(1, kTypeValue, [97], [1]), (2, kTypeDeletion, [97], [])] = Some m \<and>
     scan (MemTableIterator BytewiseComparator_Compare (mem_table m)) None = Some kvs \<and>
     set kvs = {(InternalKey [97] 1 kTypeValue, [1]), (InternalKey [97] 2 kTypeDeletion, [])}"
proof -
  let ?log = "[(1, kTypeValue, [97], [1]), (2, kTypeDeletion, [97], [])] :: mem_op list"
  have "log_ok (\<lambda>_. True) ([] @ ?log)" by (simp add: log_ok_def op_ok_def kMaxSequenceNumber_eq)
  from bytewise_internal.mem_log_add_all [OF bytewise_internal.mem_log_new this, of bump_new bump_new]
  obtain m where m: "mem_add_all bump_new BytewiseComparator_Compare (MemTable_new bump_new) ?log = Some m"
    "mem_log BytewiseComparator_Compare (\<lambda>_. True) m ?log" by auto
  from memtable_scan [OF bytewise_internal.user_comparator_axioms m(2), of None] m(1)
  show ?thesis by auto
qed

end
