(* ===== verification/WriteBatch.thy ===== *)
theory WriteBatch
  imports Memtable
begin

text \<open>
  Write batches (\<open>db/write_batch.cc\<close>, \<open>db/write_batch_internal.h\<close>): a header of an 8-byte sequence
  number and a 4-byte count, then one tagged record per operation. A \<open>WriteBatch\<close> is its string \<open>rep_\<close>.
  A handler is a state with two operations, either of which may fail to return.
\<close>

subsection \<open>Operations\<close>

type_synonym WriteBatch = bytes

definition kHeader :: nat where "kHeader = 12"

definition WriteBatch_Clear :: WriteBatch where
  "WriteBatch_Clear = replicate kHeader 0"

definition WriteBatch_new :: WriteBatch where
  "WriteBatch_new = WriteBatch_Clear"

definition ApproximateSize :: "WriteBatch \<Rightarrow> nat" where
  "ApproximateSize b = length b"

text \<open>The code reads the count into an \<open>int\<close>; the model keeps its 32 bits, which are all that is compared and stored.\<close>

definition Count :: "WriteBatch \<Rightarrow> u32" where
  "Count b = DecodeFixed32 (drop 8 b)"

definition SetCount :: "WriteBatch \<Rightarrow> u32 \<Rightarrow> WriteBatch" where
  "SetCount b n = take 8 b @ EncodeFixed32 n @ drop 12 b"

definition Sequence :: "WriteBatch \<Rightarrow> SequenceNumber" where
  "Sequence b = DecodeFixed64 b"

definition SetSequence :: "WriteBatch \<Rightarrow> SequenceNumber \<Rightarrow> WriteBatch" where
  "SetSequence b seq = EncodeFixed64 seq @ drop 8 b"

definition WriteBatch_Put :: "WriteBatch \<Rightarrow> slice \<Rightarrow> slice \<Rightarrow> WriteBatch" where
  "WriteBatch_Put b key value =
     (let b = SetCount b (Count b + 1);
          b = b @ [ucast (ValueType_code kTypeValue)];
          b = PutLengthPrefixedSlice b key
      in PutLengthPrefixedSlice b value)"

definition WriteBatch_Delete :: "WriteBatch \<Rightarrow> slice \<Rightarrow> WriteBatch" where
  "WriteBatch_Delete b key =
     (let b = SetCount b (Count b + 1);
          b = b @ [ucast (ValueType_code kTypeDeletion)]
      in PutLengthPrefixedSlice b key)"

function Iterate_loop ::
  "('h \<Rightarrow> slice \<Rightarrow> slice \<Rightarrow> 'h option) \<Rightarrow> ('h \<Rightarrow> slice \<Rightarrow> 'h option) \<Rightarrow> slice \<Rightarrow> 'h \<Rightarrow> u32 \<Rightarrow>
   ('h \<times> u32 \<times> Status option) option" where
  "Iterate_loop put del [] h found = Some (h, found, None)"
| "Iterate_loop put del (tag # input) h found =
     (if tag = ucast (ValueType_code kTypeValue) then
        (case GetLengthPrefixedSlice input of
           None \<Rightarrow> Some (h, found + 1, Some (Corruption (str ''bad WriteBatch Put'') []))
         | Some (key, input1) \<Rightarrow>
             (case GetLengthPrefixedSlice input1 of
                None \<Rightarrow> Some (h, found + 1, Some (Corruption (str ''bad WriteBatch Put'') []))
              | Some (value, input2) \<Rightarrow>
                  (case put h key value of
                     None \<Rightarrow> None
                   | Some h' \<Rightarrow> Iterate_loop put del input2 h' (found + 1))))
      else if tag = ucast (ValueType_code kTypeDeletion) then
        (case GetLengthPrefixedSlice input of
           None \<Rightarrow> Some (h, found + 1, Some (Corruption (str ''bad WriteBatch Delete'') []))
         | Some (key, input1) \<Rightarrow>
             (case del h key of
                None \<Rightarrow> None
              | Some h' \<Rightarrow> Iterate_loop put del input1 h' (found + 1)))
      else Some (h, found + 1, Some (Corruption (str ''unknown WriteBatch tag'') [])))"
  by pat_completeness auto
termination
  by (relation "measure (\<lambda>(put, del, input, h, found). length input)")
    (auto dest!: GetLengthPrefixedSlice_suffix)

text \<open>The result is the handler and the status.\<close>

definition Iterate ::
  "('h \<Rightarrow> slice \<Rightarrow> slice \<Rightarrow> 'h option) \<Rightarrow> ('h \<Rightarrow> slice \<Rightarrow> 'h option) \<Rightarrow> WriteBatch \<Rightarrow> 'h \<Rightarrow>
   ('h \<times> Status) option" where
  "Iterate put del b h =
     (if length b < kHeader then Some (h, Corruption (str ''malformed WriteBatch (too small)'') [])
      else
        (case Iterate_loop put del (drop kHeader b) h 0 of
           None \<Rightarrow> None
         | Some (h, found, Some s) \<Rightarrow> Some (h, s)
         | Some (h, found, None) \<Rightarrow>
             if found \<noteq> Count b then Some (h, Corruption (str ''WriteBatch has wrong count'') [])
             else Some (h, OK)))"

record MemTableInserter =
  ins_sequence :: SequenceNumber
  ins_mem :: MemTable

definition MemTableInserter_Put ::
  "new_block \<Rightarrow> (slice \<Rightarrow> slice \<Rightarrow> int) \<Rightarrow> MemTableInserter \<Rightarrow> slice \<Rightarrow> slice \<Rightarrow> MemTableInserter option" where
  "MemTableInserter_Put new_block ucmp h key value =
     (case MemTable_Add new_block ucmp (ins_mem h) (ins_sequence h) kTypeValue key value of
        None \<Rightarrow> None
      | Some m \<Rightarrow> Some (h\<lparr>ins_mem := m, ins_sequence := ins_sequence h + 1\<rparr>))"

definition MemTableInserter_Delete ::
  "new_block \<Rightarrow> (slice \<Rightarrow> slice \<Rightarrow> int) \<Rightarrow> MemTableInserter \<Rightarrow> slice \<Rightarrow> MemTableInserter option" where
  "MemTableInserter_Delete new_block ucmp h key =
     (case MemTable_Add new_block ucmp (ins_mem h) (ins_sequence h) kTypeDeletion key [] of
        None \<Rightarrow> None
      | Some m \<Rightarrow> Some (h\<lparr>ins_mem := m, ins_sequence := ins_sequence h + 1\<rparr>))"

definition InsertInto ::
  "new_block \<Rightarrow> (slice \<Rightarrow> slice \<Rightarrow> int) \<Rightarrow> WriteBatch \<Rightarrow> MemTable \<Rightarrow> (MemTable \<times> Status) option" where
  "InsertInto new_block ucmp b memtable =
     (case Iterate (MemTableInserter_Put new_block ucmp) (MemTableInserter_Delete new_block ucmp) b
             \<lparr>ins_sequence = Sequence b, ins_mem = memtable\<rparr> of
        None \<Rightarrow> None
      | Some (h, s) \<Rightarrow> Some (ins_mem h, s))"

definition SetContents :: "WriteBatch \<Rightarrow> slice \<Rightarrow> WriteBatch" where
  "SetContents b contents = contents"

definition WriteBatch_Append :: "WriteBatch \<Rightarrow> WriteBatch \<Rightarrow> WriteBatch" where
  "WriteBatch_Append dst src = SetCount dst (Count dst + Count src) @ drop kHeader src"

definition ByteSize :: "WriteBatch \<Rightarrow> nat" where
  "ByteSize b = length b"

definition Contents :: "WriteBatch \<Rightarrow> slice" where
  "Contents b = b"

subsection \<open>Layout\<close>

text \<open>The operations of a batch, and the batch they build.\<close>

datatype batch_op = Op_Put slice slice | Op_Delete slice

fun apply_op :: "WriteBatch \<Rightarrow> batch_op \<Rightarrow> WriteBatch" where
  "apply_op b (Op_Put k v) = WriteBatch_Put b k v"
| "apply_op b (Op_Delete k) = WriteBatch_Delete b k"

definition build :: "batch_op list \<Rightarrow> WriteBatch" where
  "build ops = foldl apply_op WriteBatch_new ops"

fun record_of :: "batch_op \<Rightarrow> bytes" where
  "record_of (Op_Put k v) = [1] @ PutLengthPrefixedSlice [] k @ PutLengthPrefixedSlice [] v"
| "record_of (Op_Delete k) = [0] @ PutLengthPrefixedSlice [] k"

fun op_short :: "batch_op \<Rightarrow> bool" where
  "op_short (Op_Put k v) \<longleftrightarrow> length k < 2 ^ 32 \<and> length v < 2 ^ 32"
| "op_short (Op_Delete k) \<longleftrightarrow> length k < 2 ^ 32"

definition batch_header :: "u64 \<Rightarrow> u32 \<Rightarrow> bytes" where
  "batch_header s n = EncodeFixed64 s @ EncodeFixed32 n"

lemma length_batch_header [simp]: "length (batch_header s n) = 12"
  by (simp add: batch_header_def)

lemma batch_header_fields [simp]:
  "Count (batch_header s n @ r) = n" "Sequence (batch_header s n @ r) = s"
  "SetCount (batch_header s n @ r) m = batch_header s m @ r" "SetSequence (batch_header s n @ r) t = batch_header t n @ r"
  by (simp_all add: Count_def Sequence_def SetCount_def SetSequence_def batch_header_def)

lemma WriteBatch_new_eq: "WriteBatch_new = batch_header 0 0"
  by (simp add: WriteBatch_new_def WriteBatch_Clear_def kHeader_def batch_header_def EncodeFixed64_def EncodeFixed32_def numeral_eq_Suc)

lemma apply_op_eq: "apply_op (batch_header s n @ r) p = batch_header s (n + 1) @ r @ record_of p"
  by (cases p) (simp_all add: WriteBatch_Put_def WriteBatch_Delete_def Let_def PutLengthPrefixedSlice_append [of "_ @ _"])

lemma foldl_apply_op:
  "foldl apply_op (batch_header s n @ r) ops = batch_header s (n + of_nat (length ops)) @ r @ concat (map record_of ops)"
  by (induction ops arbitrary: n r) (simp_all add: apply_op_eq algebra_simps)

lemma build_eq: "build ops = batch_header 0 (of_nat (length ops)) @ concat (map record_of ops)"
  using foldl_apply_op [of 0 0 "[]" ops] by (simp add: build_def WriteBatch_new_eq)

subsection \<open>Iteration\<close>

fun run_ops ::
  "('h \<Rightarrow> slice \<Rightarrow> slice \<Rightarrow> 'h option) \<Rightarrow> ('h \<Rightarrow> slice \<Rightarrow> 'h option) \<Rightarrow> batch_op list \<Rightarrow> 'h \<Rightarrow> 'h option" where
  "run_ops put del [] h = Some h"
| "run_ops put del (Op_Put k v # ops) h = do { h' \<leftarrow> put h k v; run_ops put del ops h' }"
| "run_ops put del (Op_Delete k # ops) h = do { h' \<leftarrow> del h k; run_ops put del ops h' }"

lemma Iterate_loop_records:
  "list_all op_short ops \<Longrightarrow>
   Iterate_loop put del (concat (map record_of ops)) h found =
     map_option (\<lambda>h'. (h', found + of_nat (length ops), None)) (run_ops put del ops h)"
proof (induction ops arbitrary: h found)
  case (Cons p ops)
  then show ?case
    by (cases p) (auto simp: algebra_simps split: option.splits)
qed simp

lemma Iterate_records:
  assumes "list_all op_short ops"
  shows "Iterate put del (batch_header s (of_nat (length ops)) @ concat (map record_of ops)) h =
    map_option (\<lambda>h'. (h', OK)) (run_ops put del ops h)"
  using assms by (cases "run_ops put del ops h") (simp_all add: Iterate_def kHeader_def Iterate_loop_records)

subsection \<open>Insertion into a memtable\<close>

fun number_ops :: "SequenceNumber \<Rightarrow> batch_op list \<Rightarrow> mem_op list" where
  "number_ops s [] = []"
| "number_ops s (Op_Put k v # ops) = (s, kTypeValue, k, v) # number_ops (s + 1) ops"
| "number_ops s (Op_Delete k # ops) = (s, kTypeDeletion, k, []) # number_ops (s + 1) ops"

lemma run_ops_inserter:
  "run_ops (MemTableInserter_Put nb ucmp) (MemTableInserter_Delete nb ucmp) ops \<lparr>ins_sequence = s, ins_mem = m\<rparr> =
   map_option (\<lambda>m'. \<lparr>ins_sequence = s + of_nat (length ops), ins_mem = m'\<rparr>) (mem_add_all nb ucmp m (number_ops s ops))"
proof (induction ops arbitrary: s m)
  case (Cons p ops)
  then show ?case
    by (cases p)
      (auto simp: MemTableInserter_Put_def MemTableInserter_Delete_def algebra_simps Option.bind_eq_Some_conv
        split: option.splits)
qed simp

lemma InsertInto_eq:
  assumes "list_all op_short ops"
  shows "InsertInto nb ucmp (SetSequence (build ops) s) m =
    map_option (\<lambda>m'. (m', OK)) (mem_add_all nb ucmp m (number_ops s ops))"
  using assms
  by (cases "mem_add_all nb ucmp m (number_ops s ops)")
    (simp_all add: InsertInto_def build_eq Iterate_records run_ops_inserter)

lemma number_ops_short: "list_all (op_ok ok) (number_ops s ops) \<Longrightarrow> list_all op_short ops"
  by (induction s ops rule: number_ops.induct) (auto simp: op_ok_def)

subsection \<open>Properties\<close>

text \<open>
  C15: A write batch holds the operations put into it, in order. The batch built from a sequence of
  \<open>Put\<close> and \<open>Delete\<close> calls counts them, keeps a sequence number set in its header, grows by appending
  another batch to the batch of both sequences, and \<open>Iterate\<close> calls the handler for each operation in
  turn and reports success; with a wrong count it reports corruption instead.
\<close>

theorem write_batch_roundtrip:
  assumes "list_all op_short ops" "list_all op_short rest"
  shows "Count (build ops) = of_nat (length ops) \<and>
    Sequence (SetSequence (build ops) s) = s \<and> Count (SetSequence (build ops) s) = of_nat (length ops) \<and>
    WriteBatch_Append (build ops) (build rest) = build (ops @ rest) \<and>
    Iterate put del (SetSequence (build ops) s) h = map_option (\<lambda>h'. (h', OK)) (run_ops put del ops h) \<and>
    (n \<noteq> of_nat (length ops) \<longrightarrow>
       Iterate put del (SetCount (build ops) n) h =
         map_option (\<lambda>h'. (h', Corruption (str ''WriteBatch has wrong count'') [])) (run_ops put del ops h))"
  using assms
  by (cases "run_ops put del ops h")
    (simp_all add: build_eq Iterate_records WriteBatch_Append_def kHeader_def Iterate_def Iterate_loop_records)

theorem write_batch_roundtrip_witness:
  "Iterate (\<lambda>h k v. Some (h @ [(k, Some v)])) (\<lambda>h k. Some (h @ [(k, None)]))
     (SetSequence (build [Op_Put [97] [1], Op_Delete [98]]) 7) [] = Some ([([97], Some [1]), ([98], None)], OK)"
  using write_batch_roundtrip [where ops = "[Op_Put [97] [1], Op_Delete [98]]" and rest = "[]" and s = 7
      and put = "\<lambda>h k v. Some (h @ [(k, Some v)])" and del = "\<lambda>h k. Some (h @ [(k, None)])" and h = "[]"]
  by simp

text \<open>
  C26: Applying a batch to a memtable adds its operations with consecutive sequence numbers. If the
  memtable holds a log and the operations, numbered from the sequence number of the batch, extend it,
  then \<open>InsertInto\<close> succeeds and the memtable holds the extended log.
\<close>

theorem write_batch_insert:
  assumes "user_comparator ucmp ok sep suc" "mem_log ucmp ok m log" "log_ok ok (log @ number_ops s ops)"
  shows "\<exists>m'. InsertInto nb ucmp (SetSequence (build ops) s) m = Some (m', OK) \<and>
    mem_log ucmp ok m' (log @ number_ops s ops)"
proof -
  have "list_all op_short ops"
    using assms(3) number_ops_short by (auto simp: log_ok_def)
  with user_comparator.mem_log_add_all [OF assms, of nb] show ?thesis by (auto simp: InsertInto_eq)
qed

theorem write_batch_insert_witness:
  "\<exists>m'. InsertInto bump_new BytewiseComparator_Compare
       (SetSequence (build [Op_Put [97] [1], Op_Delete [97]]) 5) (MemTable_new bump_new) = Some (m', OK) \<and>
     mem_log BytewiseComparator_Compare (\<lambda>_. True) m' [(5, kTypeValue, [97], [1]), (6, kTypeDeletion, [97], [])]"
proof -
  have "log_ok (\<lambda>_. True) ([] @ number_ops 5 [Op_Put [97] [1], Op_Delete [97]])"
    by (simp add: log_ok_def op_ok_def kMaxSequenceNumber_eq)
  from write_batch_insert [OF bytewise_internal.user_comparator_axioms bytewise_internal.mem_log_new this, of bump_new bump_new]
  show ?thesis by simp
qed

end
