(* ===== verification/Files.thy ===== *)
theory Files
  imports Status
begin

text \<open>
  The file and environment interfaces (\<open>include/leveldb/env.h\<close>) and the utilities over them
  (\<open>util/env.cc\<close>). An abstract class is the record of its virtual functions over a type of states; a
  function returns \<open>None\<close> when it has no defined result (a null or dangling pointer is dereferenced, or
  it does not return). The contracts are locales: what a writable file has been given is kept in order,
  sequential and random reads show the bytes of the file.
\<close>

subsection \<open>The classes\<close>

record 'f SequentialFile =
  sf_Read :: "'f \<Rightarrow> nat \<Rightarrow> slice \<Rightarrow> (Status \<times> slice \<times> 'f) option"
  sf_Skip :: "'f \<Rightarrow> u64 \<Rightarrow> (Status \<times> 'f) option"
  sf_delete :: "'f \<Rightarrow> 'f option"

record 'f RandomAccessFile =
  rf_Read :: "'f \<Rightarrow> u64 \<Rightarrow> nat \<Rightarrow> slice \<Rightarrow> (Status \<times> slice) option"

record 'f WritableFile =
  wf_Append :: "'f \<Rightarrow> slice \<Rightarrow> (Status \<times> 'f) option"
  wf_Close :: "'f \<Rightarrow> (Status \<times> 'f) option"
  wf_Flush :: "'f \<Rightarrow> (Status \<times> 'f) option"
  wf_Sync :: "'f \<Rightarrow> (Status \<times> 'f) option"
  wf_delete :: "'f \<Rightarrow> 'f option"

text \<open>
  An environment with state \<open>'e\<close>; \<open>'s\<close>, \<open>'r\<close> and \<open>'w\<close> are its sequential, random-access and writable
  file objects, whose operations may change the environment.
\<close>

record ('e, 's, 'r, 'w) Env =
  env_NewSequentialFile :: "'e \<Rightarrow> bytes \<Rightarrow> (Status \<times> 's option \<times> 'e) option"
  env_NewRandomAccessFile :: "'e \<Rightarrow> bytes \<Rightarrow> (Status \<times> 'r option \<times> 'e) option"
  env_NewWritableFile :: "'e \<Rightarrow> bytes \<Rightarrow> (Status \<times> 'w option \<times> 'e) option"
  env_NewAppendableFile :: "'e \<Rightarrow> bytes \<Rightarrow> (Status \<times> 'w option \<times> 'e) option"
  env_FileExists :: "'e \<Rightarrow> bytes \<Rightarrow> bool"
  env_GetChildren :: "'e \<Rightarrow> bytes \<Rightarrow> Status \<times> bytes list"
  env_RemoveFile :: "'e \<Rightarrow> bytes \<Rightarrow> (Status \<times> 'e) option"
  env_GetFileSize :: "'e \<Rightarrow> bytes \<Rightarrow> u64 \<Rightarrow> (Status \<times> u64) option"
  env_RenameFile :: "'e \<Rightarrow> bytes \<Rightarrow> bytes \<Rightarrow> (Status \<times> 'e) option"
  env_seq :: "('e \<times> 's) SequentialFile"
  env_random :: "('e \<times> 'r) RandomAccessFile"
  env_writable :: "('e \<times> 'w) WritableFile"

text \<open>The default for environments that cannot append to an existing file.\<close>

definition Env_NewAppendableFile :: "'e \<Rightarrow> bytes \<Rightarrow> (Status \<times> 'w option \<times> 'e) option" where
  "Env_NewAppendableFile e fname = Some (NotSupported (str ''NewAppendableFile'') fname, None, e)"

subsection \<open>Whole files\<close>

definition DoWriteStringToFile ::
  "('e, 's, 'r, 'w) Env \<Rightarrow> 'e \<Rightarrow> slice \<Rightarrow> bytes \<Rightarrow> bool \<Rightarrow> (Status \<times> 'e) option" where
  "DoWriteStringToFile E e data fname should_sync = do {
     (s, file, e) \<leftarrow> env_NewWritableFile E e fname;
     if \<not> Status_ok s then Some (s, e)
     else do {
       f \<leftarrow> file;
       let W = env_writable E;
       (s, ef) \<leftarrow> wf_Append W (e, f) data;
       (s, ef) \<leftarrow> (if Status_ok s \<and> should_sync then wf_Sync W ef else Some (s, ef));
       (s, ef) \<leftarrow> (if Status_ok s then wf_Close W ef else Some (s, ef));
       ef \<leftarrow> wf_delete W ef;
       if \<not> Status_ok s
       then do { (_, e) \<leftarrow> env_RemoveFile E (fst ef) fname; Some (s, e) }
       else Some (s, fst ef)
     }
   }"

definition WriteStringToFile ::
  "('e, 's, 'r, 'w) Env \<Rightarrow> 'e \<Rightarrow> slice \<Rightarrow> bytes \<Rightarrow> (Status \<times> 'e) option" where
  "WriteStringToFile E e data fname = DoWriteStringToFile E e data fname False"

definition WriteStringToFileSync ::
  "('e, 's, 'r, 'w) Env \<Rightarrow> 'e \<Rightarrow> slice \<Rightarrow> bytes \<Rightarrow> (Status \<times> 'e) option" where
  "WriteStringToFileSync E e data fname = DoWriteStringToFile E e data fname True"

definition kBufferSize :: nat where "kBufferSize = 8192"

partial_function (option) ReadFile_loop ::
  "'f SequentialFile \<Rightarrow> 'f \<Rightarrow> bytes \<Rightarrow> (Status \<times> bytes \<times> 'f) option" where
  "ReadFile_loop S f data = do {
     (s, fragment, f) \<leftarrow> sf_Read S f kBufferSize [];
     if \<not> Status_ok s then Some (s, data, f)
     else if fragment = [] then Some (s, data @ fragment, f)
     else ReadFile_loop S f (data @ fragment)
   }"

definition ReadFileToString ::
  "('e, 's, 'r, 'w) Env \<Rightarrow> 'e \<Rightarrow> bytes \<Rightarrow> (Status \<times> bytes \<times> 'e) option" where
  "ReadFileToString E e fname = do {
     (s, file, e) \<leftarrow> env_NewSequentialFile E e fname;
     if \<not> Status_ok s then Some (s, [], e)
     else do {
       f \<leftarrow> file;
       (s, data, ef) \<leftarrow> ReadFile_loop (env_seq E) (e, f) [];
       ef \<leftarrow> sf_delete (env_seq E) ef;
       Some (s, data, fst ef)
     }
   }"

subsection \<open>The contracts\<close>

locale writable_file =
  fixes W :: "'f WritableFile" and contents :: "'f \<Rightarrow> bytes" and wok :: "'f \<Rightarrow> bool"
  assumes append: "wok f \<Longrightarrow> length (contents f) + length d < 2 ^ 64 \<Longrightarrow>
      \<exists>f'. wf_Append W f d = Some (OK, f') \<and> wok f' \<and> contents f' = contents f @ d"
    and flush: "wok f \<Longrightarrow> \<exists>f'. wf_Flush W f = Some (OK, f') \<and> wok f' \<and> contents f' = contents f"
    and sync: "wok f \<Longrightarrow> \<exists>f'. wf_Sync W f = Some (OK, f') \<and> wok f' \<and> contents f' = contents f"
    and close: "wok f \<Longrightarrow> \<exists>f'. wf_Close W f = Some (OK, f') \<and> wok f' \<and> contents f' = contents f"

locale sequential_file =
  fixes S :: "'f SequentialFile" and rest :: "'f \<Rightarrow> bytes" and sok :: "'f \<Rightarrow> bool"
  assumes read: "sok f \<Longrightarrow>
      \<exists>f'. sf_Read S f n r = Some (OK, take n (rest f), f') \<and> sok f' \<and> rest f' = drop n (rest f)"
    and skip: "sok f \<Longrightarrow> \<exists>f'. sf_Skip S f m = Some (OK, f') \<and> sok f' \<and> rest f' = drop (unat m) (rest f)"

locale random_access_file =
  fixes R :: "'f RandomAccessFile" and contents :: "'f \<Rightarrow> bytes" and rok :: "'f \<Rightarrow> bool"
  assumes read: "rok f \<Longrightarrow> unat offset \<le> length (contents f) \<Longrightarrow>
      rf_Read R f offset n r = Some (OK, take n (drop (unat offset) (contents f)))"

context sequential_file
begin

lemma ReadFile_loop_all:
  assumes P: "\<And>f n r s d f'. P f \<Longrightarrow> sf_Read S f n r = Some (s, d, f') \<Longrightarrow> P f'"
  shows "sok f \<Longrightarrow> P f \<Longrightarrow>
    \<exists>f'. ReadFile_loop S f data = Some (OK, data @ rest f, f') \<and> sok f' \<and> rest f' = [] \<and> P f'"
proof (induction "length (rest f)" arbitrary: f data rule: less_induct)
  case less
  obtain f' where r: "sf_Read S f kBufferSize [] = Some (OK, take kBufferSize (rest f), f')"
    and f': "sok f'" "rest f' = drop kBufferSize (rest f)"
    using read [OF less.prems(1)] by blast
  have P': "P f'" using P [OF less.prems(2) r] .
  show ?case
  proof (cases "rest f = []")
    case True
    then show ?thesis using r f' P' by (subst ReadFile_loop.simps) (simp add: kBufferSize_def)
  next
    case False
    then have "length (rest f') < length (rest f)" using f'(2) by (simp add: kBufferSize_def)
    from less.hyps [OF this f'(1) P', of "data @ take kBufferSize (rest f)"] show ?thesis
      using r f' False by (subst ReadFile_loop.simps) (simp add: kBufferSize_def)
  qed
qed

end

end
