(* ===== verification/Ordmap.thy ===== *)
theory Ordmap
  imports Prelude "HOL-Library.List_Lexorder" "HOL-Library.Product_Lexorder"
begin

text \<open>
  The ordered containers \<open>std::map\<close> and \<open>std::set\<close> the source uses: association lists with strictly
  increasing keys. Byte strings compare as \<open>std::string\<close> does, lexicographically on unsigned bytes,
  pairs lexicographically. A lookup is \<open>map_of\<close>.
\<close>

fun om_put :: "'k::linorder \<Rightarrow> 'v \<Rightarrow> ('k \<times> 'v) list \<Rightarrow> ('k \<times> 'v) list" where
  "om_put k v [] = [(k, v)]"
| "om_put k v (e # m) =
     (if k < fst e then (k, v) # e # m
      else if k = fst e then (k, v) # m
      else e # om_put k v m)"

definition om_erase :: "'k \<Rightarrow> ('k \<times> 'v) list \<Rightarrow> ('k \<times> 'v) list" where
  "om_erase k m = filter (\<lambda>e. fst e \<noteq> k) m"

fun os_insert :: "'k::linorder \<Rightarrow> 'k list \<Rightarrow> 'k list" where
  "os_insert x [] = [x]"
| "os_insert x (y # ys) = (if x < y then x # y # ys else if x = y then y # ys else y # os_insert x ys)"

definition om_sorted :: "('k::linorder \<times> 'v) list \<Rightarrow> bool" where
  "om_sorted m \<longleftrightarrow> sorted_wrt (<) (map fst m)"

lemma map_of_om_put [simp]: "map_of (om_put k v m) = (map_of m)(k \<mapsto> v)"
  by (induction m) (auto simp: fun_eq_iff)

lemma map_of_om_erase [simp]: "map_of (om_erase k m) = (map_of m)(k := None)"
  by (induction m) (auto simp: om_erase_def fun_eq_iff)

lemma keys_om_put [simp]: "fst ` set (om_put k v m) = insert k (fst ` set m)"
  by (induction m) auto

lemma om_sorted_put [simp, intro]: "om_sorted m \<Longrightarrow> om_sorted (om_put k v m)"
proof (induction m)
  case (Cons e m)
  have "\<forall>x\<in>fst ` set (om_put k v m). fst e < x" if "\<not> k < fst e" "k \<noteq> fst e"
    using Cons.prems that by (simp add: om_sorted_def)
  then show ?case using Cons by (auto simp: om_sorted_def)
qed (simp add: om_sorted_def)

lemma om_sorted_erase [simp, intro]: "om_sorted m \<Longrightarrow> om_sorted (om_erase k m)"
  by (induction m) (auto simp: om_sorted_def om_erase_def)

lemma om_sorted_Nil [simp]: "om_sorted []"
  by (simp add: om_sorted_def)

lemma om_sorted_distinct: "om_sorted m \<Longrightarrow> distinct (map fst m)"
  by (simp add: om_sorted_def strict_sorted_iff)

lemma set_os_insert [simp]: "set (os_insert x ys) = insert x (set ys)"
  by (induction ys) auto

lemma sorted_os_insert [simp, intro]: "sorted_wrt (<) ys \<Longrightarrow> sorted_wrt (<) (os_insert x ys)"
  by (induction ys) auto

end
