(* ===== verification/Memenv.thy ===== *)
theory Memenv
  imports Files Ordmap "HOL-Library.Multiset"
begin

text \<open>
  The in-memory environment (\<open>helpers/memenv/memenv.cc\<close>). A file is a vector of fixed-size blocks with
  a size and a reference count; the environment maps names to pointers to files. Pointers are addresses
  of a heap, \<open>None\<close> the null pointer; using a null or dangling pointer has no defined result. The bytes
  of a fresh block are uninitialised: \<open>fresh\<close> gives them, for each block number, without constraint.
\<close>

subsection \<open>Files\<close>

definition memenv_kBlockSize :: nat where "memenv_kBlockSize = 8 * 1024"

record FileState =
  fs_refs :: int
  fs_blocks :: "bytes list"
  fs_size :: u64

definition FileState_new :: FileState where
  "FileState_new = \<lparr>fs_refs = 0, fs_blocks = [], fs_size = 0\<rparr>"

definition FileState_Ref :: "FileState \<Rightarrow> FileState" where
  "FileState_Ref f = f\<lparr>fs_refs := fs_refs f + 1\<rparr>"

text \<open>\<open>None\<close>: the object deleted itself.\<close>

definition FileState_Unref :: "FileState \<Rightarrow> FileState option" where
  "FileState_Unref f =
     (let f = f\<lparr>fs_refs := fs_refs f - 1\<rparr> in if fs_refs f \<le> 0 then None else Some f)"

definition FileState_Size :: "FileState \<Rightarrow> u64" where "FileState_Size f = fs_size f"

definition FileState_Truncate :: "FileState \<Rightarrow> FileState" where
  "FileState_Truncate f = f\<lparr>fs_blocks := [], fs_size := 0\<rparr>"

text \<open>\<open>None\<close>: a block past the last one would be read.\<close>

function Read_loop :: "bytes list \<Rightarrow> nat \<Rightarrow> nat \<Rightarrow> nat \<Rightarrow> bytes \<Rightarrow> bytes option" where
  "Read_loop blocks block block_offset bytes_to_copy dst =
     (if bytes_to_copy > 0 then
        if block < length blocks then
          let avail = memenv_kBlockSize - block_offset;
              avail = (if avail > bytes_to_copy then bytes_to_copy else avail)
          in Read_loop blocks (block + 1) 0 (bytes_to_copy - avail)
               (dst @ take avail (drop block_offset (blocks ! block)))
        else None
      else Some dst)"
  by pat_completeness auto
termination by (relation "measure (\<lambda>(blocks, block, _). length blocks - block)") auto

declare Read_loop.simps [simp del]

definition FileState_Read :: "FileState \<Rightarrow> u64 \<Rightarrow> nat \<Rightarrow> slice \<Rightarrow> (Status \<times> slice) option" where
  "FileState_Read f offset n result =
     (if offset > fs_size f then Some (IOError (str ''Offset greater than file size.'') [], result)
      else
        let available = fs_size f - offset;
            n = (if n > unat available then unat available else n)
        in if n = 0 then Some (OK, [])
           else do {
             dst \<leftarrow> Read_loop (fs_blocks f) (unat offset div memenv_kBlockSize)
                      (unat offset mod memenv_kBlockSize) n [];
             Some (OK, dst)
           })"

definition memcpy_last :: "bytes list \<Rightarrow> nat \<Rightarrow> bytes \<Rightarrow> bytes list" where
  "memcpy_last blocks offset src =
     butlast blocks @ [take offset (last blocks) @ src @ drop (offset + length src) (last blocks)]"

function Append_loop :: "(nat \<Rightarrow> nat \<Rightarrow> byte) \<Rightarrow> FileState \<Rightarrow> bytes \<Rightarrow> FileState" where
  "Append_loop fresh f src =
     (if length src > 0 then
        let offset = unat (fs_size f) mod memenv_kBlockSize;
            blocks = (if offset \<noteq> 0 then fs_blocks f
                      else fs_blocks f @ [map (fresh (length (fs_blocks f))) [0..<memenv_kBlockSize]]);
            avail = (if offset \<noteq> 0 then memenv_kBlockSize - offset else memenv_kBlockSize);
            avail = (if avail > length src then length src else avail)
        in Append_loop fresh
             (f\<lparr>fs_blocks := memcpy_last blocks offset (take avail src), fs_size := fs_size f + of_nat avail\<rparr>)
             (drop avail src)
      else f)"
  by pat_completeness auto
termination by (relation "measure (\<lambda>(fresh, f, src). length src)") (auto simp: memenv_kBlockSize_def)

declare Append_loop.simps [simp del]

definition FileState_Append :: "(nat \<Rightarrow> nat \<Rightarrow> byte) \<Rightarrow> FileState \<Rightarrow> slice \<Rightarrow> Status \<times> FileState" where
  "FileState_Append fresh f data = (OK, Append_loop fresh f data)"

subsection \<open>The heap of files and the file objects\<close>

record MemEnv =
  me_heap :: "nat \<rightharpoonup> FileState"
  me_brk :: nat
  me_map :: "(bytes \<times> nat option) list"

definition MemEnv_new :: MemEnv where
  "MemEnv_new = \<lparr>me_heap = Map.empty, me_brk = 0, me_map = []\<rparr>"

definition mem_deref :: "MemEnv \<Rightarrow> nat option \<Rightarrow> FileState option" where
  "mem_deref e p = do { a \<leftarrow> p; me_heap e a }"

definition mem_store :: "MemEnv \<Rightarrow> nat option \<Rightarrow> FileState option \<Rightarrow> MemEnv" where
  "mem_store e p f = (case p of None \<Rightarrow> e | Some a \<Rightarrow> e\<lparr>me_heap := (me_heap e)(a := f)\<rparr>)"

text \<open>\<open>new FileState\<close> and the first \<open>Ref\<close>; \<open>Ref\<close> and \<open>Unref\<close> through a pointer.\<close>

definition mem_alloc :: "MemEnv \<Rightarrow> nat option \<times> MemEnv" where
  "mem_alloc e = (Some (me_brk e),
     e\<lparr>me_heap := (me_heap e)(me_brk e \<mapsto> FileState_Ref FileState_new), me_brk := me_brk e + 1\<rparr>)"

definition mem_Ref :: "MemEnv \<Rightarrow> nat option \<Rightarrow> MemEnv option" where
  "mem_Ref e p = do { f \<leftarrow> mem_deref e p; Some (mem_store e p (Some (FileState_Ref f))) }"

definition mem_Unref :: "MemEnv \<Rightarrow> nat option \<Rightarrow> MemEnv option" where
  "mem_Unref e p = do { f \<leftarrow> mem_deref e p; Some (mem_store e p (FileState_Unref f)) }"

record SequentialFileImpl =
  sq_file :: "nat option"
  sq_pos :: u64

definition SequentialFileImpl_new :: "MemEnv \<Rightarrow> nat option \<Rightarrow> (SequentialFileImpl \<times> MemEnv) option" where
  "SequentialFileImpl_new e p = do { e \<leftarrow> mem_Ref e p; Some (\<lparr>sq_file = p, sq_pos = 0\<rparr>, e) }"

definition SequentialFileImpl_Read ::
  "MemEnv \<times> SequentialFileImpl \<Rightarrow> nat \<Rightarrow> slice \<Rightarrow> (Status \<times> slice \<times> MemEnv \<times> SequentialFileImpl) option" where
  "SequentialFileImpl_Read = (\<lambda>(e, h) n result. do {
     f \<leftarrow> mem_deref e (sq_file h);
     (s, result) \<leftarrow> FileState_Read f (sq_pos h) n result;
     Some (s, result, e, if Status_ok s then h\<lparr>sq_pos := sq_pos h + of_nat (length result)\<rparr> else h)
   })"

definition SequentialFileImpl_Skip ::
  "MemEnv \<times> SequentialFileImpl \<Rightarrow> u64 \<Rightarrow> (Status \<times> MemEnv \<times> SequentialFileImpl) option" where
  "SequentialFileImpl_Skip = (\<lambda>(e, h) n. do {
     f \<leftarrow> mem_deref e (sq_file h);
     if sq_pos h > FileState_Size f then Some (IOError (str ''pos_ > file_->Size()'') [], e, h)
     else
       let available = FileState_Size f - sq_pos h;
           n = (if n > available then available else n)
       in Some (OK, e, h\<lparr>sq_pos := sq_pos h + n\<rparr>)
   })"

definition SequentialFileImpl_delete :: "MemEnv \<times> SequentialFileImpl \<Rightarrow> (MemEnv \<times> SequentialFileImpl) option" where
  "SequentialFileImpl_delete = (\<lambda>(e, h). do { e \<leftarrow> mem_Unref e (sq_file h); Some (e, h) })"

definition SequentialFileImpl_class :: "(MemEnv \<times> SequentialFileImpl) SequentialFile" where
  "SequentialFileImpl_class =
     \<lparr>sf_Read = SequentialFileImpl_Read, sf_Skip = SequentialFileImpl_Skip, sf_delete = SequentialFileImpl_delete\<rparr>"

text \<open>The other two file objects hold only the pointer.\<close>

type_synonym RandomAccessFileImpl = "nat option"
type_synonym WritableFileImpl = "nat option"

definition RandomAccessFileImpl_new :: "MemEnv \<Rightarrow> nat option \<Rightarrow> (RandomAccessFileImpl \<times> MemEnv) option" where
  "RandomAccessFileImpl_new e p = do { e \<leftarrow> mem_Ref e p; Some (p, e) }"

definition RandomAccessFileImpl_Read ::
  "MemEnv \<times> RandomAccessFileImpl \<Rightarrow> u64 \<Rightarrow> nat \<Rightarrow> slice \<Rightarrow> (Status \<times> slice) option" where
  "RandomAccessFileImpl_Read = (\<lambda>(e, p) offset n result. do {
     f \<leftarrow> mem_deref e p;
     FileState_Read f offset n result
   })"

definition RandomAccessFileImpl_class :: "(MemEnv \<times> RandomAccessFileImpl) RandomAccessFile" where
  "RandomAccessFileImpl_class = \<lparr>rf_Read = RandomAccessFileImpl_Read\<rparr>"

definition WritableFileImpl_new :: "MemEnv \<Rightarrow> nat option \<Rightarrow> (WritableFileImpl \<times> MemEnv) option" where
  "WritableFileImpl_new e p = do { e \<leftarrow> mem_Ref e p; Some (p, e) }"

definition WritableFileImpl_Append ::
  "(nat \<Rightarrow> nat \<Rightarrow> byte) \<Rightarrow> MemEnv \<times> WritableFileImpl \<Rightarrow> slice \<Rightarrow> (Status \<times> MemEnv \<times> WritableFileImpl) option" where
  "WritableFileImpl_Append fresh = (\<lambda>(e, p) data. do {
     f \<leftarrow> mem_deref e p;
     let (s, f') = FileState_Append fresh f data;
     Some (s, mem_store e p (Some f'), p)
   })"

definition WritableFileImpl_noop :: "MemEnv \<times> WritableFileImpl \<Rightarrow> (Status \<times> MemEnv \<times> WritableFileImpl) option" where
  "WritableFileImpl_noop = (\<lambda>(e, p). Some (OK, e, p))"

definition file_delete :: "MemEnv \<times> nat option \<Rightarrow> (MemEnv \<times> nat option) option" where
  "file_delete = (\<lambda>(e, p). do { e \<leftarrow> mem_Unref e p; Some (e, p) })"

definition WritableFileImpl_class :: "(nat \<Rightarrow> nat \<Rightarrow> byte) \<Rightarrow> (MemEnv \<times> WritableFileImpl) WritableFile" where
  "WritableFileImpl_class fresh =
     \<lparr>wf_Append = WritableFileImpl_Append fresh, wf_Close = WritableFileImpl_noop, wf_Flush = WritableFileImpl_noop,
      wf_Sync = WritableFileImpl_noop, wf_delete = file_delete\<rparr>"

subsection \<open>The environment\<close>

text \<open>\<open>map[k]\<close> on a \<open>std::map\<close> of pointers: a missing key is inserted with the null pointer.\<close>

definition map_index :: "MemEnv \<Rightarrow> bytes \<Rightarrow> nat option \<times> MemEnv" where
  "map_index e k =
     (case map_of (me_map e) k of
        Some p \<Rightarrow> (p, e)
      | None \<Rightarrow> (None, e\<lparr>me_map := om_put k None (me_map e)\<rparr>))"

definition MemEnv_NewSequentialFile :: "MemEnv \<Rightarrow> bytes \<Rightarrow> (Status \<times> SequentialFileImpl option \<times> MemEnv) option" where
  "MemEnv_NewSequentialFile e fname =
     (if map_of (me_map e) fname = None then Some (IOError fname (str ''File not found''), None, e)
      else do {
        let (p, e) = map_index e fname;
        (h, e) \<leftarrow> SequentialFileImpl_new e p;
        Some (OK, Some h, e)
      })"

definition MemEnv_NewRandomAccessFile :: "MemEnv \<Rightarrow> bytes \<Rightarrow> (Status \<times> RandomAccessFileImpl option \<times> MemEnv) option" where
  "MemEnv_NewRandomAccessFile e fname =
     (if map_of (me_map e) fname = None then Some (IOError fname (str ''File not found''), None, e)
      else do {
        let (p, e) = map_index e fname;
        (h, e) \<leftarrow> RandomAccessFileImpl_new e p;
        Some (OK, Some h, e)
      })"

definition MemEnv_NewWritableFile :: "MemEnv \<Rightarrow> bytes \<Rightarrow> (Status \<times> WritableFileImpl option \<times> MemEnv) option" where
  "MemEnv_NewWritableFile e fname = do {
     (file, e) \<leftarrow>
       (case map_of (me_map e) fname of
          None \<Rightarrow>
            let (file, e) = mem_alloc e in Some (file, e\<lparr>me_map := om_put fname file (me_map e)\<rparr>)
        | Some file \<Rightarrow> do {
            f \<leftarrow> mem_deref e file;
            Some (file, mem_store e file (Some (FileState_Truncate f)))
          });
     (h, e) \<leftarrow> WritableFileImpl_new e file;
     Some (OK, Some h, e)
   }"

definition MemEnv_NewAppendableFile :: "MemEnv \<Rightarrow> bytes \<Rightarrow> (Status \<times> WritableFileImpl option \<times> MemEnv) option" where
  "MemEnv_NewAppendableFile e fname = do {
     let (file, e) = map_index e fname;
     let (file, e) = (if file = None then mem_alloc e else (file, e));
     (h, e) \<leftarrow> WritableFileImpl_new e file;
     Some (OK, Some h, e)
   }"

definition MemEnv_FileExists :: "MemEnv \<Rightarrow> bytes \<Rightarrow> bool" where
  "MemEnv_FileExists e fname \<longleftrightarrow> map_of (me_map e) fname \<noteq> None"

definition MemEnv_GetChildren :: "MemEnv \<Rightarrow> bytes \<Rightarrow> Status \<times> bytes list" where
  "MemEnv_GetChildren e dir =
     (OK, [drop (length dir + 1) filename. (filename, p) \<leftarrow> me_map e,
             length filename \<ge> length dir + 1 \<and> filename ! length dir = of_char (CHR ''/'') \<and>
             take (length dir) filename = dir])"

definition RemoveFileInternal :: "MemEnv \<Rightarrow> bytes \<Rightarrow> MemEnv option" where
  "RemoveFileInternal e fname =
     (if map_of (me_map e) fname = None then Some e
      else do {
        let (p, e) = map_index e fname;
        e \<leftarrow> mem_Unref e p;
        Some (e\<lparr>me_map := om_erase fname (me_map e)\<rparr>)
      })"

definition MemEnv_RemoveFile :: "MemEnv \<Rightarrow> bytes \<Rightarrow> (Status \<times> MemEnv) option" where
  "MemEnv_RemoveFile e fname =
     (if map_of (me_map e) fname = None then Some (IOError fname (str ''File not found''), e)
      else do { e \<leftarrow> RemoveFileInternal e fname; Some (OK, e) })"

definition MemEnv_GetFileSize :: "MemEnv \<Rightarrow> bytes \<Rightarrow> u64 \<Rightarrow> (Status \<times> u64) option" where
  "MemEnv_GetFileSize e fname file_size =
     (if map_of (me_map e) fname = None then Some (IOError fname (str ''File not found''), file_size)
      else do {
        f \<leftarrow> mem_deref e (fst (map_index e fname));
        Some (OK, FileState_Size f)
      })"

text \<open>The assignment \<open>map[target] = map[src]\<close> evaluates its right operand first.\<close>

definition MemEnv_RenameFile :: "MemEnv \<Rightarrow> bytes \<Rightarrow> bytes \<Rightarrow> (Status \<times> MemEnv) option" where
  "MemEnv_RenameFile e src target =
     (if map_of (me_map e) src = None then Some (IOError src (str ''File not found''), e)
      else do {
        e \<leftarrow> RemoveFileInternal e target;
        let (p, e) = map_index e src;
        let e = e\<lparr>me_map := om_put target p (me_map e)\<rparr>;
        Some (OK, e\<lparr>me_map := om_erase src (me_map e)\<rparr>)
      })"

definition InMemoryEnv :: "(nat \<Rightarrow> nat \<Rightarrow> byte) \<Rightarrow> (MemEnv, SequentialFileImpl, RandomAccessFileImpl, WritableFileImpl) Env" where
  "InMemoryEnv fresh =
     \<lparr>env_NewSequentialFile = MemEnv_NewSequentialFile,
      env_NewRandomAccessFile = MemEnv_NewRandomAccessFile,
      env_NewWritableFile = MemEnv_NewWritableFile,
      env_NewAppendableFile = MemEnv_NewAppendableFile,
      env_FileExists = MemEnv_FileExists,
      env_GetChildren = MemEnv_GetChildren,
      env_RemoveFile = MemEnv_RemoveFile,
      env_GetFileSize = MemEnv_GetFileSize,
      env_RenameFile = MemEnv_RenameFile,
      env_seq = SequentialFileImpl_class,
      env_random = RandomAccessFileImpl_class,
      env_writable = WritableFileImpl_class fresh\<rparr>"

subsection \<open>A file is a byte string\<close>

definition file_bytes :: "FileState \<Rightarrow> bytes" where
  "file_bytes f = take (unat (fs_size f)) (concat (fs_blocks f))"

definition file_inv :: "FileState \<Rightarrow> bool" where
  "file_inv f \<longleftrightarrow> (\<forall>b\<in>set (fs_blocks f). length b = memenv_kBlockSize) \<and>
     unat (fs_size f) \<le> memenv_kBlockSize * length (fs_blocks f) \<and>
     memenv_kBlockSize * length (fs_blocks f) < unat (fs_size f) + memenv_kBlockSize"

lemma kBlockSize_pos [simp]: "0 < memenv_kBlockSize" "memenv_kBlockSize \<noteq> 0"
  by (simp_all add: memenv_kBlockSize_def)

lemma length_concat_uniform: "\<forall>b\<in>set bs. length b = n \<Longrightarrow> length (concat bs) = n * length bs"
  by (induction bs) auto

lemma drop_concat_uniform:
  "\<forall>b\<in>set bs. length b = n \<Longrightarrow> drop (i * n) (concat bs) = concat (drop i bs)"
proof (induction bs arbitrary: i)
  case (Cons b bs)
  then show ?case by (cases i) auto
qed simp

lemma length_file_bytes [simp]: "file_inv f \<Longrightarrow> length (file_bytes f) = unat (fs_size f)"
  using length_concat_uniform [of "fs_blocks f" memenv_kBlockSize] by (simp add: file_inv_def file_bytes_def)

lemma file_inv_new [simp]: "file_inv FileState_new" "file_bytes FileState_new = []"
  by (simp_all add: file_inv_def FileState_new_def file_bytes_def)

lemma file_inv_Truncate [simp]: "file_inv (FileState_Truncate f)" "file_bytes (FileState_Truncate f) = []"
  by (simp_all add: file_inv_def FileState_Truncate_def file_bytes_def)

lemma file_inv_refs [simp]: "file_inv (f\<lparr>fs_refs := r\<rparr>) = file_inv f" "file_bytes (f\<lparr>fs_refs := r\<rparr>) = file_bytes f"
  by (simp_all add: file_inv_def file_bytes_def)

lemma Read_loop_uniform:
  assumes "\<forall>b\<in>set blocks. length b = memenv_kBlockSize"
    and "off < memenv_kBlockSize" and "block * memenv_kBlockSize + off + n \<le> memenv_kBlockSize * length blocks"
  shows "Read_loop blocks block off n dst =
    Some (dst @ take n (drop (block * memenv_kBlockSize + off) (concat blocks)))"
  using assms
proof (induction blocks block off n dst rule: Read_loop.induct)
  case (1 blocks block off n dst)
  let ?B = memenv_kBlockSize and ?a = "if memenv_kBlockSize - off > n then n else memenv_kBlockSize - off"
  show ?case
  proof (cases "n = 0")
    case False
    then have "block * ?B < length blocks * ?B" using "1.prems"(3) by (simp only: mult.commute)
    then have block: "block < length blocks" by simp
    have b: "length (blocks ! block) = ?B" using "1.prems"(1) block by simp
    have "drop (block * ?B + off) (concat blocks) = drop off (drop (block * ?B) (concat blocks))"
      by (simp add: add.commute)
    also have "\<dots> = drop off (blocks ! block @ drop ((block + 1) * ?B) (concat blocks))"
      unfolding drop_concat_uniform [OF "1.prems"(1)] using drop_index [OF block] by simp
    finally have split: "drop (block * ?B + off) (concat blocks) =
        drop off (blocks ! block) @ drop ((block + 1) * ?B) (concat blocks)"
      using b "1.prems"(2) by simp
    have n: "(block + 1) * ?B + 0 + (n - ?a) \<le> ?B * length blocks"
    proof (cases "?B - off \<le> n")
      case True then show ?thesis using "1.prems"(2,3) by (simp add: algebra_simps)
    next
      case False
      have "(block + 1) * ?B \<le> length blocks * ?B" using block by (intro mult_right_mono) simp_all
      then show ?thesis using False by (simp add: algebra_simps)
    qed
    have "Read_loop blocks block off n dst =
        Read_loop blocks (block + 1) 0 (n - ?a) (dst @ take ?a (drop off (blocks ! block)))"
      using False block by (subst Read_loop.simps) (simp add: Let_def)
    also have "\<dots> = Some ((dst @ take ?a (drop off (blocks ! block))) @
        take (n - ?a) (drop ((block + 1) * ?B + 0) (concat blocks)))"
      using False block "1.prems"(1) n by (intro "1.IH" [OF _ _ refl refl]) simp_all
    also have "\<dots> = Some (dst @ take n (drop (block * ?B + off) (concat blocks)))"
      using b by (simp add: split)
    finally show ?thesis .
  qed (simp add: Read_loop.simps)
qed

lemma FileState_Read_bytes:
  assumes "file_inv f"
  shows "FileState_Read f offset n r =
    (if unat offset \<le> length (file_bytes f) then Some (OK, take n (drop (unat offset) (file_bytes f)))
     else Some (IOError (str ''Offset greater than file size.'') [], r))"
proof (cases "offset \<le> fs_size f")
  case True
  let ?n = "min n (unat (fs_size f) - unat offset)"
  have avail: "unat (fs_size f - offset) = unat (fs_size f) - unat offset" using True by (simp add: unat_sub)
  have le: "unat offset \<le> unat (fs_size f)" using True by (simp add: word_le_nat_alt)
  have "Read_loop (fs_blocks f) (unat offset div memenv_kBlockSize) (unat offset mod memenv_kBlockSize) ?n [] =
      Some (take ?n (drop (unat offset) (concat (fs_blocks f))))"
    using assms le Read_loop_uniform [of "fs_blocks f" "unat offset mod memenv_kBlockSize" "unat offset div memenv_kBlockSize" ?n "[]"]
    by (auto simp: file_inv_def min_def)
  moreover have "take n (drop (unat offset) (file_bytes f)) = take ?n (drop (unat offset) (concat (fs_blocks f)))"
    by (simp add: file_bytes_def drop_take)
  ultimately show ?thesis
    using True le assms avail by (auto simp: FileState_Read_def Let_def min_def)
next
  case False
  then show ?thesis using assms by (simp add: FileState_Read_def word_le_nat_alt word_less_nat_alt not_le)
qed

lemma memcpy_last_bytes:
  assumes bl: "\<forall>b\<in>set bl. length b = memenv_kBlockSize" "length lb = memenv_kBlockSize"
    and len: "length bl = sz div memenv_kBlockSize" "off = sz mod memenv_kBlockSize"
    and src: "off + length src \<le> memenv_kBlockSize"
  shows "take (sz + length src) (concat (memcpy_last (bl @ [lb]) off src)) =
      take sz (concat (bl @ [lb])) @ src"
proof -
  have "length (concat bl) + off = sz" using length_concat_uniform [OF bl(1)] len by simp
  then have "sz = length (concat bl) + off" by simp
  then show ?thesis using bl(2) src by (simp add: memcpy_last_def)
qed

lemma Append_loop_bytes:
  "file_inv f \<Longrightarrow> length (file_bytes f) + length src < 2 ^ 64 \<Longrightarrow>
   file_inv (Append_loop fresh f src) \<and> file_bytes (Append_loop fresh f src) = file_bytes f @ src \<and>
   fs_refs (Append_loop fresh f src) = fs_refs f"
proof (induction fresh f src rule: Append_loop.induct)
  case (1 fresh f src)
  let ?B = memenv_kBlockSize and ?size = "unat (fs_size f)"
  show ?case
  proof (cases "src = []")
    case False
    define off where "off = ?size mod ?B"
    define a1 where "a1 = (if off \<noteq> 0 then ?B - off else ?B)"
    define a where "a = (if a1 > length src then length src else a1)"
    define blocks where "blocks = (if off \<noteq> 0 then fs_blocks f
        else fs_blocks f @ [map (fresh (length (fs_blocks f))) [0..<?B]])"
    define f' where "f' = f\<lparr>fs_blocks := memcpy_last blocks off (take a src), fs_size := fs_size f + of_nat a\<rparr>"
    have inv: "\<forall>b\<in>set (fs_blocks f). length b = ?B" "?size \<le> ?B * length (fs_blocks f)"
      "?B * length (fs_blocks f) < ?size + ?B"
      using "1.prems"(1) by (auto simp: file_inv_def)
    have off: "off < ?B" by (simp add: off_def)
    have a: "a \<le> length src" "off + a \<le> ?B" "0 < a" using False off by (auto simp: a_def a1_def)
    have unfold: "Append_loop fresh f src = Append_loop fresh f' (drop a src)"
      using False by (subst Append_loop.simps) (simp add: Let_def f'_def blocks_def a1_def a_def off_def)
    have dm: "?size = ?B * (?size div ?B) + off" by (simp add: off_def)
    have nblocks: "length blocks = ?size div ?B + 1 \<and> take ?size (concat blocks) = file_bytes f"
    proof (cases "off = 0")
      case True
      then have "?B * (?size div ?B) = ?size" using dm by simp
      then have "?B * length (fs_blocks f) < ?B * (?size div ?B + 1)" "?B * (?size div ?B) \<le> ?B * length (fs_blocks f)"
        using inv(2,3) by (simp_all add: algebra_simps)
      then have "length (fs_blocks f) < ?size div ?B + 1" "?size div ?B \<le> length (fs_blocks f)"
        by (meson kBlockSize_pos(1) mult_less_cancel1 mult_le_cancel1)+
      then have len: "length (fs_blocks f) = ?size div ?B" by simp
      then show ?thesis using True length_concat_uniform [OF inv(1)] dm
        by (simp add: blocks_def file_bytes_def)
    next
      case False
      have "?B * (?size div ?B) < ?B * length (fs_blocks f)" using inv(2) dm False by linarith
      moreover have "?B * length (fs_blocks f) < ?B * (?size div ?B + 2)"
        using inv(3) dm off by (simp add: algebra_simps)
      ultimately have "?size div ?B < length (fs_blocks f)" "length (fs_blocks f) < ?size div ?B + 2"
        by (meson kBlockSize_pos(1) mult_less_cancel1)+
      then show ?thesis using False by (simp add: blocks_def file_bytes_def)
    qed
    have uniform: "\<forall>b\<in>set blocks. length b = ?B" using inv(1) by (auto simp: blocks_def)
    obtain bl lb where b: "blocks = bl @ [lb]" using nblocks by (cases blocks rule: rev_cases) auto
    have size': "unat (fs_size f + of_nat a) = ?size + a"
      using "1.prems" a(1) by (simp add: unat_word_ariths unat_of_nat)
    have bytes': "file_bytes f' = file_bytes f @ take a src"
      using memcpy_last_bytes [of bl lb ?size off "take a src"] uniform b nblocks a size'
      by (simp add: file_bytes_def f'_def off_def)
    have "length (memcpy_last blocks off (take a src)) = length blocks" using b by (simp add: memcpy_last_def)
    moreover have "\<forall>x\<in>set (memcpy_last blocks off (take a src)). length x = ?B"
      using b uniform a off by (auto simp: memcpy_last_def)
    moreover have "?B * length blocks + off = ?size + ?B" using nblocks dm by (simp add: algebra_simps)
    then have "?size + a \<le> ?B * length blocks" "?B * length blocks < ?size + a + ?B" using a off by linarith+
    ultimately have inv': "file_inv f'" using size' by (simp add: file_inv_def f'_def)
    have small: "length (file_bytes f') + length (drop a src) < 2 ^ 64"
      using "1.prems"(2) bytes' a(1) by simp
    have "file_inv (Append_loop fresh f' (drop a src)) \<and> file_bytes (Append_loop fresh f' (drop a src)) = file_bytes f' @ drop a src \<and>
        fs_refs (Append_loop fresh f' (drop a src)) = fs_refs f'"
      using "1.IH" [OF _ off_def blocks_def a1_def a_def, folded f'_def] False inv' small by simp
    then show ?thesis unfolding unfold using bytes' by (simp add: f'_def)
  qed (use "1.prems" in \<open>simp add: Append_loop.simps\<close>)
qed

subsection \<open>The file objects keep the contracts\<close>

definition bytes_at :: "MemEnv \<Rightarrow> nat option \<Rightarrow> bytes option" where
  "bytes_at e p = map_option file_bytes (mem_deref e p)"

definition good_ptr :: "MemEnv \<Rightarrow> nat option \<Rightarrow> bool" where
  "good_ptr e p \<longleftrightarrow> (\<exists>f. mem_deref e p = Some f \<and> file_inv f)"

lemma mem_deref_store [simp]: "p \<noteq> None \<Longrightarrow> mem_deref (mem_store e p f) q = (if q = p then f else mem_deref e q)"
  by (cases p; cases q) (auto simp: mem_deref_def mem_store_def)

lemma mem_deref_Some: "mem_deref e p = Some f \<longleftrightarrow> (\<exists>a. p = Some a \<and> me_heap e a = Some f)"
  by (cases p) (auto simp: mem_deref_def)

lemma store_heap [simp]: "me_heap (mem_store e (Some a) f) = (me_heap e)(a := f)"
  by (simp add: mem_store_def)

lemma store_map [simp]: "me_map (mem_store e p f) = me_map e" "me_brk (mem_store e p f) = me_brk e"
  by (cases p; simp add: mem_store_def)+

lemma deref_me_map [simp]: "mem_deref (e\<lparr>me_map := m\<rparr>) = mem_deref e" "bytes_at (e\<lparr>me_map := m\<rparr>) = bytes_at e"
  by (simp_all add: fun_eq_iff mem_deref_def bytes_at_def)

definition seq_rest :: "MemEnv \<times> SequentialFileImpl \<Rightarrow> bytes" where
  "seq_rest = (\<lambda>(e, h). drop (unat (sq_pos h)) (the (bytes_at e (sq_file h))))"

definition seq_ok :: "MemEnv \<times> SequentialFileImpl \<Rightarrow> bool" where
  "seq_ok = (\<lambda>(e, h). good_ptr e (sq_file h) \<and> unat (sq_pos h) \<le> length (the (bytes_at e (sq_file h))))"

lemma WritableFileImpl_Append_bytes:
  assumes "good_ptr e p" "length (the (bytes_at e p)) + length d < 2 ^ 64"
  shows "\<exists>f f'. mem_deref e p = Some f \<and> WritableFileImpl_Append fresh (e, p) d = Some (OK, mem_store e p (Some f'), p) \<and>
    file_inv f' \<and> file_bytes f' = file_bytes f @ d \<and> fs_refs f' = fs_refs f"
proof -
  obtain f where f: "mem_deref e p = Some f" "file_inv f" using assms(1) by (auto simp: good_ptr_def)
  then show ?thesis
    using Append_loop_bytes [of f d fresh] assms(2)
    by (auto simp: WritableFileImpl_Append_def FileState_Append_def bytes_at_def)
qed

interpretation mem_writable: writable_file "WritableFileImpl_class fresh"
  "\<lambda>(e, p). the (bytes_at e p)" "\<lambda>(e, p). good_ptr e p" for fresh
proof
  fix f :: "MemEnv \<times> nat option" and d :: slice
  assume "case f of (e, p) \<Rightarrow> good_ptr e p" "length (case f of (e, p) \<Rightarrow> the (bytes_at e p)) + length d < 2 ^ 64"
  then show "\<exists>f'. wf_Append (WritableFileImpl_class fresh) f d = Some (OK, f') \<and> (case f' of (e, p) \<Rightarrow> good_ptr e p) \<and>
      (case f' of (e, p) \<Rightarrow> the (bytes_at e p)) = (case f of (e, p) \<Rightarrow> the (bytes_at e p)) @ d"
    using WritableFileImpl_Append_bytes [of "fst f" "snd f" d fresh]
    by (cases f; cases "snd f") (auto simp: WritableFileImpl_class_def good_ptr_def bytes_at_def mem_deref_def)
qed (auto simp: WritableFileImpl_class_def WritableFileImpl_noop_def)

interpretation mem_sequential: sequential_file SequentialFileImpl_class seq_rest seq_ok
proof
  fix f :: "MemEnv \<times> SequentialFileImpl" and n m r
  assume "seq_ok f"
  then obtain e h fs where f: "f = (e, h)" "mem_deref e (sq_file h) = Some fs" "file_inv fs"
    and pos: "unat (sq_pos h) \<le> length (file_bytes fs)"
    by (cases f) (auto simp: seq_ok_def good_ptr_def bytes_at_def)
  let ?r = "take n (drop (unat (sq_pos h)) (file_bytes fs))"
  have "length (file_bytes fs) < 2 ^ 64" using f(3) unsigned_less [of "fs_size fs", where 'a = nat] by simp
  then have "unat (sq_pos h + of_nat (length ?r)) = unat (sq_pos h) + length ?r"
    using pos by (simp add: unat_word_ariths unat_of_nat min_def)
  then show "\<exists>f'. sf_Read SequentialFileImpl_class f n r = Some (OK, take n (seq_rest f), f') \<and> seq_ok f' \<and>
      seq_rest f' = drop n (seq_rest f)"
    using f pos
    by (auto simp: SequentialFileImpl_class_def SequentialFileImpl_Read_def FileState_Read_bytes seq_rest_def
        seq_ok_def bytes_at_def good_ptr_def min_def add.commute)
  have avail: "unat (fs_size fs - sq_pos h) = unat (fs_size fs) - unat (sq_pos h)"
    using pos f(3) by (simp add: unat_sub word_le_nat_alt)
  let ?n = "if m > fs_size fs - sq_pos h then fs_size fs - sq_pos h else m"
  have n: "unat ?n = min (unat m) (unat (fs_size fs) - unat (sq_pos h))"
    by (auto simp: word_less_nat_alt avail)
  then have "unat (sq_pos h + ?n) = unat (sq_pos h) + unat ?n"
    using pos f(3) unsigned_less [of "fs_size fs", where 'a = nat] by (simp add: unat_word_ariths min_def)
  then show "\<exists>f'. sf_Skip SequentialFileImpl_class f m = Some (OK, f') \<and> seq_ok f' \<and>
      seq_rest f' = drop (unat m) (seq_rest f)"
    using f pos n
    by (auto simp: SequentialFileImpl_class_def SequentialFileImpl_Skip_def FileState_Size_def seq_rest_def
        seq_ok_def bytes_at_def good_ptr_def min_def add.commute Let_def word_less_nat_alt)
qed

interpretation mem_random: random_access_file RandomAccessFileImpl_class
  "\<lambda>(e, p). the (bytes_at e p)" "\<lambda>(e, p). good_ptr e p"
  by unfold_locales
     (auto simp: RandomAccessFileImpl_class_def RandomAccessFileImpl_Read_def good_ptr_def bytes_at_def FileState_Read_bytes)

subsection \<open>Reference counts\<close>

text \<open>
  \<open>hs\<close> are the pointers held by the file objects that have not been deleted. Every live file counts
  them and its name, every pointer in use is to a live file, and two names never share a file.
\<close>

definition mem_links :: "MemEnv \<Rightarrow> nat option multiset \<Rightarrow> nat \<Rightarrow> nat" where
  "mem_links e hs a = (if Some a \<in> ran (map_of (me_map e)) then 1 else 0) + count hs (Some a)"

definition mem_inv :: "MemEnv \<Rightarrow> nat option multiset \<Rightarrow> bool" where
  "mem_inv e hs \<longleftrightarrow>
     om_sorted (me_map e) \<and> None \<notin> ran (map_of (me_map e)) \<and> None \<notin># hs \<and>
     inj_on (map_of (me_map e)) (dom (map_of (me_map e))) \<and>
     (\<forall>a. case me_heap e a of
            None \<Rightarrow> mem_links e hs a = 0
          | Some f \<Rightarrow> a < me_brk e \<and> file_inv f \<and> fs_refs f = int (mem_links e hs a) \<and> 0 < mem_links e hs a)"

definition mem_files :: "MemEnv \<Rightarrow> bytes \<Rightarrow> bytes option" where
  "mem_files e k = do { p \<leftarrow> map_of (me_map e) k; bytes_at e p }"

lemma mem_inv_new: "mem_inv MemEnv_new {#}" "mem_files MemEnv_new = Map.empty"
  by (simp_all add: mem_inv_def MemEnv_new_def mem_links_def mem_files_def fun_eq_iff)

lemma mem_inv_live:
  assumes "mem_inv e hs" "p \<in># hs \<or> p \<in> ran (map_of (me_map e))"
  obtains a f where "p = Some a" "me_heap e a = Some f" "file_inv f" "fs_refs f = int (mem_links e hs a)" "0 < mem_links e hs a"
    "a < me_brk e"
proof -
  obtain a where a: "p = Some a" using assms by (cases p) (auto simp: mem_inv_def)
  then have "0 < mem_links e hs a" using assms(2) by (auto simp: mem_links_def count_greater_zero_iff)
  moreover have "case me_heap e a of None \<Rightarrow> mem_links e hs a = 0
          | Some f \<Rightarrow> a < me_brk e \<and> file_inv f \<and> fs_refs f = int (mem_links e hs a) \<and> 0 < mem_links e hs a"
    using assms(1) by (auto simp: mem_inv_def)
  ultimately show thesis using that [OF a] by (auto split: option.splits)
qed

lemma mem_inv_good_ptr: "mem_inv e hs \<Longrightarrow> p \<in># hs \<or> p \<in> ran (map_of (me_map e)) \<Longrightarrow> good_ptr e p"
  by (erule mem_inv_live) (auto simp: good_ptr_def mem_deref_Some)

lemma mem_inv_update:
  assumes inv: "mem_inv e hs" and a: "a < me_brk e'" "me_brk e \<le> me_brk e'"
    and f': "case f' of None \<Rightarrow> mem_links e' hs' a = 0
      | Some g \<Rightarrow> file_inv g \<and> fs_refs g = int (mem_links e' hs' a) \<and> 0 < mem_links e' hs' a"
    and e': "me_heap e' = (me_heap e)(a := f')"
    and names: "om_sorted (me_map e')" "None \<notin> ran (map_of (me_map e'))"
      "inj_on (map_of (me_map e')) (dom (map_of (me_map e')))"
    and others: "\<And>b. b \<noteq> a \<Longrightarrow> mem_links e' hs' b = mem_links e hs b" and hs': "None \<notin># hs'"
  shows "mem_inv e' hs'"
proof -
  have inv': "case me_heap e b of None \<Rightarrow> mem_links e hs b = 0
      | Some f \<Rightarrow> b < me_brk e \<and> file_inv f \<and> fs_refs f = int (mem_links e hs b) \<and> 0 < mem_links e hs b" for b
    using inv by (auto simp: mem_inv_def)
  have "case me_heap e' b of None \<Rightarrow> mem_links e' hs' b = 0
      | Some f \<Rightarrow> b < me_brk e' \<and> file_inv f \<and> fs_refs f = int (mem_links e' hs' b) \<and> 0 < mem_links e' hs' b" for b
  proof (cases "b = a")
    case True
    then show ?thesis using f' e' a by (simp split: option.splits)
  next
    case False
    then show ?thesis using inv' [of b] others [OF False] e' a(2) by (simp split: option.splits)
  qed
  then show ?thesis using inv names hs' by (auto simp: mem_inv_def)
qed

lemma Ref_step:
  assumes "mem_inv e hs" "p \<in># hs \<or> p \<in> ran (map_of (me_map e))"
  shows "\<exists>e'. mem_Ref e p = Some e' \<and> mem_inv e' (add_mset p hs) \<and> bytes_at e' = bytes_at e \<and> me_map e' = me_map e"
proof -
  obtain a f where p: "p = Some a" "me_heap e a = Some f" "file_inv f" "fs_refs f = int (mem_links e hs a)" "0 < mem_links e hs a" "a < me_brk e"
    by (rule mem_inv_live [OF assms])
  have "mem_inv (mem_store e p (Some (FileState_Ref f))) (add_mset p hs)"
    using assms(1) p
    by (intro mem_inv_update [OF assms(1), where a = a and f' = "Some (FileState_Ref f)"])
       (auto simp: mem_store_def FileState_Ref_def mem_links_def mem_inv_def)
  moreover have "bytes_at (mem_store e p (Some (FileState_Ref f))) = bytes_at e"
  proof
    fix q show "bytes_at (mem_store e p (Some (FileState_Ref f))) q = bytes_at e q"
      using p by (cases q) (auto simp: bytes_at_def FileState_Ref_def mem_deref_def)
  qed
  ultimately show ?thesis using p by (simp add: mem_Ref_def mem_deref_def)
qed

lemma Unref_count:
  "file_inv f \<Longrightarrow> fs_refs f = int n \<Longrightarrow> 0 < n \<Longrightarrow>
   case FileState_Unref f of None \<Rightarrow> n - 1 = 0
   | Some g \<Rightarrow> file_inv g \<and> fs_refs g = int (n - 1) \<and> 0 < n - 1 \<and> file_bytes g = file_bytes f"
  by (auto simp: FileState_Unref_def Let_def)

lemma Unref_handle:
  assumes "mem_inv e hs" "p \<in># hs"
  shows "\<exists>e'. mem_Unref e p = Some e' \<and> mem_inv e' (hs - {#p#}) \<and> me_map e' = me_map e \<and>
    (\<forall>q. q \<in># hs - {#p#} \<or> q \<in> ran (map_of (me_map e)) \<longrightarrow> bytes_at e' q = bytes_at e q)"
proof -
  obtain a f where p: "p = Some a" "me_heap e a = Some f" "file_inv f" "fs_refs f = int (mem_links e hs a)" "0 < mem_links e hs a" "a < me_brk e"
    by (rule mem_inv_live [OF assms(1) disjI1 [OF assms(2)]])
  obtain u where u: "FileState_Unref f = u" by blast
  let ?e = "mem_store e p u"
  have l: "mem_links ?e (hs - {#p#}) b = (if b = a then mem_links e hs a - 1 else mem_links e hs b)" for b
  proof -
    have "0 < count hs p" using assms(2) by simp
    then show ?thesis using p(1) by (simp add: mem_links_def)
  qed
  note u' = Unref_count [OF p(3,4,5), unfolded u]
  have inv: "mem_inv ?e (hs - {#p#})"
    using assms(1) p(1,6) l u'
    by (intro mem_inv_update [OF assms(1), where a = a and f' = u])
       (auto simp: mem_inv_def split: option.splits dest: in_diffD)
  have "bytes_at ?e q = bytes_at e q" if "q \<in># hs - {#p#} \<or> q \<in> ran (map_of (me_map e))" for q
  proof (cases "q = p")
    case True
    then have "0 < mem_links ?e (hs - {#p#}) a"
      using that p(1) by (auto simp: mem_links_def simp flip: count_greater_zero_iff)
    then show ?thesis using True p l [of a] u' by (auto simp: bytes_at_def mem_deref_def split: option.splits)
  qed (use p in \<open>simp add: bytes_at_def\<close>)
  then show ?thesis using p inv u by (auto simp: mem_Unref_def mem_deref_def)
qed

lemma ran_erase: "inj_on m (dom m) \<Longrightarrow> m k = Some p \<Longrightarrow> ran (m(k := None)) = ran m - {p}"
  by (auto simp: ran_def inj_on_def dom_def split: if_splits; metis option.inject)

lemma Unref_name:
  assumes "mem_inv e hs" "map_of (me_map e) k = Some p"
  shows "\<exists>e'. mem_Unref e p = Some e' \<and> mem_inv (e'\<lparr>me_map := om_erase k (me_map e)\<rparr>) hs \<and> me_map e' = me_map e \<and>
    (\<forall>q. q \<in># hs \<or> q \<in> ran (map_of (me_map e)) - {p} \<longrightarrow> bytes_at e' q = bytes_at e q)"
proof -
  have pr: "p \<in> ran (map_of (me_map e))" using assms(2) by (rule ranI)
  obtain a f where p: "p = Some a" "me_heap e a = Some f" "file_inv f" "fs_refs f = int (mem_links e hs a)" "0 < mem_links e hs a" "a < me_brk e"
    by (rule mem_inv_live [OF assms(1) disjI2 [OF pr]])
  obtain u where u: "FileState_Unref f = u" by blast
  let ?e = "mem_store e p u"
  let ?e' = "?e\<lparr>me_map := om_erase k (me_map e)\<rparr>"
  have inj: "inj_on (map_of (me_map e)) (dom (map_of (me_map e)))" using assms(1) by (simp add: mem_inv_def)
  have ran: "ran ((map_of (me_map e))(k := None)) = ran (map_of (me_map e)) - {p}"
    by (rule ran_erase [OF inj assms(2)])
  have l: "mem_links ?e' hs b = (if b = a then mem_links e hs a - 1 else mem_links e hs b)" for b
    using pr p(1) by (auto simp: mem_links_def ran)
  note u' = Unref_count [OF p(3,4,5), unfolded u]
  have "inj_on ((map_of (me_map e))(k := None)) (dom ((map_of (me_map e))(k := None)))"
    using inj by (auto simp: inj_on_def)
  then have inv: "mem_inv ?e' hs"
    using assms(1) p(1,6) l u'
    by (intro mem_inv_update [OF assms(1), where a = a and f' = u])
       (auto simp: mem_inv_def ran split: option.splits)
  have "bytes_at ?e q = bytes_at e q" if "q \<in># hs \<or> q \<in> ran (map_of (me_map e)) - {p}" for q
  proof (cases "q = p")
    case True
    then have "0 < mem_links ?e' hs a" using that p(1) by (auto simp: mem_links_def ran count_greater_zero_iff)
    then show ?thesis using True p l [of a] u' by (auto simp: bytes_at_def mem_deref_def split: option.splits)
  qed (use p in \<open>simp add: bytes_at_def\<close>)
  then show ?thesis using p inv u by (auto simp: mem_Unref_def mem_deref_def)
qed

lemma mem_inv_remap:
  assumes "mem_inv e hs" "om_sorted m" "ran (map_of m) = ran (map_of (me_map e))" "inj_on (map_of m) (dom (map_of m))"
  shows "mem_inv (e\<lparr>me_map := m\<rparr>) hs"
proof -
  have "mem_links (e\<lparr>me_map := m\<rparr>) hs = mem_links e hs" using assms(3) by (simp add: mem_links_def fun_eq_iff)
  then show ?thesis using assms by (simp add: mem_inv_def cong: option.case_cong)
qed

lemma mem_inv_inj: "mem_inv e hs \<Longrightarrow> map_of (me_map e) k = Some p \<Longrightarrow> map_of (me_map e) k' = Some p \<Longrightarrow> k = k'"
  unfolding mem_inv_def inj_on_def dom_def by (metis (mono_tags) mem_Collect_eq option.distinct(1))

lemma mem_inv_store:
  assumes inv: "mem_inv e hs" and p: "p \<in># hs \<or> p \<in> ran (map_of (me_map e))" "mem_deref e p = Some f"
    and f': "file_inv f'" "fs_refs f' = fs_refs f"
  shows "mem_inv (mem_store e p (Some f')) hs"
proof -
  obtain a g where a: "p = Some a" "me_heap e a = Some g" "file_inv g" "fs_refs g = int (mem_links e hs a)" "0 < mem_links e hs a"
    "a < me_brk e"
    by (rule mem_inv_live [OF inv p(1)])
  have "mem_links (mem_store e p (Some f')) hs = mem_links e hs" by (simp add: mem_links_def fun_eq_iff)
  then show ?thesis using a p(2) f' inv
    by (intro mem_inv_update [OF inv, where a = a and f' = "Some f'"]) (auto simp: mem_deref_def mem_inv_def)
qed

subsection \<open>The environment as a map from names to contents\<close>

lemma NewFile_missing:
  assumes "map_of (me_map e) fname = None"
  shows "MemEnv_NewSequentialFile e fname = Some (IOError fname (str ''File not found''), None, e)"
    "MemEnv_NewRandomAccessFile e fname = Some (IOError fname (str ''File not found''), None, e)"
  using assms by (simp_all add: MemEnv_NewSequentialFile_def MemEnv_NewRandomAccessFile_def)

lemma NewSequentialFile_found:
  assumes "mem_inv e hs" "map_of (me_map e) fname = Some p"
  shows "\<exists>e'. MemEnv_NewSequentialFile e fname = Some (OK, Some \<lparr>sq_file = p, sq_pos = 0\<rparr>, e') \<and>
    mem_inv e' (add_mset p hs) \<and> bytes_at e' = bytes_at e \<and> me_map e' = me_map e"
  using Ref_step [OF assms(1), of p] assms(2)
  by (auto simp: MemEnv_NewSequentialFile_def map_index_def SequentialFileImpl_new_def ranI)

lemma NewRandomAccessFile_found:
  assumes "mem_inv e hs" "map_of (me_map e) fname = Some p"
  shows "\<exists>e'. MemEnv_NewRandomAccessFile e fname = Some (OK, Some p, e') \<and>
    mem_inv e' (add_mset p hs) \<and> bytes_at e' = bytes_at e \<and> me_map e' = me_map e"
  using Ref_step [OF assms(1), of p] assms(2)
  by (auto simp: MemEnv_NewRandomAccessFile_def map_index_def RandomAccessFileImpl_new_def ranI)

lemma alloc_named:
  assumes inv: "mem_inv e hs" and new: "map_of (me_map e) fname = None" and al: "mem_alloc e = (p, e1)"
  shows "mem_inv (e1\<lparr>me_map := om_put fname p (me_map e1)\<rparr>) hs" "bytes_at e1 p = Some []" "me_map e1 = me_map e"
    "p \<notin># hs" "p \<notin> ran (map_of (me_map e))" "q \<noteq> p \<Longrightarrow> bytes_at e1 q = bytes_at e q"
proof -
  let ?e = "e1\<lparr>me_map := om_put fname p (me_map e1)\<rparr>"
  have p: "p = Some (me_brk e)" and e1: "me_map e1 = me_map e" "me_brk e1 = me_brk e + 1"
    "me_heap e1 = (me_heap e)(me_brk e \<mapsto> FileState_Ref FileState_new)"
    using al by (auto simp: mem_alloc_def)
  have "me_heap e (me_brk e) = None"
    using inv by (auto simp: mem_inv_def split: option.splits)
  then have "mem_links e hs (me_brk e) = 0" using inv by (auto simp: mem_inv_def split: option.splits)
  then show fresh: "p \<notin># hs" "p \<notin> ran (map_of (me_map e))"
    using p by (auto simp: mem_links_def count_eq_zero_iff split: if_splits)
  have ran: "ran ((map_of (me_map e))(fname \<mapsto> p)) = insert p (ran (map_of (me_map e)))"
    using new by (rule ran_map_upd)
  have "mem_links ?e hs b = (if b = me_brk e then 1 else mem_links e hs b)" for b
  proof -
    have "Some b = p \<longleftrightarrow> b = me_brk e" using p by auto
    moreover have "count hs p = 0" using fresh(1) by (simp add: count_eq_zero_iff)
    ultimately show ?thesis by (cases "Some b = p") (simp_all add: mem_links_def e1 ran)
  qed
  moreover have "inj_on ((map_of (me_map e))(fname \<mapsto> p)) (dom ((map_of (me_map e))(fname \<mapsto> p)))"
    using inv fresh(2) new by (auto simp: mem_inv_def inj_on_def ran_def dom_def split: if_splits)
  moreover have "None \<notin> insert p (ran (map_of (me_map e)))" using inv p by (simp add: mem_inv_def)
  then have "None \<notin> ran (map_of (me_map ?e))" by (simp add: e1(1) ran)
  ultimately show "mem_inv ?e hs"
    using inv p e1 fresh
    by (intro mem_inv_update [OF inv, where a = "me_brk e" and f' = "Some (FileState_Ref FileState_new)"])
       (auto simp: mem_inv_def ran FileState_Ref_def, auto simp: FileState_new_def)
  show "bytes_at e1 p = Some []" using p e1 by (simp add: bytes_at_def mem_deref_def FileState_Ref_def)
  show "me_map e1 = me_map e" by (rule e1)
  show "q \<noteq> p \<Longrightarrow> bytes_at e1 q = bytes_at e q" using p e1 by (cases q) (auto simp: bytes_at_def mem_deref_def)
qed

lemma NewWritableFile_step:
  assumes inv: "mem_inv e hs"
  shows "\<exists>p e'. MemEnv_NewWritableFile e fname = Some (OK, Some p, e') \<and> mem_inv e' (add_mset p hs) \<and>
    map_of (me_map e') = (map_of (me_map e))(fname \<mapsto> p) \<and> bytes_at e' p = Some [] \<and>
    (\<forall>q. q \<noteq> p \<longrightarrow> bytes_at e' q = bytes_at e q) \<and> (map_of (me_map e) fname = None \<longrightarrow> p \<notin># hs)"
proof (cases "map_of (me_map e) fname")
  case None
  obtain p e1 where al: "mem_alloc e = (p, e1)" by fastforce
  let ?e = "e1\<lparr>me_map := om_put fname p (me_map e1)\<rparr>"
  note a = alloc_named [OF inv None al]
  have "p \<in> ran (map_of (me_map ?e))" by (simp add: ran_def) auto
  then obtain e' where "mem_Ref ?e p = Some e'" "mem_inv e' (add_mset p hs)" "bytes_at e' = bytes_at e1" "me_map e' = me_map ?e"
    using Ref_step [OF a(1), of p] by auto
  then show ?thesis using None al a by (auto simp: MemEnv_NewWritableFile_def WritableFileImpl_new_def)
next
  case (Some p)
  then have pr: "p \<in> ran (map_of (me_map e))" by (rule ranI)
  obtain a f where f: "p = Some a" "mem_deref e p = Some f" "me_heap e a = Some f"
    by (rule mem_inv_live [OF inv disjI2 [OF pr]]) (simp add: mem_deref_def)
  let ?e = "mem_store e p (Some (FileState_Truncate f))"
  have i: "mem_inv ?e hs" using f pr by (intro mem_inv_store [OF inv _ f(2)]) (auto simp: FileState_Truncate_def file_inv_def)
  have b: "bytes_at ?e p = Some []" "\<forall>q. q \<noteq> p \<longrightarrow> bytes_at ?e q = bytes_at e q"
    using f by (simp_all add: bytes_at_def)
  obtain e' where e': "mem_Ref ?e p = Some e'" "mem_inv e' (add_mset p hs)" "bytes_at e' = bytes_at ?e" "me_map e' = me_map e"
    using Ref_step [OF i, of p] pr by auto
  then show ?thesis using Some f b by (auto simp: MemEnv_NewWritableFile_def WritableFileImpl_new_def)
qed

lemma NewAppendableFile_found:
  assumes "mem_inv e hs" "map_of (me_map e) fname = Some p"
  shows "\<exists>e'. MemEnv_NewAppendableFile e fname = Some (OK, Some p, e') \<and>
    mem_inv e' (add_mset p hs) \<and> bytes_at e' = bytes_at e \<and> me_map e' = me_map e"
proof -
  have "p \<noteq> None" using assms by (cases p) (auto simp: mem_inv_def ran_def)
  then show ?thesis
    using Ref_step [OF assms(1), of p] assms(2)
    by (auto simp: MemEnv_NewAppendableFile_def map_index_def WritableFileImpl_new_def ranI)
qed

lemma RemoveFileInternal_step:
  assumes inv: "mem_inv e hs"
  shows "\<exists>e'. RemoveFileInternal e fname = Some e' \<and> mem_inv e' hs \<and>
    map_of (me_map e') = (map_of (me_map e))(fname := None) \<and>
    (\<forall>q. q \<in># hs \<or> q \<in> ran (map_of (me_map e')) \<longrightarrow> bytes_at e' q = bytes_at e q)"
proof (cases "map_of (me_map e) fname")
  case None
  then show ?thesis using inv by (auto simp: RemoveFileInternal_def fun_upd_idem)
next
  case (Some p)
  have "ran ((map_of (me_map e))(fname := None)) = ran (map_of (me_map e)) - {p}"
    using inv Some by (intro ran_erase) (auto simp: mem_inv_def)
  then show ?thesis
    using Unref_name [OF inv Some] Some by (auto simp: RemoveFileInternal_def map_index_def)
qed

lemma ran_rename:
  assumes "m src = Some p" "src \<noteq> target"
  shows "ran (m(target \<mapsto> p, src := None)) = ran (m(target := None))"
proof (intro set_eqI iffI)
  fix x assume "x \<in> ran (m(target \<mapsto> p, src := None))"
  then obtain k where "k \<noteq> src" "(m(target \<mapsto> p)) k = Some x" by (auto simp: ran_def split: if_splits)
  then have "(m(target := None)) (if k = target then src else k) = Some x" using assms by (auto split: if_splits)
  then show "x \<in> ran (m(target := None))" by (rule ranI)
next
  fix x assume "x \<in> ran (m(target := None))"
  then obtain k where "k \<noteq> target" "m k = Some x" by (auto simp: ran_def split: if_splits)
  then have "(m(target \<mapsto> p, src := None)) (if k = src then target else k) = Some x" using assms by auto
  then show "x \<in> ran (m(target \<mapsto> p, src := None))" by (rule ranI)
qed

lemma inj_rename:
  assumes "inj_on m (dom m)" "m src = Some p"
  shows "inj_on (m(target \<mapsto> p, src := None)) (dom (m(target \<mapsto> p, src := None)))"
proof -
  have "k = k'" if "m k = Some q" "m k' = Some q" for k k' q
    using assms(1) that by (auto simp: inj_on_def dom_def)
  then show ?thesis using assms(2) by (auto simp: inj_on_def split: if_splits)
qed

lemma RenameFile_step:
  assumes inv: "mem_inv e hs" and src: "map_of (me_map e) src = Some p"
  shows "\<exists>e'. MemEnv_RenameFile e src target = Some (OK, e') \<and> mem_inv e' hs \<and>
    map_of (me_map e') = (if src = target then (map_of (me_map e))(src := None)
      else (map_of (me_map e))(target \<mapsto> p, src := None)) \<and>
    (\<forall>q. q \<in># hs \<or> q \<in> ran (map_of (me_map e')) \<longrightarrow> bytes_at e' q = bytes_at e q)"
proof -
  obtain e1 where e1: "RemoveFileInternal e target = Some e1" "mem_inv e1 hs"
    "map_of (me_map e1) = (map_of (me_map e))(target := None)"
    and b: "\<forall>q. q \<in># hs \<or> q \<in> ran (map_of (me_map e1)) \<longrightarrow> bytes_at e1 q = bytes_at e q"
    using RemoveFileInternal_step [OF inv] by blast
  show ?thesis
  proof (cases "src = target")
    case True
    let ?m = "om_erase src (om_put target None (om_put src None (me_map e1)))"
    have "mem_inv (e1\<lparr>me_map := ?m\<rparr>) hs"
      using e1 True by (intro mem_inv_remap) (auto simp: mem_inv_def fun_upd_idem)
    then show ?thesis
      using True src e1 b by (auto simp: MemEnv_RenameFile_def map_index_def fun_upd_idem)
  next
    case False
    let ?m = "om_erase src (om_put target p (me_map e1))"
    have m: "map_of ?m = (map_of (me_map e))(target \<mapsto> p, src := None)" using e1(3) by auto
    have ran: "ran (map_of ?m) = ran (map_of (me_map e1))"
      unfolding m e1(3) using src False by (rule ran_rename)
    have "inj_on (map_of ?m) (dom (map_of ?m))"
      unfolding m using inv src by (intro inj_rename) (simp_all add: mem_inv_def)
    then have "mem_inv (e1\<lparr>me_map := ?m\<rparr>) hs"
      using e1 ran by (intro mem_inv_remap) (auto simp: mem_inv_def)
    then show ?thesis
      using False src e1 b ran m by (auto simp: MemEnv_RenameFile_def map_index_def)
  qed
qed

lemma Append_step:
  assumes inv: "mem_inv e hs" and p: "p \<in># hs" and d: "length (the (bytes_at e p)) + length d < 2 ^ 64"
  shows "\<exists>e'. WritableFileImpl_Append fresh (e, p) d = Some (OK, e', p) \<and> mem_inv e' hs \<and> me_map e' = me_map e \<and>
    bytes_at e' p = Some (the (bytes_at e p) @ d) \<and> (\<forall>q. q \<noteq> p \<longrightarrow> bytes_at e' q = bytes_at e q)"
proof -
  obtain f f' where f: "mem_deref e p = Some f" "WritableFileImpl_Append fresh (e, p) d = Some (OK, mem_store e p (Some f'), p)"
    "file_inv f'" "file_bytes f' = file_bytes f @ d" "fs_refs f' = fs_refs f"
    using WritableFileImpl_Append_bytes [OF mem_inv_good_ptr [OF inv disjI1 [OF p]] d] by blast
  have "p \<noteq> None" using f(1) by (auto simp: mem_deref_Some)
  then show ?thesis using f mem_inv_store [OF inv disjI1 [OF p] f(1,3,5)] by (auto simp: bytes_at_def)
qed

lemma file_delete_step:
  assumes "mem_inv e hs" "p \<in># hs"
  shows "\<exists>e'. file_delete (e, p) = Some (e', p) \<and> mem_inv e' (hs - {#p#}) \<and> me_map e' = me_map e \<and>
    (\<forall>q. q \<in># hs - {#p#} \<or> q \<in> ran (map_of (me_map e)) \<longrightarrow> bytes_at e' q = bytes_at e q)"
  using Unref_handle [OF assms] by (auto simp: file_delete_def)

lemma mem_files_cong:
  assumes "me_map e' = me_map e" "\<And>q. q \<in> ran (map_of (me_map e)) \<Longrightarrow> bytes_at e' q = bytes_at e q"
  shows "mem_files e' = mem_files e"
proof
  fix k show "mem_files e' k = mem_files e k"
    using assms by (cases "map_of (me_map e) k") (auto simp: mem_files_def ranI)
qed

lemma mem_files_live: "mem_inv e hs \<Longrightarrow> mem_files e k = None \<longleftrightarrow> map_of (me_map e) k = None"
  using mem_inv_good_ptr [of e hs "the (map_of (me_map e) k)"]
  by (cases "map_of (me_map e) k") (auto simp: mem_files_def ranI good_ptr_def bytes_at_def)

lemma NewWritableFile_files:
  assumes "mem_inv e hs"
  shows "\<exists>p e'. MemEnv_NewWritableFile e fname = Some (OK, Some p, e') \<and> mem_inv e' (add_mset p hs) \<and>
    map_of (me_map e') fname = Some p \<and> bytes_at e' p = Some [] \<and> mem_files e' = (mem_files e)(fname \<mapsto> [])"
proof -
  obtain p e' where e': "MemEnv_NewWritableFile e fname = Some (OK, Some p, e')" "mem_inv e' (add_mset p hs)"
    "map_of (me_map e') = (map_of (me_map e))(fname \<mapsto> p)" "bytes_at e' p = Some []"
    and same: "\<forall>q. q \<noteq> p \<longrightarrow> bytes_at e' q = bytes_at e q"
    using NewWritableFile_step [OF assms] by blast
  have "mem_files e' k = ((mem_files e)(fname \<mapsto> [])) k" for k
  proof (cases "k = fname \<or> map_of (me_map e) k = None")
    case True then show ?thesis using e' by (auto simp: mem_files_def)
  next
    case False
    then obtain q where q: "map_of (me_map e) k = Some q" "k \<noteq> fname" by auto
    then have "map_of (me_map e') k = Some q" "map_of (me_map e') fname = Some p" using e'(3) by simp_all
    then have "q \<noteq> p" using mem_inv_inj [OF e'(2)] q(2) by blast
    then show ?thesis using q e'(3) same by (simp add: mem_files_def)
  qed
  then show ?thesis using e' by auto
qed

lemma Append_files:
  assumes inv: "mem_inv e hs" and p: "p \<in># hs" and d: "length (the (bytes_at e p)) + length d < 2 ^ 64"
  shows "\<exists>e'. WritableFileImpl_Append fresh (e, p) d = Some (OK, e', p) \<and> mem_inv e' hs \<and> me_map e' = me_map e \<and>
    bytes_at e' p = Some (the (bytes_at e p) @ d) \<and>
    (\<forall>k. mem_files e' k =
       (if map_of (me_map e) k = Some p then Some (the (mem_files e k) @ d) else mem_files e k))"
proof -
  obtain e' where e': "WritableFileImpl_Append fresh (e, p) d = Some (OK, e', p)" "mem_inv e' hs" "me_map e' = me_map e"
    "bytes_at e' p = Some (the (bytes_at e p) @ d)" "\<forall>q. q \<noteq> p \<longrightarrow> bytes_at e' q = bytes_at e q"
    using Append_step [OF assms] by blast
  have "mem_files e' k = (if map_of (me_map e) k = Some p then Some (the (mem_files e k) @ d) else mem_files e k)" for k
    using e'(3-5) by (cases "map_of (me_map e) k") (auto simp: mem_files_def)
  then show ?thesis using e' by blast
qed

lemma RemoveFile_files:
  assumes "mem_inv e hs"
  shows "MemEnv_FileExists e fname \<Longrightarrow> \<exists>e'. MemEnv_RemoveFile e fname = Some (OK, e') \<and> mem_inv e' hs \<and>
      mem_files e' = (mem_files e)(fname := None)"
    and "\<not> MemEnv_FileExists e fname \<Longrightarrow>
      MemEnv_RemoveFile e fname = Some (IOError fname (str ''File not found''), e)"
proof -
  obtain e' where e': "RemoveFileInternal e fname = Some e'" "mem_inv e' hs"
    "map_of (me_map e') = (map_of (me_map e))(fname := None)"
    and b: "\<forall>q. q \<in># hs \<or> q \<in> ran (map_of (me_map e')) \<longrightarrow> bytes_at e' q = bytes_at e q"
    using RemoveFileInternal_step [OF assms] by blast
  have "mem_files e' k = ((mem_files e)(fname := None)) k" for k
  proof (cases "map_of (me_map e') k")
    case (Some q)
    then have "bytes_at e' q = bytes_at e q" using b by (blast intro: ranI)
    then show ?thesis using Some e'(3) by (auto simp: mem_files_def split: if_splits)
  qed (use e'(3) in \<open>auto simp: mem_files_def split: if_splits\<close>)
  then show "MemEnv_FileExists e fname \<Longrightarrow> \<exists>e'. MemEnv_RemoveFile e fname = Some (OK, e') \<and> mem_inv e' hs \<and>
      mem_files e' = (mem_files e)(fname := None)"
    using e' by (auto simp: MemEnv_RemoveFile_def MemEnv_FileExists_def)
qed (simp add: MemEnv_RemoveFile_def MemEnv_FileExists_def)

lemma RenameFile_files:
  assumes "mem_inv e hs"
  shows "MemEnv_FileExists e src \<Longrightarrow> \<exists>e'. MemEnv_RenameFile e src target = Some (OK, e') \<and> mem_inv e' hs \<and>
      mem_files e' = (if src = target then (mem_files e)(src := None)
        else (mem_files e)(target := mem_files e src, src := None))"
    and "\<not> MemEnv_FileExists e src \<Longrightarrow>
      MemEnv_RenameFile e src target = Some (IOError src (str ''File not found''), e)"
proof -
  assume "MemEnv_FileExists e src"
  then obtain p where src: "map_of (me_map e) src = Some p" by (auto simp: MemEnv_FileExists_def)
  obtain e' where e': "MemEnv_RenameFile e src target = Some (OK, e')" "mem_inv e' hs"
    "map_of (me_map e') = (if src = target then (map_of (me_map e))(src := None)
      else (map_of (me_map e))(target \<mapsto> p, src := None))"
    and b: "\<forall>q. q \<in># hs \<or> q \<in> ran (map_of (me_map e')) \<longrightarrow> bytes_at e' q = bytes_at e q"
    using RenameFile_step [OF assms src] by blast
  have "mem_files e' k = (if src = target then (mem_files e)(src := None)
        else (mem_files e)(target := mem_files e src, src := None)) k" for k
  proof (cases "map_of (me_map e') k")
    case (Some q)
    then have "bytes_at e' q = bytes_at e q" using b by (blast intro: ranI)
    then show ?thesis using Some e'(3) src by (auto simp: mem_files_def split: if_splits)
  qed (use e'(3) src in \<open>auto simp: mem_files_def split: if_splits\<close>)
  then show "\<exists>e'. MemEnv_RenameFile e src target = Some (OK, e') \<and> mem_inv e' hs \<and>
      mem_files e' = (if src = target then (mem_files e)(src := None)
        else (mem_files e)(target := mem_files e src, src := None))"
    using e' by blast
qed (simp add: MemEnv_RenameFile_def MemEnv_FileExists_def)

subsection \<open>Sequences of operations\<close>

text \<open>
  What clients do: open files, append through a handle they hold, delete handles, remove and rename
  files. \<open>NewAppendableFile\<close> is restricted to files that exist.
\<close>

inductive mem_step :: "(nat \<Rightarrow> nat \<Rightarrow> byte) \<Rightarrow> MemEnv \<times> nat option multiset \<Rightarrow> MemEnv \<times> nat option multiset \<Rightarrow> bool"
  for fresh where
  open_sequential: "MemEnv_NewSequentialFile e fname = Some (s, Some h, e') \<Longrightarrow>
    mem_step fresh (e, hs) (e', add_mset (sq_file h) hs)"
| open_random: "MemEnv_NewRandomAccessFile e fname = Some (s, Some p, e') \<Longrightarrow>
    mem_step fresh (e, hs) (e', add_mset p hs)"
| open_writable: "MemEnv_NewWritableFile e fname = Some (s, Some p, e') \<Longrightarrow>
    mem_step fresh (e, hs) (e', add_mset p hs)"
| open_appendable: "MemEnv_FileExists e fname \<Longrightarrow> MemEnv_NewAppendableFile e fname = Some (s, Some p, e') \<Longrightarrow>
    mem_step fresh (e, hs) (e', add_mset p hs)"
| append_data: "p \<in># hs \<Longrightarrow> length (the (bytes_at e p)) + length d < 2 ^ 64 \<Longrightarrow>
    WritableFileImpl_Append fresh (e, p) d = Some (s, e', p') \<Longrightarrow> mem_step fresh (e, hs) (e', hs)"
| delete_handle: "p \<in># hs \<Longrightarrow> file_delete (e, p) = Some (e', p') \<Longrightarrow> mem_step fresh (e, hs) (e', hs - {#p#})"
| remove_file: "MemEnv_RemoveFile e fname = Some (s, e') \<Longrightarrow> mem_step fresh (e, hs) (e', hs)"
| rename_file: "MemEnv_RenameFile e src target = Some (s, e') \<Longrightarrow> mem_step fresh (e, hs) (e', hs)"

lemma mem_step_inv:
  assumes "mem_step fresh (e, hs) (e', hs')" "mem_inv e hs"
  shows "mem_inv e' hs'"
  using assms
proof (cases rule: mem_step.cases)
  case (open_sequential fname s h)
  then show ?thesis
    using NewSequentialFile_found [OF assms(2), of fname] NewFile_missing(1) [of e fname]
    by (cases "map_of (me_map e) fname") auto
next
  case (open_random fname s p)
  then show ?thesis
    using NewRandomAccessFile_found [OF assms(2), of fname] NewFile_missing(2) [of e fname]
    by (cases "map_of (me_map e) fname") auto
next
  case (open_writable fname s p)
  then show ?thesis using NewWritableFile_step [OF assms(2), of fname] by auto
next
  case (open_appendable fname s p)
  then show ?thesis
    using NewAppendableFile_found [OF assms(2), of fname]
    by (cases "map_of (me_map e) fname") (auto simp: MemEnv_FileExists_def)
next
  case (append_data p d s p')
  then show ?thesis using Append_step [OF assms(2), of p d fresh] by auto
next
  case (delete_handle p p')
  then show ?thesis using file_delete_step [OF assms(2), of p] by auto
next
  case (remove_file fname s)
  then show ?thesis
    using RemoveFile_files [OF assms(2), of fname] assms(2) by (cases "MemEnv_FileExists e fname") auto
next
  case (rename_file src target s)
  then show ?thesis
    using RenameFile_files [OF assms(2), of src target] assms(2) by (cases "MemEnv_FileExists e src") auto
qed

lemma mem_reach_inv: "(mem_step fresh)\<^sup>*\<^sup>* (MemEnv_new, {#}) (e, hs) \<Longrightarrow> mem_inv e hs"
  by (induction "(e, hs)" arbitrary: e hs rule: rtranclp_induct) (auto simp: mem_inv_new intro: mem_step_inv)

lemma WriteString_mem:
  assumes inv: "mem_inv e hs" and d: "length data < 2 ^ 64"
  shows "\<exists>e'. DoWriteStringToFile (InMemoryEnv fresh) e data fname b = Some (OK, e') \<and> mem_inv e' hs \<and>
    mem_files e' = (mem_files e)(fname \<mapsto> data)"
proof -
  obtain p e1 where e1: "MemEnv_NewWritableFile e fname = Some (OK, Some p, e1)" "mem_inv e1 (add_mset p hs)"
    "map_of (me_map e1) fname = Some p" "bytes_at e1 p = Some []" "mem_files e1 = (mem_files e)(fname \<mapsto> [])"
    using NewWritableFile_files [OF inv] by blast
  obtain e2 where e2: "WritableFileImpl_Append fresh (e1, p) data = Some (OK, e2, p)" "mem_inv e2 (add_mset p hs)"
    "me_map e2 = me_map e1"
    "\<forall>k. mem_files e2 k = (if map_of (me_map e1) k = Some p then Some (the (mem_files e1 k) @ data) else mem_files e1 k)"
    using Append_files [OF e1(2), of p data fresh] e1(4) d by auto
  obtain e3 where e3: "file_delete (e2, p) = Some (e3, p)" "mem_inv e3 hs" "me_map e3 = me_map e2"
    "\<forall>q. q \<in># hs \<or> q \<in> ran (map_of (me_map e2)) \<longrightarrow> bytes_at e3 q = bytes_at e2 q"
    using file_delete_step [OF e2(2), of p] by auto
  have "mem_files e3 = mem_files e2" using e3(3,4) by (intro mem_files_cong) auto
  moreover have "mem_files e2 k = ((mem_files e)(fname \<mapsto> data)) k" for k
  proof (cases "k = fname")
    case False
    then have "map_of (me_map e1) k \<noteq> Some p" using mem_inv_inj [OF e1(2), of k p fname] e1(3) by blast
    then show ?thesis using False e2(4) e1(5) by simp
  qed (use e2(4) e1(3,5) in simp)
  ultimately have "mem_files e3 = (mem_files e)(fname \<mapsto> data)" by auto
  then show ?thesis
    using e1(1) e2(1) e3(1,2)
    by (simp add: DoWriteStringToFile_def InMemoryEnv_def WritableFileImpl_class_def WritableFileImpl_noop_def Let_def)
qed

lemma ReadString_mem:
  assumes inv: "mem_inv e hs" and f: "mem_files e fname = Some data"
  shows "\<exists>e'. ReadFileToString (InMemoryEnv fresh) e fname = Some (OK, data, e') \<and> mem_inv e' hs \<and>
    mem_files e' = mem_files e"
proof -
  obtain p where p: "map_of (me_map e) fname = Some p" "bytes_at e p = Some data"
    using f by (auto simp: mem_files_def bind_eq_Some_conv)
  let ?h = "\<lparr>sq_file = p, sq_pos = 0\<rparr>"
  obtain e1 where e1: "MemEnv_NewSequentialFile e fname = Some (OK, Some ?h, e1)" "mem_inv e1 (add_mset p hs)"
    "bytes_at e1 = bytes_at e" "me_map e1 = me_map e"
    using NewSequentialFile_found [OF inv p(1)] by blast
  have start: "seq_ok (e1, ?h)" "seq_rest (e1, ?h) = data"
    using mem_inv_good_ptr [OF e1(2), of p] p(2) e1(3) by (simp_all add: seq_ok_def seq_rest_def)
  have frame: "fst f' = e1 \<and> sq_file (snd f') = p"
    if "fst f = e1 \<and> sq_file (snd f) = p" "sf_Read SequentialFileImpl_class f n r = Some (s, d, f')" for f n r s d f'
    using that
    by (auto simp: SequentialFileImpl_class_def SequentialFileImpl_Read_def split: prod.splits bind_splits if_splits)
  have "\<exists>ef. ReadFile_loop SequentialFileImpl_class (e1, ?h) [] = Some (OK, [] @ seq_rest (e1, ?h), ef) \<and>
      seq_ok ef \<and> seq_rest ef = [] \<and> fst ef = e1 \<and> sq_file (snd ef) = p"
    by (rule mem_sequential.ReadFile_loop_all [where P = "\<lambda>f. fst f = e1 \<and> sq_file (snd f) = p"],
        rule frame, assumption, assumption, rule start(1), simp)
  then obtain ef where loop: "ReadFile_loop SequentialFileImpl_class (e1, ?h) [] = Some (OK, data, ef)"
    and ef: "fst ef = e1 \<and> sq_file (snd ef) = p"
    using start(2) by auto
  obtain e2 where e2: "mem_Unref e1 p = Some e2" "mem_inv e2 hs" "me_map e2 = me_map e1"
    "\<forall>q. q \<in># hs \<or> q \<in> ran (map_of (me_map e1)) \<longrightarrow> bytes_at e2 q = bytes_at e1 q"
    using Unref_handle [OF e1(2), of p] by auto
  have "mem_files e2 = mem_files e" using e2(3,4) e1(3,4) by (intro mem_files_cong) auto
  moreover have "SequentialFileImpl_delete ef = Some (e2, snd ef)"
    using ef e2(1) by (cases ef) (simp add: SequentialFileImpl_delete_def)
  ultimately show ?thesis
    using e1(1) loop e2(2) by (simp add: ReadFileToString_def InMemoryEnv_def)
     (simp add: SequentialFileImpl_class_def)
qed

subsection \<open>Properties\<close>

text \<open>
  C28: Writing a whole file and reading it back. In every state the in-memory environment reaches when
  \<open>NewAppendableFile\<close> is only called for names that have files, \<open>WriteStringToFile\<close> succeeds, the named file
  then holds exactly the data and no other file changed, and \<open>ReadFileToString\<close> terminates with these data
  and changes no file.
\<close>

theorem write_read_file:
  assumes "(mem_step fresh)\<^sup>*\<^sup>* (MemEnv_new, {#}) (e, hs)" "length data < 2 ^ 64"
  shows "\<exists>e' e''. WriteStringToFile (InMemoryEnv fresh) e data fname = Some (OK, e') \<and>
    mem_files e' = (mem_files e)(fname \<mapsto> data) \<and>
    ReadFileToString (InMemoryEnv fresh) e' fname = Some (OK, data, e'') \<and> mem_files e'' = mem_files e'"
proof -
  have inv: "mem_inv e hs" using assms(1) by (rule mem_reach_inv)
  obtain e' where e': "WriteStringToFile (InMemoryEnv fresh) e data fname = Some (OK, e')" "mem_inv e' hs"
    "mem_files e' = (mem_files e)(fname \<mapsto> data)"
    using WriteString_mem [OF inv assms(2), of fresh fname False] by (auto simp: WriteStringToFile_def)
  then obtain e'' where "ReadFileToString (InMemoryEnv fresh) e' fname = Some (OK, data, e'')" "mem_files e'' = mem_files e'"
    using ReadString_mem [OF e'(2), of fname data fresh] by auto
  then show ?thesis using e' by blast
qed

theorem write_read_file_witness:
  "\<exists>e' e''. WriteStringToFile (InMemoryEnv (\<lambda>i j. 255)) MemEnv_new (str ''data'') (str ''f'') = Some (OK, e') \<and>
    ReadFileToString (InMemoryEnv (\<lambda>i j. 255)) e' (str ''f'') = Some (OK, str ''data'', e'')"
  using write_read_file [of "\<lambda>i j. 255" MemEnv_new "{#}" "str ''data''" "str ''f''"] by (auto simp: str_def)



end
