(* ===== verification/Log.thy ===== *)
theory Log
  imports Crc32c Memenv
begin

text \<open>
  The write-ahead log (\<open>db/log_format.h\<close>, \<open>db/log_writer.cc\<close>, \<open>db/log_reader.cc\<close>). A writer cuts records
  into fragments that never cross a block boundary, a reader puts them together again, checks them, and
  tells a reporter what it dropped. Files are reached through the interfaces of \<open>Files\<close>; \<open>None\<close> stands
  for a file operation without a result.
\<close>

subsection \<open>Format\<close>

definition kZeroType :: u32 where "kZeroType = 0"
definition kFullType :: u32 where "kFullType = 1"
definition kFirstType :: u32 where "kFirstType = 2"
definition kMiddleType :: u32 where "kMiddleType = 3"
definition kLastType :: u32 where "kLastType = 4"
definition kMaxRecordType :: u32 where "kMaxRecordType = kLastType"
definition log_kBlockSize :: nat where "log_kBlockSize = 32768"
definition kHeaderSize :: nat where "kHeaderSize = 4 + 2 + 1"

subsection \<open>Writer\<close>

record 'f Writer =
  wr_dest :: 'f
  wr_block_offset :: int
  wr_type_crc :: "u32 list"

definition InitTypeCrc :: "u32 list" where
  "InitTypeCrc = map (\<lambda>i. Value [of_nat i]) [0..<unat kMaxRecordType + 1]"

definition Writer_new :: "'f \<Rightarrow> 'f Writer" where
  "Writer_new dest = \<lparr>wr_dest = dest, wr_block_offset = 0, wr_type_crc = InitTypeCrc\<rparr>"

definition Writer_reopen :: "'f \<Rightarrow> u64 \<Rightarrow> 'f Writer" where
  "Writer_reopen dest dest_length =
     \<lparr>wr_dest = dest, wr_block_offset = int (unat dest_length mod log_kBlockSize), wr_type_crc = InitTypeCrc\<rparr>"

text \<open>The checksum does not depend on the address of the payload (\<open>Crc32c\<close>).\<close>

definition EmitPhysicalRecord ::
  "'f WritableFile \<Rightarrow> 'f Writer \<Rightarrow> u32 \<Rightarrow> bytes \<Rightarrow> (Status \<times> 'f Writer) option" where
  "EmitPhysicalRecord W w t ptr = do {
     let len = length ptr;
     let crc = Mask (Extend 0 (wr_type_crc w ! unat t) ptr);
     let buf = EncodeFixed32 crc @ [of_nat (len mod 256), of_nat (len div 256), ucast t];
     (s, dest) \<leftarrow> wf_Append W (wr_dest w) buf;
     (s, dest) \<leftarrow>
       (if Status_ok s then do {
          (s, dest) \<leftarrow> wf_Append W dest ptr;
          if Status_ok s then wf_Flush W dest else Some (s, dest)
        } else Some (s, dest));
     Some (s, w\<lparr>wr_dest := dest, wr_block_offset := wr_block_offset w + int (kHeaderSize + len)\<rparr>)
   }"

text \<open>The step to a new block; a failure to fill the trailer is not noticed.\<close>

definition switch_block :: "'f WritableFile \<Rightarrow> 'f Writer \<Rightarrow> 'f Writer option" where
  "switch_block W w =
     (let leftover = int log_kBlockSize - wr_block_offset w
      in if leftover < int kHeaderSize then do {
           w \<leftarrow> (if leftover > 0 then do {
                  (_, dest) \<leftarrow> wf_Append W (wr_dest w) (replicate (nat leftover) 0);
                  Some (w\<lparr>wr_dest := dest\<rparr>)
                } else Some w);
           Some (w\<lparr>wr_block_offset := 0\<rparr>)
         } else Some w)"

definition fragment_type :: "bool \<Rightarrow> bool \<Rightarrow> u32" where
  "fragment_type begin_flag end_flag =
     (if begin_flag \<and> end_flag then kFullType
      else if begin_flag then kFirstType
      else if end_flag then kLastType
      else kMiddleType)"

partial_function (option) AddRecord_loop ::
  "'f WritableFile \<Rightarrow> 'f Writer \<Rightarrow> bytes \<Rightarrow> bool \<Rightarrow> (Status \<times> 'f Writer) option" where
  "AddRecord_loop W w ptr begin_flag = do {
     w \<leftarrow> switch_block W w;
     let avail = nat (int log_kBlockSize - wr_block_offset w - int kHeaderSize);
     let fragment_length = (if length ptr < avail then length ptr else avail);
     let end_flag = (length ptr = fragment_length);
     (s, w) \<leftarrow> EmitPhysicalRecord W w (fragment_type begin_flag end_flag) (take fragment_length ptr);
     if Status_ok s \<and> length ptr - fragment_length > 0
     then AddRecord_loop W w (drop fragment_length ptr) False
     else Some (s, w)
   }"

definition AddRecord :: "'f WritableFile \<Rightarrow> 'f Writer \<Rightarrow> slice \<Rightarrow> (Status \<times> 'f Writer) option" where
  "AddRecord W w data = AddRecord_loop W w data True"

subsection \<open>Reader\<close>

definition kEof :: u32 where "kEof = kMaxRecordType + 1"
definition kBadRecord :: u32 where "kBadRecord = kMaxRecordType + 2"

text \<open>The reporter is the list of the drops it was told of, \<open>None\<close> if there is no reporter.\<close>

record 'f Reader =
  rd_file :: 'f
  rd_reporter :: "(u64 \<times> Status) list option"
  rd_checksum :: bool
  rd_buffer :: slice
  rd_eof :: bool
  rd_last_record_offset :: u64
  rd_end_of_buffer_offset :: u64
  rd_initial_offset :: u64
  rd_resyncing :: bool

definition Reader_new :: "'f \<Rightarrow> (u64 \<times> Status) list option \<Rightarrow> bool \<Rightarrow> u64 \<Rightarrow> 'f Reader" where
  "Reader_new file reporter checksum initial_offset =
     \<lparr>rd_file = file, rd_reporter = reporter, rd_checksum = checksum, rd_buffer = [], rd_eof = False,
      rd_last_record_offset = 0, rd_end_of_buffer_offset = 0, rd_initial_offset = initial_offset,
      rd_resyncing = (initial_offset > 0)\<rparr>"

definition LastRecordOffset :: "'f Reader \<Rightarrow> u64" where
  "LastRecordOffset rd = rd_last_record_offset rd"

definition ReportDrop :: "'f Reader \<Rightarrow> u64 \<Rightarrow> Status \<Rightarrow> 'f Reader" where
  "ReportDrop rd n reason =
     (case rd_reporter rd of
        None \<Rightarrow> rd
      | Some calls \<Rightarrow>
          if rd_end_of_buffer_offset rd - of_nat (length (rd_buffer rd)) - n \<ge> rd_initial_offset rd
          then rd\<lparr>rd_reporter := Some (calls @ [(n, reason)])\<rparr>
          else rd)"

definition ReportCorruption :: "'f Reader \<Rightarrow> u64 \<Rightarrow> bytes \<Rightarrow> 'f Reader" where
  "ReportCorruption rd n reason = ReportDrop rd n (Corruption reason [])"

text \<open>The start of the first block that can hold a record at or after the initial offset.\<close>

definition block_start_location :: "u64 \<Rightarrow> u64" where
  "block_start_location initial_offset =
     (let offset_in_block = unat initial_offset mod log_kBlockSize;
          start = initial_offset - of_nat offset_in_block
      in if offset_in_block > log_kBlockSize - 6 then start + of_nat log_kBlockSize else start)"

definition SkipToInitialBlock :: "'f SequentialFile \<Rightarrow> 'f Reader \<Rightarrow> (bool \<times> 'f Reader) option" where
  "SkipToInitialBlock S rd = do {
     let start = block_start_location (rd_initial_offset rd);
     let rd = rd\<lparr>rd_end_of_buffer_offset := start\<rparr>;
     if start > 0 then do {
       (skip_status, file) \<leftarrow> sf_Skip S (rd_file rd) start;
       let rd = rd\<lparr>rd_file := file\<rparr>;
       if \<not> Status_ok skip_status then Some (False, ReportDrop rd start skip_status)
       else Some (True, rd)
     } else Some (True, rd)
   }"

definition header_length :: "bytes \<Rightarrow> u32" where
  "header_length header =
     (let a = ucast (header ! 4) AND 0xff :: u32;
          b = ucast (header ! 5) AND 0xff :: u32
      in a OR push_bit 8 b)"

text \<open>What follows once the buffer holds a header; \<open>char\<close> is signed, so the type byte is sign-extended.\<close>

definition ParsePhysicalRecord :: "'f Reader \<Rightarrow> slice \<Rightarrow> u32 \<times> slice \<times> 'f Reader" where
  "ParsePhysicalRecord rd result =
     (let header = rd_buffer rd;
          type = scast (header ! 6) :: u32;
          len = unat (header_length header)
      in if kHeaderSize + len > length (rd_buffer rd) then
           let drop_size = of_nat (length (rd_buffer rd));
               rd = rd\<lparr>rd_buffer := []\<rparr>
           in if \<not> rd_eof rd
              then (kBadRecord, result, ReportCorruption rd drop_size (str ''bad record length''))
              else (kEof, result, rd)
         else if type = kZeroType \<and> len = 0 then (kBadRecord, result, rd\<lparr>rd_buffer := []\<rparr>)
         else if rd_checksum rd \<and> Value (take (1 + len) (drop 6 header)) \<noteq> Unmask (DecodeFixed32 header) then
           let drop_size = of_nat (length (rd_buffer rd));
               rd = rd\<lparr>rd_buffer := []\<rparr>
           in (kBadRecord, result, ReportCorruption rd drop_size (str ''checksum mismatch''))
         else
           let rd = rd\<lparr>rd_buffer := drop (kHeaderSize + len) (rd_buffer rd)\<rparr>
           in if rd_end_of_buffer_offset rd - of_nat (length (rd_buffer rd)) - of_nat kHeaderSize - of_nat len
                   < rd_initial_offset rd
              then (kBadRecord, [], rd)
              else (type, take len (drop kHeaderSize header), rd))"

partial_function (option) ReadPhysicalRecord ::
  "'f SequentialFile \<Rightarrow> 'f Reader \<Rightarrow> slice \<Rightarrow> (u32 \<times> slice \<times> 'f Reader) option" where
  "ReadPhysicalRecord S rd result =
     (if length (rd_buffer rd) < kHeaderSize then
        if \<not> rd_eof rd then do {
          (status, buffer, file) \<leftarrow> sf_Read S (rd_file rd) log_kBlockSize [];
          let rd = rd\<lparr>rd_file := file, rd_buffer := buffer,
            rd_end_of_buffer_offset := rd_end_of_buffer_offset rd + of_nat (length buffer)\<rparr>;
          if \<not> Status_ok status
          then Some (kEof, result,
            (ReportDrop (rd\<lparr>rd_buffer := []\<rparr>) (of_nat log_kBlockSize) status)\<lparr>rd_eof := True\<rparr>)
          else if length (rd_buffer rd) < log_kBlockSize
          then ReadPhysicalRecord S (rd\<lparr>rd_eof := True\<rparr>) result
          else ReadPhysicalRecord S rd result
        } else Some (kEof, result, rd\<lparr>rd_buffer := []\<rparr>)
      else Some (ParsePhysicalRecord rd result))"

text \<open>
  The loop of \<open>ReadRecord\<close>: \<open>fragment\<close> is the last fragment read, \<open>scratch\<close> what has been put together,
  \<open>prospective\<close> the offset of the record that is being put together.
\<close>

partial_function (option) ReadRecord_loop ::
  "'f SequentialFile \<Rightarrow> 'f Reader \<Rightarrow> slice \<Rightarrow> bytes \<Rightarrow> bool \<Rightarrow> u64 \<Rightarrow> (bool \<times> slice \<times> bytes \<times> 'f Reader) option" where
  "ReadRecord_loop S rd fragment scratch in_fragmented_record prospective = do {
     (record_type, fragment, rd) \<leftarrow> ReadPhysicalRecord S rd fragment;
     let physical_record_offset = rd_end_of_buffer_offset rd - of_nat (length (rd_buffer rd)) -
       of_nat kHeaderSize - of_nat (length fragment);
     if rd_resyncing rd \<and> record_type = kMiddleType
     then ReadRecord_loop S rd fragment scratch in_fragmented_record prospective
     else if rd_resyncing rd \<and> record_type = kLastType
     then ReadRecord_loop S (rd\<lparr>rd_resyncing := False\<rparr>) fragment scratch in_fragmented_record prospective
     else do {
       let rd = rd\<lparr>rd_resyncing := False\<rparr>;
       if record_type = kFullType then
         let rd = (if in_fragmented_record \<and> scratch \<noteq> []
                   then ReportCorruption rd (of_nat (length scratch)) (str ''partial record without end(1)'') else rd)
         in Some (True, fragment, [], rd\<lparr>rd_last_record_offset := physical_record_offset\<rparr>)
       else if record_type = kFirstType then
         ReadRecord_loop S
           (if in_fragmented_record \<and> scratch \<noteq> []
            then ReportCorruption rd (of_nat (length scratch)) (str ''partial record without end(2)'') else rd)
           fragment fragment True physical_record_offset
       else if record_type = kMiddleType then
         if \<not> in_fragmented_record then
           ReadRecord_loop S (ReportCorruption rd (of_nat (length fragment)) (str ''missing start of fragmented record(1)''))
             fragment scratch in_fragmented_record prospective
         else ReadRecord_loop S rd fragment (scratch @ fragment) in_fragmented_record prospective
       else if record_type = kLastType then
         if \<not> in_fragmented_record then
           ReadRecord_loop S (ReportCorruption rd (of_nat (length fragment)) (str ''missing start of fragmented record(2)''))
             fragment scratch in_fragmented_record prospective
         else Some (True, scratch @ fragment, scratch @ fragment, rd\<lparr>rd_last_record_offset := prospective\<rparr>)
       else if record_type = kEof then
         Some (False, [], if in_fragmented_record then [] else scratch, rd)
       else if record_type = kBadRecord then
         if in_fragmented_record then
           ReadRecord_loop S (ReportCorruption rd (of_nat (length scratch)) (str ''error in middle of record''))
             fragment [] False prospective
         else ReadRecord_loop S rd fragment scratch in_fragmented_record prospective
       else
         ReadRecord_loop S
           (ReportCorruption rd (of_nat (length fragment + (if in_fragmented_record then length scratch else 0)))
              (str ''unknown record type '' @ decimal (unat record_type)))
           fragment [] False prospective
     }
   }"

text \<open>The flag tells whether a record was read; then the record, the scratch string and the reader.\<close>

definition ReadRecord ::
  "'f SequentialFile \<Rightarrow> 'f Reader \<Rightarrow> slice \<Rightarrow> bytes \<Rightarrow> (bool \<times> slice \<times> bytes \<times> 'f Reader) option" where
  "ReadRecord S rd rcd scratch = do {
     (go, rd) \<leftarrow> (if rd_last_record_offset rd < rd_initial_offset rd then SkipToInitialBlock S rd else Some (True, rd));
     if \<not> go then Some (False, rcd, scratch, rd)
     else ReadRecord_loop S rd [] [] False 0
   }"

lemmas log_consts = log_kBlockSize_def kHeaderSize_def

lemmas type_defs = kZeroType_def kFullType_def kFirstType_def kMiddleType_def kLastType_def kMaxRecordType_def
  kEof_def kBadRecord_def

subsection \<open>The format as a function\<close>

definition phys :: "u32 \<Rightarrow> bytes \<Rightarrow> bytes" where
  "phys t p = EncodeFixed32 (Mask (Value (ucast t # p))) @
     [of_nat (length p mod 256), of_nat (length p div 256), ucast t] @ p"

text \<open>
  What a record becomes at block offset \<open>off\<close>, and the offset after it: padding to the end of the block
  if no header fits, then as much of the record as the block takes, then the rest in the next block.
\<close>

function log_enc :: "nat \<Rightarrow> bytes \<Rightarrow> bool \<Rightarrow> bytes \<times> nat" where
  "log_enc off data b =
     (let pad = (if off > 32761 then 32768 - off else 0);
          off1 = (if off > 32761 then 0 else off);
          n = min (length data) (32761 - off1);
          here = replicate pad 0 @ phys (fragment_type b (length data = n)) (take n data)
      in if length data = n then (here, off1 + 7 + n)
         else let (more, off2) = log_enc (off1 + 7 + n) (drop n data) False in (here @ more, off2))"
  by pat_completeness auto
termination
  by (relation "measure (\<lambda>(off, data, b). 2 * length data + (if off = 32761 then 1 else 0))") (auto simp: min_def split: if_splits)

declare log_enc.simps [simp del]

fun log_all :: "nat \<Rightarrow> bytes list \<Rightarrow> bytes" where
  "log_all off [] = []"
| "log_all off (r # rs) = fst (log_enc off r True) @ log_all (snd (log_enc off r True)) rs"

lemma fragment_type_bounds: "1 \<le> fragment_type b e" "fragment_type b e \<le> 4"
  by (simp_all add: fragment_type_def type_defs)

lemma Extend_Value: "Extend a (Value p) q = Value (p @ q)"
  by (simp add: Value_def Extend_eq crc_reference_def xor.assoc)

lemma InitTypeCrc_nth: "t \<le> 4 \<Longrightarrow> InitTypeCrc ! unat t = Value [ucast t]" for t :: u32
proof -
  assume t: "t \<le> 4"
  then have "unat t < 5" by (simp add: word_le_nat_alt)
  then have "InitTypeCrc ! unat t = Value [of_nat (unat t)]"
    unfolding InitTypeCrc_def by (subst nth_map) (simp_all add: type_defs del: upt_Suc)
  then show ?thesis by simp
qed

lemma two_byte_length:
  assumes "n < 65536"
  shows "unat ((ucast (of_nat (n mod 256) :: byte) AND 0xff :: u32) OR push_bit 8 (ucast (of_nat (n div 256) :: byte) AND 0xff)) = n"
proof -
  define w :: u32 where "w = of_nat n"
  have unat_w: "unat w = n" using assms by (simp add: w_def unat_of_nat)
  have low: "unat (take_bit 8 x) = unat x mod 256" for x :: u32
    by (simp only: unsigned_take_bit_eq) (simp add: take_bit_eq_mod)
  have a: "(ucast (of_nat (n mod 256) :: byte) AND 0xff :: u32) = take_bit 8 w"
    using assms by (simp add: word_unat_eq_iff and_ff unat_ucast_le unat_of_nat low unat_w)
  have "unat (drop_bit 8 w) = n div 256" using unat_w by (simp add: unat_drop_bit_div)
  then have b: "(ucast (of_nat (n div 256) :: byte) AND 0xff :: u32) = drop_bit 8 w"
    using assms by (simp add: word_unat_eq_iff and_ff unat_ucast_le unat_of_nat low)
  show ?thesis unfolding a b word_low_or_high by (rule unat_w)
qed

lemma scast_small_byte: "t \<le> 4 \<Longrightarrow> scast (ucast t :: byte) = (t :: u32)"
proof -
  assume "t \<le> 4"
  then have "unat t \<le> 4" by (simp add: word_le_nat_alt)
  then have "unat t \<in> {0, 1, 2, 3, 4}" by auto
  then have "t \<in> {0, 1, 2, 3, 4}" by (auto simp: word_unat_eq_iff)
  then show ?thesis by auto
qed

lemma length_phys [simp]: "length (phys t p) = 7 + length p"
  by (simp add: phys_def)

lemma phys_header:
  assumes "length p < 65536" "6 < m"
  shows "unat (header_length (take m (phys t p @ x))) = length p" "take m (phys t p @ x) ! 6 = ucast t"
proof -
  have "take m (phys t p @ x) ! 4 = of_nat (length p mod 256)" "take m (phys t p @ x) ! 5 = of_nat (length p div 256)"
    using assms by (simp_all add: phys_def EncodeFixed32_def)
  then show "unat (header_length (take m (phys t p @ x))) = length p"
    using two_byte_length [OF assms(1)] by (simp only: header_length_def Let_def)
  show "take m (phys t p @ x) ! 6 = ucast t" using assms by (simp add: phys_def EncodeFixed32_def)
qed

subsection \<open>The writer produces the format\<close>

context writable_file
begin

lemma EmitPhysicalRecord_bytes:
  assumes "wok (wr_dest w)" "wr_type_crc w = InitTypeCrc" "t \<le> 4" "length (contents (wr_dest w)) + length (phys t p) < 2 ^ 64"
  shows "\<exists>d'. EmitPhysicalRecord W w t p =
      Some (OK, w\<lparr>wr_dest := d', wr_block_offset := wr_block_offset w + int (7 + length p)\<rparr>) \<and> wok d' \<and>
    contents d' = contents (wr_dest w) @ phys t p"
proof -
  let ?h = "EncodeFixed32 (Mask (Value (ucast t # p))) @ [of_nat (length p mod 256), of_nat (length p div 256), ucast t]"
  have ph: "phys t p = ?h @ p" by (simp add: phys_def)
  obtain d1 where d1: "wf_Append W (wr_dest w) ?h = Some (OK, d1)" "wok d1" "contents d1 = contents (wr_dest w) @ ?h"
    using append [OF assms(1), of ?h] assms(4) by auto
  obtain d2 where d2: "wf_Append W d1 p = Some (OK, d2)" "wok d2" "contents d2 = contents d1 @ p"
    using append [OF d1(2), of p] d1(3) assms(4) by auto
  obtain d3 where "wf_Flush W d2 = Some (OK, d3)" "wok d3" "contents d3 = contents d2" using flush [OF d2(2)] by blast
  then show ?thesis
    using d1 d2 assms(2,3)
    by (intro exI [of _ d3]) (simp add: EmitPhysicalRecord_def ph InitTypeCrc_nth Extend_Value log_consts)
qed

lemma switch_block_bytes:
  assumes "wok (wr_dest w)" "wr_block_offset w = int off" "off \<le> 32768"
    "length (contents (wr_dest w)) + (32768 - off) < 2 ^ 64 \<or> off \<le> 32761"
  shows "\<exists>d'. switch_block W w = Some (w\<lparr>wr_dest := d', wr_block_offset := int (if off > 32761 then 0 else off)\<rparr>) \<and>
    wok d' \<and> contents d' = contents (wr_dest w) @ replicate (if off > 32761 then 32768 - off else 0) 0"
proof -
  consider "off \<le> 32761" | "off = 32768" | "32761 < off" "off < 32768" using assms(3) by linarith
  then show ?thesis
  proof cases
    case 1
    then show ?thesis using assms by (simp add: switch_block_def log_consts) (metis Writer.surjective Writer.update_convs(1,2))
  next
    case 2
    then show ?thesis using assms by (auto simp: switch_block_def log_consts) (metis Writer.surjective Writer.update_convs(1))
  next
    case 3
    then have "nat (32768 - int off) = 32768 - off" by simp
    then show ?thesis
      using 3 assms append [OF assms(1), of "replicate (32768 - off) 0"]
      by (auto simp: switch_block_def log_consts)
  qed
qed

lemma AddRecord_loop_bytes:
  "wok (wr_dest w) \<Longrightarrow> wr_block_offset w = int off \<Longrightarrow> off \<le> 32768 \<Longrightarrow> wr_type_crc w = InitTypeCrc \<Longrightarrow>
   length (contents (wr_dest w)) + length (fst (log_enc off data b)) < 2 ^ 64 \<Longrightarrow>
   \<exists>w'. AddRecord_loop W w data b = Some (OK, w') \<and> wok (wr_dest w') \<and>
     contents (wr_dest w') = contents (wr_dest w) @ fst (log_enc off data b) \<and>
     wr_block_offset w' = int (snd (log_enc off data b)) \<and> snd (log_enc off data b) \<le> 32768 \<and> wr_type_crc w' = InitTypeCrc"
proof (induction off data b arbitrary: w rule: log_enc.induct)
  case (1 off data b)
  let ?pad = "if off > 32761 then 32768 - off else 0"
  define off1 where "off1 = (if off > 32761 then 0 else off)"
  define n where "n = min (length data) (32761 - off1)"
  let ?t = "fragment_type b (length data = n)"
  let ?here = "replicate ?pad 0 @ phys ?t (take n data)"
  have enc: "log_enc off data b = (if length data = n then (?here, off1 + 7 + n)
      else (?here @ fst (log_enc (off1 + 7 + n) (drop n data) False), snd (log_enc (off1 + 7 + n) (drop n data) False)))"
    by (subst log_enc.simps) (simp add: Let_def off1_def n_def split: prod.splits)
  have here: "length ?here \<le> length (fst (log_enc off data b))" by (simp add: enc)
  have n: "n \<le> length data" "n \<le> 32761 - off1" "off1 \<le> 32761" by (auto simp: n_def off1_def)
  obtain d1 where d1: "switch_block W w = Some (w\<lparr>wr_dest := d1, wr_block_offset := int off1\<rparr>)" "wok d1"
    "contents d1 = contents (wr_dest w) @ replicate ?pad 0"
    using switch_block_bytes [OF "1.prems"(1-3)] "1.prems"(5) here unfolding off1_def by (auto split: if_splits)
  let ?w1 = "w\<lparr>wr_dest := d1, wr_block_offset := int off1\<rparr>"
  obtain d2 where d2: "EmitPhysicalRecord W ?w1 ?t (take n data) =
        Some (OK, ?w1\<lparr>wr_dest := d2, wr_block_offset := int off1 + int (7 + n)\<rparr>)" "wok d2"
      "contents d2 = contents d1 @ phys ?t (take n data)"
    using EmitPhysicalRecord_bytes [of ?w1 ?t "take n data"] d1(2,3) "1.prems"(4,5) here n fragment_type_bounds
    by (auto simp: min_def)
  let ?w2 = "w\<lparr>wr_dest := d2, wr_block_offset := int (off1 + 7 + n)\<rparr>"
  have len: "nat (32761 - int off1) = 32761 - off1"
    "(if length data < 32761 - off1 then length data else 32761 - off1) = n"
    using n by (auto simp: n_def)
  have unfold: "AddRecord_loop W w data b =
      (if length data = n then Some (OK, ?w2) else AddRecord_loop W ?w2 (drop n data) False)"
    using d1(1) d2(1) n(1) by (subst AddRecord_loop.simps) (simp add: log_consts len algebra_simps)
  show ?case
  proof (cases "length data = n")
    case True
    then show ?thesis using unfold enc d1 d2 n "1.prems"(4) by (simp add: off1_def)
  next
    case False
    have "\<exists>w'. AddRecord_loop W ?w2 (drop n data) False = Some (OK, w') \<and> wok (wr_dest w') \<and>
     contents (wr_dest w') = contents (wr_dest ?w2) @ fst (log_enc (off1 + 7 + n) (drop n data) False) \<and>
     wr_block_offset w' = int (snd (log_enc (off1 + 7 + n) (drop n data) False)) \<and>
     snd (log_enc (off1 + 7 + n) (drop n data) False) \<le> 32768 \<and> wr_type_crc w' = InitTypeCrc"
      using False d1 d2 n "1.prems"(4,5) enc
      by (intro "1.IH" [OF refl off1_def n_def refl]) (auto simp: min_def)
    then show ?thesis using unfold enc False d1 d2 by (simp add: off1_def)
  qed
qed

end

subsection \<open>The reader understands the format\<close>

context sequential_file
begin

text \<open>
  A reader from the start of the file that still has the bytes \<open>todo\<close> to go, at block offset \<open>off\<close>: its
  buffer is the rest of the block, shorter only if the file ends inside it.
\<close>

definition rview :: "'f Reader \<Rightarrow> nat \<Rightarrow> bytes \<Rightarrow> bool" where
  "rview rd off todo \<longleftrightarrow> rd_initial_offset rd = 0 \<and> \<not> rd_resyncing rd \<and> sok (rd_file rd) \<and> off \<le> 32768 \<and>
     todo = rd_buffer rd @ rest (rd_file rd) \<and>
     (if rd_eof rd then rest (rd_file rd) = [] \<and> off + length (rd_buffer rd) < 32768
      else length (rd_buffer rd) = 32768 - off)"

lemma rview_start: "sok f \<Longrightarrow> rest f = todo \<Longrightarrow> rview (Reader_new f reporter checksum 0) 32768 todo"
  by (simp add: rview_def Reader_new_def)

lemma ReadPhysicalRecord_parse:
  "7 \<le> length (rd_buffer rd) \<Longrightarrow> ReadPhysicalRecord S rd r = Some (ParsePhysicalRecord rd r)"
  by (subst ReadPhysicalRecord.simps) (simp add: log_consts)

lemma ReadPhysicalRecord_eof:
  "length (rd_buffer rd) < 7 \<Longrightarrow> rd_eof rd \<Longrightarrow> ReadPhysicalRecord S rd r = Some (kEof, r, rd\<lparr>rd_buffer := []\<rparr>)"
  by (subst ReadPhysicalRecord.simps) (simp add: log_consts)

text \<open>At the end of a block the next one is read.\<close>

lemma ReadPhysicalRecord_fill:
  assumes "length (rd_buffer rd) < 7" "\<not> rd_eof rd" "sok (rd_file rd)"
  shows "\<exists>f'. sok f' \<and> rest f' = drop 32768 (rest (rd_file rd)) \<and>
    ReadPhysicalRecord S rd r = ReadPhysicalRecord S
      (rd\<lparr>rd_file := f', rd_buffer := take 32768 (rest (rd_file rd)),
         rd_end_of_buffer_offset := rd_end_of_buffer_offset rd + of_nat (length (take 32768 (rest (rd_file rd)))),
         rd_eof := (length (rest (rd_file rd)) < 32768)\<rparr>) r"
proof -
  obtain f' where "sf_Read S (rd_file rd) 32768 [] = Some (OK, take 32768 (rest (rd_file rd)), f')" "sok f'"
    "rest f' = drop 32768 (rest (rd_file rd))"
    using read [OF assms(3)] by blast
  note f' = this
  let ?rd = "\<lambda>e. rd\<lparr>rd_file := f', rd_buffer := take 32768 (rest (rd_file rd)),
      rd_end_of_buffer_offset := rd_end_of_buffer_offset rd + of_nat (length (take 32768 (rest (rd_file rd)))), rd_eof := e\<rparr>"
  have same: "?rd False = rd\<lparr>rd_file := f', rd_buffer := take 32768 (rest (rd_file rd)),
      rd_end_of_buffer_offset := rd_end_of_buffer_offset rd + of_nat (length (take 32768 (rest (rd_file rd))))\<rparr>"
    using assms(2) by (cases rd) simp
  have "ReadPhysicalRecord S rd r = ReadPhysicalRecord S (?rd (length (rest (rd_file rd)) < 32768)) r"
  proof (cases "length (rest (rd_file rd)) < 32768")
    case True
    then show ?thesis using assms(1,2) f'(1)
      by (subst ReadPhysicalRecord.simps) (simp add: log_consts Let_def)
  next
    case False
    then have "?rd (length (rest (rd_file rd)) < 32768) = ?rd False" by simp
    then show ?thesis
      unfolding same using False assms(1,2) f'(1)
      by (simp only:) (subst ReadPhysicalRecord.simps, simp add: log_consts Let_def)
  qed
  then show ?thesis using f' by blast
qed

lemma ReadPhysicalRecord_block:
  assumes "rview rd off todo" "off > 32761" "32768 - off \<le> length todo"
  shows "\<exists>rd'. ReadPhysicalRecord S rd r = ReadPhysicalRecord S rd' r \<and> rview rd' 0 (drop (32768 - off) todo) \<and>
    rd_reporter rd' = rd_reporter rd \<and> rd_checksum rd' = rd_checksum rd"
proof -
  have v: "rd_initial_offset rd = 0" "\<not> rd_resyncing rd" "sok (rd_file rd)" "off \<le> 32768"
    "todo = rd_buffer rd @ rest (rd_file rd)"
    "if rd_eof rd then rest (rd_file rd) = [] \<and> off + length (rd_buffer rd) < 32768 else length (rd_buffer rd) = 32768 - off"
    using assms(1) by (simp_all add: rview_def)
  have e: "\<not> rd_eof rd" and b: "length (rd_buffer rd) = 32768 - off" using v assms(3) by (auto split: if_splits)
  have T: "drop (32768 - off) todo = rest (rd_file rd)" using v(5) b by simp
  have "length (rd_buffer rd) < 7" using b assms(2) by simp
  from ReadPhysicalRecord_fill [OF this e v(3), of r] obtain f' where f': "sok f'" "rest f' = drop 32768 (rest (rd_file rd))"
    "ReadPhysicalRecord S rd r = ReadPhysicalRecord S
      (rd\<lparr>rd_file := f', rd_buffer := take 32768 (rest (rd_file rd)),
         rd_end_of_buffer_offset := rd_end_of_buffer_offset rd + of_nat (length (take 32768 (rest (rd_file rd)))),
         rd_eof := (length (rest (rd_file rd)) < 32768)\<rparr>) r"
    by blast
  show ?thesis unfolding T f'(3) using f'(1,2) v by (intro exI conjI) (rule refl, auto simp: rview_def)
qed

lemma ParsePhysicalRecord_phys:
  assumes "rd_buffer rd = phys t p @ x" "length p < 65536" "1 \<le> t" "t \<le> 4" "rd_initial_offset rd = 0"
  shows "ParsePhysicalRecord rd r = (t, p, rd\<lparr>rd_buffer := x\<rparr>)"
proof -
  have h: "unat (header_length (phys t p @ x)) = length p" "(phys t p @ x) ! 6 = ucast t"
    using phys_header [OF assms(2), of "length (phys t p @ x)" t x] by simp_all
  have "take (1 + length p) (drop 6 (phys t p @ x)) = ucast t # p" by (simp add: phys_def)
  moreover have "DecodeFixed32 (phys t p @ x) = Mask (Value (ucast t # p))" by (simp add: phys_def)
  moreover have "t \<noteq> kZeroType" using assms(3) by (auto simp: kZeroType_def)
  ultimately show ?thesis
    using assms
    by (simp add: ParsePhysicalRecord_def Let_def h scast_small_byte log_consts Unmask_Mask)
       (simp add: phys_def)
qed

lemma read_fragment:
  assumes v: "rview rd off (replicate (if off > 32761 then 32768 - off else 0) 0 @ phys t p @ x)"
    and p: "length p \<le> 32761 - (if off > 32761 then 0 else off)" and t: "1 \<le> t" "t \<le> 4"
  shows "\<exists>rd'. ReadPhysicalRecord S rd r = Some (t, p, rd') \<and>
    rview rd' ((if off > 32761 then 0 else off) + 7 + length p) x \<and> rd_reporter rd' = rd_reporter rd"
proof -
  have here: "\<exists>rd'. ReadPhysicalRecord S rd r = Some (t, p, rd') \<and> rview rd' (off + 7 + length p) x \<and>
      rd_reporter rd' = rd_reporter rd"
    if v: "rview rd off (phys t p @ x)" and off: "off \<le> 32761" "length p \<le> 32761 - off" for rd off
  proof -
    have T: "phys t p @ x = rd_buffer rd @ rest (rd_file rd)"
      and b: "if rd_eof rd then rest (rd_file rd) = [] \<and> off + length (rd_buffer rd) < 32768
        else length (rd_buffer rd) = 32768 - off"
      using v by (simp_all add: rview_def)
    have "length (phys t p) \<le> length (rd_buffer rd)" using T b off by (auto split: if_splits dest: arg_cong [of _ _ length])
    then have "take (length (phys t p)) (rd_buffer rd) = phys t p"
      using arg_cong [OF T, of "take (length (phys t p))"] by simp
    then obtain y where y: "rd_buffer rd = phys t p @ y" "x = y @ rest (rd_file rd)"
      using T by (metis append.assoc append_take_drop_id same_append_eq)
    then show ?thesis
      using v off t ReadPhysicalRecord_parse [of rd r] ParsePhysicalRecord_phys [OF y(1), of r]
      by (auto simp: rview_def split: if_splits)
  qed
  show ?thesis
  proof (cases "off > 32761")
    case True
    then obtain rd' where "ReadPhysicalRecord S rd r = ReadPhysicalRecord S rd' r" "rview rd' 0 (phys t p @ x)"
      "rd_reporter rd' = rd_reporter rd"
      using ReadPhysicalRecord_block [OF v True, of r] by auto
    then show ?thesis using here [of rd' 0] True p by auto
  qed (use here [of rd off] v p in auto)
qed

text \<open>A file that ends inside a fragment reads as ended, without a report.\<close>

lemma read_truncated:
  assumes v: "rview rd off (take m (replicate (if off > 32761 then 32768 - off else 0) 0 @ phys t p))"
    and m: "m < length (replicate (if off > 32761 then 32768 - off else 0) (0 :: byte) @ phys t p)"
    and p: "length p \<le> 32761 - (if off > 32761 then 0 else off)" and t: "t \<le> 4"
  shows "\<exists>rd'. ReadPhysicalRecord S rd r = Some (kEof, r, rd') \<and> rd_reporter rd' = rd_reporter rd \<and> \<not> rd_resyncing rd'"
proof -
  have here: "\<exists>rd'. ReadPhysicalRecord S rd r = Some (kEof, r, rd') \<and> rd_reporter rd' = rd_reporter rd \<and> \<not> rd_resyncing rd'"
    if v: "rview rd off (take m (phys t p))" and off: "off \<le> 32761" "length p \<le> 32761 - off" and m: "m < 7 + length p" for rd off m
  proof -
    have T: "take m (phys t p) = rd_buffer rd @ rest (rd_file rd)"
      and b: "if rd_eof rd then rest (rd_file rd) = [] \<and> off + length (rd_buffer rd) < 32768
        else length (rd_buffer rd) = 32768 - off"
      using v by (simp_all add: rview_def)
    have "length (rd_buffer rd @ rest (rd_file rd)) = m" using m by (simp flip: T)
    then have e: "rd_eof rd" using b off m by (auto split: if_splits)
    then have buf: "rd_buffer rd = take m (phys t p)" using b T by simp
    show ?thesis
    proof (cases "m < 7")
      case True
      then show ?thesis using ReadPhysicalRecord_eof [OF _ e] buf v by (auto simp: rview_def)
    next
      case False
      have h: "unat (header_length (take m (phys t p))) = length p"
        using phys_header [of p m t "[]"] off False by simp
      have "ParsePhysicalRecord rd r = (kEof, r, rd\<lparr>rd_buffer := []\<rparr>)"
        using e m off by (simp add: ParsePhysicalRecord_def Let_def buf h log_consts)
      then show ?thesis using ReadPhysicalRecord_parse [of rd r] buf False m v by (auto simp: rview_def)
    qed
  qed
  show ?thesis
  proof (cases "off > 32761")
    case True
    let ?pad = "32768 - off"
    show ?thesis
    proof (cases "m < ?pad")
      case False
      then obtain rd' where "ReadPhysicalRecord S rd r = ReadPhysicalRecord S rd' r"
        "rview rd' 0 (take (m - ?pad) (phys t p))" "rd_reporter rd' = rd_reporter rd"
        using ReadPhysicalRecord_block [OF v True, of r] True m by auto
      then show ?thesis using here [of rd' 0 "m - ?pad"] True p m by auto
    next
      case short: True
      have T: "rd_buffer rd @ rest (rd_file rd) = take m (replicate (if off > 32761 then ?pad else 0) 0 @ phys t p)"
        and b: "if rd_eof rd then rest (rd_file rd) = [] \<and> off + length (rd_buffer rd) < 32768
          else length (rd_buffer rd) = 32768 - off" "off \<le> 32768"
        using v by (auto simp only: rview_def)
      have "length (rd_buffer rd @ rest (rd_file rd)) = m" unfolding T using short True by simp
      then have "rd_eof rd" "length (rd_buffer rd) < 7" using b short True by (auto split: if_splits)
      then show ?thesis using ReadPhysicalRecord_eof v by (auto simp: rview_def)
    qed
  qed (use here [of rd off m] v p m in auto)
qed

end

text \<open>The loop of the clients, \<open>while (reader.ReadRecord(&record, &scratch))\<close>.\<close>

partial_function (option) read_all :: "'f SequentialFile \<Rightarrow> 'f Reader \<Rightarrow> (bytes list \<times> 'f Reader) option" where
  "read_all S rd = do {
     (found, rcd, _, rd) \<leftarrow> ReadRecord S rd [] [];
     if found then do { (rs, rd) \<leftarrow> read_all S rd; Some (rcd # rs, rd) } else Some ([], rd)
   }"

partial_function (option) add_all :: "'f WritableFile \<Rightarrow> 'f Writer \<Rightarrow> bytes list \<Rightarrow> (Status \<times> 'f Writer) option" where
  "add_all W w rs =
     (case rs of
        [] \<Rightarrow> Some (OK, w)
      | r # rs \<Rightarrow> do {
          (s, w) \<leftarrow> AddRecord W w r;
          if Status_ok s then add_all W w rs else Some (s, w)
        })"

lemmas log_types = fragment_type_def type_defs

lemma log_enc_step:
  fixes off data b
  defines "off1 \<equiv> if off > 32761 then 0 else off"
  defines "n \<equiv> min (length data) (32761 - off1)"
  defines "here \<equiv> replicate (if off > 32761 then 32768 - off else 0) 0 @ phys (fragment_type b (length data = n)) (take n data)"
  shows "log_enc off data b = (if length data = n then (here, off1 + 7 + n)
      else (here @ fst (log_enc (off1 + 7 + n) (drop n data) False), snd (log_enc (off1 + 7 + n) (drop n data) False)))"
  unfolding off1_def n_def here_def by (subst log_enc.simps) (simp add: Let_def split: prod.splits)

context writable_file
begin

lemma add_all_bytes:
  "wok (wr_dest w) \<Longrightarrow> wr_block_offset w = int off \<Longrightarrow> off \<le> 32768 \<Longrightarrow> wr_type_crc w = InitTypeCrc \<Longrightarrow>
   length (contents (wr_dest w)) + length (log_all off rs) < 2 ^ 64 \<Longrightarrow>
   \<exists>w'. add_all W w rs = Some (OK, w') \<and> wok (wr_dest w') \<and>
     contents (wr_dest w') = contents (wr_dest w) @ log_all off rs"
proof (induction rs arbitrary: w off)
  case Nil
  then show ?case by (subst add_all.simps) simp
next
  case (Cons r rs)
  let ?e = "log_enc off r True"
  obtain w1 where w1: "AddRecord W w r = Some (OK, w1)" "wok (wr_dest w1)"
    "contents (wr_dest w1) = contents (wr_dest w) @ fst ?e" "wr_block_offset w1 = int (snd ?e)" "snd ?e \<le> 32768"
    "wr_type_crc w1 = InitTypeCrc"
    using AddRecord_loop_bytes [OF Cons.prems(1-4), of r True] Cons.prems(5) by (auto simp: AddRecord_def)
  have "length (contents (wr_dest w1)) + length (log_all (snd ?e) rs) < 2 ^ 64" using Cons.prems(5) w1(3) by simp
  from Cons.IH [OF w1(2,4,5,6) this] show ?case using w1 by (subst add_all.simps) auto
qed

end

context sequential_file
begin

lemma ReadRecord_loop_enc:
  "rview rd off (fst (log_enc off data b) @ x) \<Longrightarrow> ifr = (\<not> b) \<Longrightarrow>
   \<exists>sc rd'. ReadRecord_loop S rd fr scratch ifr pr = Some (True, (if b then [] else scratch) @ data, sc, rd') \<and>
     rview rd' (snd (log_enc off data b)) x \<and> rd_reporter rd' = rd_reporter rd"
proof (induction off data b arbitrary: rd fr scratch ifr pr rule: log_enc.induct)
  case (1 off data b)
  define off1 where "off1 = (if off > 32761 then 0 else off)"
  define n where "n = min (length data) (32761 - off1)"
  let ?more = "log_enc (off1 + 7 + n) (drop n data) False"
  let ?t = "fragment_type b (length data = n)"
  let ?y = "if length data = n then x else fst ?more @ x"
  note enc = log_enc_step [of off data b, folded off1_def, folded n_def]
  have n: "length (take n data) = n" "n \<le> 32761 - off1" by (auto simp: n_def)
  have "rview rd off (replicate (if off > 32761 then 32768 - off else 0) 0 @ phys ?t (take n data) @ ?y)"
    using "1.prems"(1) by (simp add: enc split: if_splits)
  then obtain rd' where rd': "ReadPhysicalRecord S rd fr = Some (?t, take n data, rd')" "rview rd' (off1 + 7 + n) ?y"
    "rd_reporter rd' = rd_reporter rd"
    using read_fragment [of rd off ?t "take n data" ?y fr] n fragment_type_bounds unfolding off1_def by auto
  have ns: "\<not> rd_resyncing rd'" using rd'(2) by (simp add: rview_def)
  have keep: "rview (rd'\<lparr>rd_resyncing := False\<rparr>) o2 z = rview rd' o2 z"
     "rview (rd'\<lparr>rd_resyncing := False, rd_last_record_offset := l\<rparr>) o2 z = rview rd' o2 z" for o2 z l
    using ns by (simp_all add: rview_def)
  show ?case
  proof (cases "length data = n")
    case True
    then show ?thesis
      using rd' ns "1.prems"(2) keep
      by (subst ReadRecord_loop.simps) (auto simp: enc log_types)
  next
    case False
    let ?rd = "rd'\<lparr>rd_resyncing := False\<rparr>"
    have IH: "\<exists>sc rd''. ReadRecord_loop S ?rd fr' sc' True pr' = Some (True, sc' @ drop n data, sc, rd'') \<and>
        rview rd'' (snd ?more) x \<and> rd_reporter rd'' = rd_reporter ?rd" for fr' sc' pr'
      using "1.IH" [OF refl off1_def n_def refl False, of ?rd True fr' sc' pr'] rd'(2) False keep by simp
    have step: "\<exists>fr' sc' pr'. ReadRecord_loop S rd fr scratch ifr pr = ReadRecord_loop S ?rd fr' sc' True pr' \<and>
        sc' = (if b then [] else scratch) @ take n data"
      using rd'(1) ns "1.prems"(2) False
      by (subst ReadRecord_loop.simps) (cases b; auto simp: log_types)
    then obtain fr' pr' where "ReadRecord_loop S rd fr scratch ifr pr =
        ReadRecord_loop S ?rd fr' ((if b then [] else scratch) @ take n data) True pr'"
      by blast
    then show ?thesis using IH [of fr' "(if b then [] else scratch) @ take n data" pr'] False rd'(3) by (auto simp: enc)
  qed
qed

lemma ReadRecord_loop_truncated:
  "rview rd off (take m (fst (log_enc off data b))) \<Longrightarrow> m < length (fst (log_enc off data b)) \<Longrightarrow> ifr = (\<not> b) \<Longrightarrow>
   \<exists>sc rd'. ReadRecord_loop S rd fr scratch ifr pr = Some (False, [], sc, rd') \<and> rd_reporter rd' = rd_reporter rd"
proof (induction off data b arbitrary: rd fr scratch ifr pr m rule: log_enc.induct)
  case (1 off data b)
  define off1 where "off1 = (if off > 32761 then 0 else off)"
  define n where "n = min (length data) (32761 - off1)"
  let ?more = "log_enc (off1 + 7 + n) (drop n data) False"
  let ?t = "fragment_type b (length data = n)"
  let ?here = "replicate (if off > 32761 then 32768 - off else 0) 0 @ phys ?t (take n data)"
  note enc = log_enc_step [of off data b, folded off1_def, folded n_def]
  have n: "length (take n data) = n" "n \<le> 32761 - off1" by (auto simp: n_def)
  show ?case
  proof (cases "m < length ?here")
    case True
    then have "rview rd off (take m ?here)" using "1.prems"(1) by (auto simp: enc split: if_splits)
    then obtain rd' where "ReadPhysicalRecord S rd fr = Some (kEof, fr, rd')" "rd_reporter rd' = rd_reporter rd" "\<not> rd_resyncing rd'"
      using read_truncated [of rd off m ?t "take n data" fr] True n fragment_type_bounds unfolding off1_def by auto
    then show ?thesis by (subst ReadRecord_loop.simps) (simp add: type_defs)
  next
    case m: False
    then have False: "length data \<noteq> n" using "1.prems"(2) by (auto simp: enc split: if_splits)
    let ?m = "m - length ?here"
    let ?y = "take ?m (fst ?more)"
    have "take m (fst (log_enc off data b)) = ?here @ ?y" using m False by (simp add: enc)
    then have "rview rd off (replicate (if off > 32761 then 32768 - off else 0) 0 @ phys ?t (take n data) @ ?y)"
      using "1.prems"(1) by simp
    then obtain rd' where rd': "ReadPhysicalRecord S rd fr = Some (?t, take n data, rd')" "rview rd' (off1 + 7 + n) ?y"
      "rd_reporter rd' = rd_reporter rd"
      using read_fragment [of rd off ?t "take n data" ?y fr] n fragment_type_bounds unfolding off1_def by auto
    have ns: "\<not> rd_resyncing rd'" using rd'(2) by (simp add: rview_def)
    let ?rd = "rd'\<lparr>rd_resyncing := False\<rparr>"
    have keep: "rview ?rd (off1 + 7 + n) ?y" using rd'(2) by (simp add: rview_def)
    have m': "?m < length (fst ?more)" using m "1.prems"(2) False by (simp add: enc)
    have IH: "\<exists>sc rd''. ReadRecord_loop S ?rd fr' sc' True pr' = Some (False, [], sc, rd'') \<and>
        rd_reporter rd'' = rd_reporter ?rd" for fr' sc' pr'
      using "1.IH" [OF refl off1_def n_def refl False keep m'] by simp
    have step: "\<exists>fr' sc' pr'. ReadRecord_loop S rd fr scratch ifr pr = ReadRecord_loop S ?rd fr' sc' True pr'"
      using rd'(1) ns "1.prems"(3) False
      by (subst ReadRecord_loop.simps) (cases b; auto simp: log_types)
    then show ?thesis using IH rd'(3) by fastforce
  qed
qed

lemma read_all_prefix:
  "rview rd off (take m (log_all off rs)) \<Longrightarrow>
   \<exists>k rd'. read_all S rd = Some (take k rs, rd') \<and> rd_reporter rd' = rd_reporter rd \<and>
     (\<forall>j\<le>length rs. length (log_all off (take j rs)) \<le> m \<longrightarrow> j \<le> k)"
proof (induction rs arbitrary: rd off m)
  case Nil
  then have v: "rview rd off []" by simp
  have "rview rd off (take 0 (fst (log_enc off [] True)))" using v by simp
  moreover have "0 < length (fst (log_enc off [] True))" by (subst log_enc.simps) (simp add: Let_def)
  ultimately obtain sc rd' where "ReadRecord_loop S rd [] [] False 0 = Some (False, [], sc, rd')" "rd_reporter rd' = rd_reporter rd"
    using ReadRecord_loop_truncated [of rd off 0 "[]" True False "[]" "[]" 0] by auto
  then show ?case using v by (subst read_all.simps) (simp add: ReadRecord_def rview_def)
next
  case (Cons r rs)
  let ?e = "log_enc off r True"
  have RR: "ReadRecord S rd [] [] = ReadRecord_loop S rd [] [] False 0"
    using Cons.prems by (simp add: ReadRecord_def rview_def)
  show ?case
  proof (cases "m < length (fst ?e)")
    case True
    then have "rview rd off (take m (fst ?e))" using Cons.prems by simp
    then obtain sc rd' where "ReadRecord_loop S rd [] [] False 0 = Some (False, [], sc, rd')" "rd_reporter rd' = rd_reporter rd"
      using ReadRecord_loop_truncated [of rd off m r True False "[]" "[]" 0] True by auto
    moreover have "j = 0" if "j \<le> length (r # rs)" "length (log_all off (take j (r # rs))) \<le> m" for j
      using that True by (cases j) auto
    ultimately show ?thesis by (subst read_all.simps) (intro exI [of _ 0], auto simp: RR)
  next
    case False
    let ?x = "take (m - length (fst ?e)) (log_all (snd ?e) rs)"
    have "rview rd off (fst ?e @ ?x)" using Cons.prems False by simp
    then obtain sc rd' where rd': "ReadRecord_loop S rd [] [] False 0 = Some (True, r, sc, rd')" "rview rd' (snd ?e) ?x"
      "rd_reporter rd' = rd_reporter rd"
      using ReadRecord_loop_enc [of rd off r True ?x False "[]" "[]" 0] by auto
    obtain k rd'' where k: "read_all S rd' = Some (take k rs, rd'')" "rd_reporter rd'' = rd_reporter rd'"
      "\<forall>j\<le>length rs. length (log_all (snd ?e) (take j rs)) \<le> m - length (fst ?e) \<longrightarrow> j \<le> k"
      using Cons.IH [OF rd'(2)] by blast
    have "j \<le> Suc k" if "j \<le> length (r # rs)" "length (log_all off (take j (r # rs))) \<le> m" for j
      using that k(3) False by (cases j) auto
    then show ?thesis using k rd' by (subst read_all.simps) (intro exI [of _ "Suc k"], auto simp: RR)
  qed
qed

end

subsection \<open>Reading ends, whatever the file holds\<close>

lemma ReportDrop_frame [simp]:
  "rd_file (ReportDrop rd n s) = rd_file rd" "rd_buffer (ReportDrop rd n s) = rd_buffer rd"
  "rd_file (ReportCorruption rd n m) = rd_file rd" "rd_buffer (ReportCorruption rd n m) = rd_buffer rd"
  by (auto simp: ReportDrop_def ReportCorruption_def split: option.splits)

lemma if_cases: "(b \<Longrightarrow> P x \<or> Q x) \<Longrightarrow> (\<not> b \<Longrightarrow> P y \<or> Q y) \<Longrightarrow> P (if b then x else y) \<or> Q (if b then x else y)"
  by simp

context sequential_file
begin

definition bytes_left :: "'f Reader \<Rightarrow> nat" where
  "bytes_left rd = length (rd_buffer rd) + length (rest (rd_file rd))"

lemma ParsePhysicalRecord_consumes:
  assumes "7 \<le> length (rd_buffer rd)" "ParsePhysicalRecord rd r = (t, fr, rd')"
  shows "rd_file rd' = rd_file rd \<and> length (rd_buffer rd') < length (rd_buffer rd)"
  using assms by (auto simp: ParsePhysicalRecord_def Let_def log_consts split: if_splits)

lemma ReadPhysicalRecord_consumes:
  assumes "sok (rd_file rd)"
  shows "\<exists>t fr rd'. ReadPhysicalRecord S rd r = Some (t, fr, rd') \<and> sok (rd_file rd') \<and> bytes_left rd' \<le> bytes_left rd \<and>
    (t = kEof \<or> bytes_left rd' < bytes_left rd)"
proof -
  have full: "\<exists>t fr rd'. ReadPhysicalRecord S rd r = Some (t, fr, rd') \<and> sok (rd_file rd') \<and> bytes_left rd' < bytes_left rd"
    if "7 \<le> length (rd_buffer rd)" "sok (rd_file rd)" for rd
    using ReadPhysicalRecord_parse [OF that(1), of r] ParsePhysicalRecord_consumes [OF that(1), of r] that(2)
    by (cases "ParsePhysicalRecord rd r") (auto simp: bytes_left_def)
  have atend: "\<exists>t fr rd'. ReadPhysicalRecord S rd r = Some (t, fr, rd') \<and> sok (rd_file rd') \<and> bytes_left rd' \<le> bytes_left rd \<and>
      (t = kEof \<or> bytes_left rd' < bytes_left rd)"
    if "rd_eof rd \<or> 7 \<le> length (rd_buffer rd)" "sok (rd_file rd)" for rd
  proof (cases "7 \<le> length (rd_buffer rd)")
    case True
    then show ?thesis using full that(2) less_imp_le by blast
  next
    case False
    then show ?thesis using ReadPhysicalRecord_eof [of rd r] that by (auto simp: bytes_left_def)
  qed
  show ?thesis
  proof (cases "length (rd_buffer rd) < 7 \<and> \<not> rd_eof rd")
    case True
    then obtain f' where f': "sok f'" "rest f' = drop 32768 (rest (rd_file rd))"
      "ReadPhysicalRecord S rd r = ReadPhysicalRecord S
      (rd\<lparr>rd_file := f', rd_buffer := take 32768 (rest (rd_file rd)),
         rd_end_of_buffer_offset := rd_end_of_buffer_offset rd + of_nat (length (take 32768 (rest (rd_file rd)))),
         rd_eof := (length (rest (rd_file rd)) < 32768)\<rparr>) r" (is "_ = ReadPhysicalRecord S ?rd r")
      using ReadPhysicalRecord_fill [of rd r] assms by blast
    have "bytes_left ?rd \<le> bytes_left rd" using f'(2) by (simp add: bytes_left_def min_def)
    moreover have "rd_eof ?rd \<or> 7 \<le> length (rd_buffer ?rd)" by (simp add: min_def) linarith
    ultimately show ?thesis using atend [of ?rd] f'(1,3) by (auto intro: order_trans order.strict_trans2)
  qed (use atend [of rd] assms in auto)
qed

lemma ReadRecord_loop_returns:
  "sok (rd_file rd) \<Longrightarrow>
   \<exists>found rcd sc rd'. ReadRecord_loop S rd fr scratch ifr pr = Some (found, rcd, sc, rd') \<and> sok (rd_file rd') \<and>
     bytes_left rd' \<le> bytes_left rd \<and> (found \<longrightarrow> bytes_left rd' < bytes_left rd)"
proof (induction "bytes_left rd" arbitrary: rd fr scratch ifr pr rule: less_induct)
  case less
  obtain t fr' rd1 where rd1: "ReadPhysicalRecord S rd fr = Some (t, fr', rd1)" "sok (rd_file rd1)"
    "t = kEof \<or> bytes_left rd1 < bytes_left rd" "bytes_left rd1 \<le> bytes_left rd"
    using ReadPhysicalRecord_consumes [OF less.prems] by blast
  show ?case
  proof (cases "t = kEof")
    case True
    then show ?thesis
      using rd1 by (subst ReadRecord_loop.simps) (auto simp: type_defs bytes_left_def)
  next
    case False
    then have lt: "bytes_left rd1 < bytes_left rd" using rd1(3) by blast
    have IH: "\<exists>found rcd sc rd'. ReadRecord_loop S rd2 f2 s2 i2 p2 = Some (found, rcd, sc, rd') \<and> sok (rd_file rd') \<and>
        bytes_left rd' \<le> bytes_left rd \<and> (found \<longrightarrow> bytes_left rd' < bytes_left rd)"
      if "rd_file rd2 = rd_file rd1" "rd_buffer rd2 = rd_buffer rd1" for rd2 f2 s2 i2 p2
    proof -
      have "bytes_left rd2 < bytes_left rd" "sok (rd_file rd2)" using that lt rd1(2) by (simp_all add: bytes_left_def)
      from less.hyps [OF this, of f2 s2 i2 p2] show ?thesis using \<open>bytes_left rd2 < bytes_left rd\<close>
        by (meson less_imp_le order.strict_trans order_trans)
    qed
    let ?again = "\<lambda>res. \<exists>rd2 f2 s2 i2 p2. res = ReadRecord_loop S rd2 f2 s2 i2 p2 \<and>
        rd_file rd2 = rd_file rd1 \<and> rd_buffer rd2 = rd_buffer rd1"
    let ?found = "\<lambda>res. \<exists>rcd sc rd2. res = Some (True, rcd, sc, rd2) \<and> rd_file rd2 = rd_file rd1 \<and> rd_buffer rd2 = rd_buffer rd1"
    have again: "?again (ReadRecord_loop S rd2 f2 s2 i2 p2)"
      if "rd_file rd2 = rd_file rd1" "rd_buffer rd2 = rd_buffer rd1" for rd2 f2 s2 i2 p2
      using that by blast
    have "?again (ReadRecord_loop S rd fr scratch ifr pr) \<or> ?found (ReadRecord_loop S rd fr scratch ifr pr)"
      unfolding ReadRecord_loop.simps [of S rd fr scratch ifr pr] rd1(1) bind.bind_lunit case_prod_conv Let_def
      by (intro if_cases [where P = ?again and Q = ?found];
          (rule disjI1, rule again, (simp; fail), (simp; fail))?; (simp add: False; fail)?)
    then show ?thesis
    proof (elim disjE exE conjE)
      fix rd2 f2 s2 i2 p2
      assume "ReadRecord_loop S rd fr scratch ifr pr = ReadRecord_loop S rd2 f2 s2 i2 p2"
        "rd_file rd2 = rd_file rd1" "rd_buffer rd2 = rd_buffer rd1"
      then show ?thesis using IH [of rd2 f2 s2 i2 p2] by simp
    next
      fix rcd sc rd2
      assume r: "ReadRecord_loop S rd fr scratch ifr pr = Some (True, rcd, sc, rd2)"
        "rd_file rd2 = rd_file rd1" "rd_buffer rd2 = rd_buffer rd1"
      then have "bytes_left rd2 < bytes_left rd" "sok (rd_file rd2)" using lt rd1(2) by (simp_all add: bytes_left_def)
      then show ?thesis using r(1) by auto
    qed
  qed
qed

lemma SkipToInitialBlock_returns:
  assumes "sok (rd_file rd)"
  shows "\<exists>rd'. SkipToInitialBlock S rd = Some (True, rd') \<and> sok (rd_file rd') \<and> bytes_left rd' \<le> bytes_left rd"
proof -
  let ?n = "block_start_location (rd_initial_offset rd)"
  obtain f' where "sf_Skip S (rd_file rd) ?n = Some (OK, f')" "sok f'" "rest f' = drop (unat ?n) (rest (rd_file rd))"
    using skip [OF assms] by blast
  then show ?thesis using assms by (auto simp: SkipToInitialBlock_def Let_def bytes_left_def)
qed

lemma ReadRecord_returns:
  assumes "sok (rd_file rd)"
  shows "\<exists>found rcd sc rd'. ReadRecord S rd r s = Some (found, rcd, sc, rd') \<and> sok (rd_file rd') \<and>
    (found \<longrightarrow> bytes_left rd' < bytes_left rd)"
proof -
  obtain rd1 where "(if rd_last_record_offset rd < rd_initial_offset rd then SkipToInitialBlock S rd else Some (True, rd)) = Some (True, rd1)"
    "sok (rd_file rd1)" "bytes_left rd1 \<le> bytes_left rd"
    using SkipToInitialBlock_returns [OF assms] assms
    by (cases "rd_last_record_offset rd < rd_initial_offset rd") auto
  then show ?thesis
    using ReadRecord_loop_returns [of rd1 "[]" "[]" False 0] by (auto simp: ReadRecord_def intro: order.strict_trans2)
qed

lemma read_all_returns: "sok (rd_file rd) \<Longrightarrow> \<exists>rs rd'. read_all S rd = Some (rs, rd')"
proof (induction "bytes_left rd" arbitrary: rd rule: less_induct)
  case less
  obtain found rcd sc rd1 where rd1: "ReadRecord S rd [] [] = Some (found, rcd, sc, rd1)" "sok (rd_file rd1)"
    "found \<longrightarrow> bytes_left rd1 < bytes_left rd"
    using ReadRecord_returns [OF less.prems] by blast
  show ?case
  proof (cases found)
    case True
    then obtain rs rd' where "read_all S rd1 = Some (rs, rd')" using less.hyps [of rd1] rd1 by blast
    then show ?thesis using rd1 True by (subst read_all.simps) simp
  qed (use rd1 in \<open>subst read_all.simps, simp\<close>)
qed

end

subsection \<open>Properties\<close>

text \<open>
  C4: The log survives a crash at any byte. Let records be added through a writer to an empty file, and
  let a reader (with or without checksums) see only the first \<open>n\<close> bytes of that file. Writing succeeds;
  reading then terminates, returns an initial part of the records, unchanged and in order, which
  includes every record whose last byte is among the \<open>n\<close>, and reports no corruption. In particular the
  whole file reads back as the records that were written.
\<close>

theorem log_crash_prefix:
  assumes "writable_file W contents wok" "wok dest" "contents dest = []" "length (log_all 0 rs) < 2 ^ 64"
    and "sequential_file S rest sok" "sok file" "rest file = take n (log_all 0 rs)"
  shows "\<exists>w. add_all W (Writer_new dest) rs = Some (OK, w) \<and> contents (wr_dest w) = log_all 0 rs \<and>
    (\<exists>k rd. read_all S (Reader_new file (Some []) checksum 0) = Some (take k rs, rd) \<and> rd_reporter rd = Some [] \<and>
      (\<forall>j\<le>length rs. length (log_all 0 (take j rs)) \<le> n \<longrightarrow> j \<le> k))"
proof -
  have start: "log_all 0 rs' = log_all 32768 rs'" for rs'
  proof (cases rs')
    case (Cons r rs)
    have "log_enc 0 r True = log_enc 32768 r True" by (simp add: log_enc.simps [of 0 r] log_enc.simps [of 32768 r])
    then show ?thesis using Cons by simp
  qed simp
  have "\<exists>w. add_all W (Writer_new dest) rs = Some (OK, w) \<and> contents (wr_dest w) = log_all 0 rs"
    using writable_file.add_all_bytes [OF assms(1), of "Writer_new dest" 0 rs] assms(2-4) by (auto simp: Writer_new_def)
  moreover have "\<exists>k rd. read_all S (Reader_new file (Some []) checksum 0) = Some (take k rs, rd) \<and> rd_reporter rd = Some [] \<and>
      (\<forall>j\<le>length rs. length (log_all 0 (take j rs)) \<le> n \<longrightarrow> j \<le> k)"
    using sequential_file.read_all_prefix [OF assms(5) sequential_file.rview_start [OF assms(5,6,7) [unfolded start]]]
    unfolding start by (simp add: Reader_new_def)
  ultimately show ?thesis by blast
qed

text \<open>
  C30: Reading a log always ends. Whatever bytes the file holds, with or without checksums and from any
  initial offset, every call of \<open>ReadRecord\<close> returns, and so does the loop that reads all records.
\<close>

theorem log_reading_terminates:
  assumes "sequential_file S rest sok" "sok file"
  shows "\<exists>rs rd. read_all S (Reader_new file reporter checksum initial_offset) = Some (rs, rd)"
  using sequential_file.read_all_returns [OF assms(1), of "Reader_new file reporter checksum initial_offset"] assms(2)
  by (simp add: Reader_new_def)

text \<open>
  A failure to skip to the initial offset is never reported. If the file cannot be positioned, the
  reader returns no record and the reporter is not told: the drop is charged to the bytes before the
  initial offset, which \<open>ReportDrop\<close> filters out.
\<close>

theorem log_skip_failure_unreported:
  assumes "block_start_location initial_offset > 0" "\<not> Status_ok err"
    "sf_Skip S file (block_start_location initial_offset) = Some (err, file')"
  shows "\<exists>rd. ReadRecord S (Reader_new file (Some []) checksum initial_offset) r s = Some (False, r, s, rd) \<and>
    rd_reporter rd = Some []"
proof -
  have "initial_offset \<noteq> 0" using assms(1) by (auto simp: block_start_location_def log_kBlockSize_def)
  then have "0 < initial_offset" by (simp add: word_neq_0_conv)
  then show ?thesis
    using assms by (simp add: ReadRecord_def Reader_new_def SkipToInitialBlock_def Let_def ReportDrop_def not_le)
qed

definition empty_file_env :: MemEnv where
  "empty_file_env = \<lparr>me_heap = [0 \<mapsto> \<lparr>fs_refs = 1, fs_blocks = [], fs_size = 0\<rparr>], me_brk = 1, me_map = [(str ''log'', Some 0)]\<rparr>"

lemma empty_file_env: "good_ptr empty_file_env (Some 0)" "bytes_at empty_file_env (Some 0) = Some []"
  by (simp_all add: empty_file_env_def good_ptr_def bytes_at_def mem_deref_def file_inv_def file_bytes_def)

lemma mem_file_with:
  assumes "length d < 2 ^ 64"
  obtains fl where "seq_ok fl" "seq_rest fl = d"
proof -
  obtain f where "good_ptr (fst f) (snd f)" "the (bytes_at (fst f) (snd f)) = d"
    using mem_writable.append [of "(empty_file_env, Some 0)" d "\<lambda>i j. 0"] assms empty_file_env by fastforce
  then have "seq_ok (fst f, \<lparr>sq_file = snd f, sq_pos = 0\<rparr>)" "seq_rest (fst f, \<lparr>sq_file = snd f, sq_pos = 0\<rparr>) = d"
    by (simp_all add: seq_ok_def seq_rest_def)
  then show thesis by (rule that)
qed

theorem log_crash_prefix_witness:
  "\<exists>w fl rd. add_all (WritableFileImpl_class (\<lambda>i j. 0)) (Writer_new (empty_file_env, Some 0)) [[1], [2, 3]] = Some (OK, w) \<and>
    seq_rest fl = log_all 0 [[1], [2, 3]] \<and>
    read_all SequentialFileImpl_class (Reader_new fl (Some []) True 0) = Some ([[1], [2, 3]], rd) \<and> rd_reporter rd = Some []"
proof -
  have len: "length (log_all 0 [[1], [2, 3]]) < 2 ^ 64" by (simp add: log_enc.simps)
  then obtain fl where fl: "seq_ok fl" "seq_rest fl = log_all 0 [[1], [2, 3]]" by (rule mem_file_with)
  let ?rs = "[[1], [2, 3]] :: bytes list" and ?n = "length (log_all 0 [[1], [2, 3]])"
  have "\<exists>w. add_all (WritableFileImpl_class (\<lambda>i j. 0)) (Writer_new (empty_file_env, Some 0)) ?rs = Some (OK, w) \<and>
      (case wr_dest w of (e, p) \<Rightarrow> the (bytes_at e p)) = log_all 0 ?rs \<and>
      (\<exists>k rd. read_all SequentialFileImpl_class (Reader_new fl (Some []) True 0) = Some (take k ?rs, rd) \<and>
        rd_reporter rd = Some [] \<and> (\<forall>j\<le>length ?rs. length (log_all 0 (take j ?rs)) \<le> ?n \<longrightarrow> j \<le> k))"
    by (rule log_crash_prefix [OF mem_writable.writable_file_axioms _ _ len mem_sequential.sequential_file_axioms fl(1)])
       (simp_all add: empty_file_env fl(2))
  then obtain w k rd where w: "add_all (WritableFileImpl_class (\<lambda>i j. 0)) (Writer_new (empty_file_env, Some 0)) ?rs = Some (OK, w)"
    and rd: "read_all SequentialFileImpl_class (Reader_new fl (Some []) True 0) = Some (take k ?rs, rd)" "rd_reporter rd = Some []"
    and k: "\<forall>j\<le>length ?rs. length (log_all 0 (take j ?rs)) \<le> ?n \<longrightarrow> j \<le> k"
    by blast
  have "2 \<le> k" using k [rule_format, of 2] by simp
  then show ?thesis using w rd fl(2) by (intro exI [of _ w] exI [of _ fl] exI [of _ rd]) simp
qed

theorem log_reading_terminates_witness:
  "\<exists>fl rs rd. seq_rest fl = [1, 2, 3, 4, 5, 6, 7, 8] \<and>
     read_all SequentialFileImpl_class (Reader_new fl None True 3) = Some (rs, rd)"
proof -
  obtain fl where "seq_ok fl" "seq_rest fl = [1, 2, 3, 4, 5, 6, 7, 8]" by (rule mem_file_with [of "[1, 2, 3, 4, 5, 6, 7, 8]"]) simp
  then show ?thesis using log_reading_terminates [OF mem_sequential.sequential_file_axioms, of fl None True 3] by blast
qed

theorem log_skip_failure_unreported_witness:
  "\<exists>rd. ReadRecord SequentialFileImpl_class
      (Reader_new (empty_file_env, \<lparr>sq_file = Some 0, sq_pos = 1\<rparr>) (Some []) True 40000) [] [] = Some (False, [], [], rd) \<and>
    rd_reporter rd = Some []"
proof (rule log_skip_failure_unreported)
  show "block_start_location 40000 > 0" by (simp add: block_start_location_def log_kBlockSize_def)
  show "sf_Skip SequentialFileImpl_class (empty_file_env, \<lparr>sq_file = Some 0, sq_pos = 1\<rparr>) (block_start_location 40000) =
      Some (IOError (str ''pos_ > file_->Size()'') [], empty_file_env, \<lparr>sq_file = Some 0, sq_pos = 1\<rparr>)"
    by (simp add: SequentialFileImpl_class_def SequentialFileImpl_Skip_def empty_file_env_def mem_deref_def FileState_Size_def)
qed simp

end
