(* ===== verification/Block.thy ===== *)
theory Block
  imports Iterators
begin

text \<open>
  Blocks of sorted tables (\<open>table/block_builder.cc\<close>, \<open>table/block.cc\<close>): key-value pairs with
  prefix-compressed keys and an array of restart points at which keys are stored in full. Offsets are
  natural numbers, reduced modulo \<open>2 ^ 32\<close> where the source stores them in a \<open>uint32_t\<close>. An operation that
  would read outside the block has no defined result and returns \<open>None\<close>.
\<close>

subsection \<open>Building a block\<close>

record BlockBuilder =
  bb_block_restart_interval :: int
  bb_buffer :: bytes
  bb_restarts :: "u32 list"
  bb_counter :: int
  bb_finished :: bool
  bb_last_key :: bytes

definition BlockBuilder_new :: "int \<Rightarrow> BlockBuilder" where
  "BlockBuilder_new block_restart_interval =
     \<lparr>bb_block_restart_interval = block_restart_interval, bb_buffer = [], bb_restarts = [0], bb_counter = 0,
      bb_finished = False, bb_last_key = []\<rparr>"

definition BlockBuilder_Reset :: "BlockBuilder \<Rightarrow> BlockBuilder" where
  "BlockBuilder_Reset b =
     b\<lparr>bb_buffer := [], bb_restarts := [0], bb_counter := 0, bb_finished := False, bb_last_key := []\<rparr>"

definition CurrentSizeEstimate :: "BlockBuilder \<Rightarrow> nat" where
  "CurrentSizeEstimate b = length (bb_buffer b) + length (bb_restarts b) * 4 + 4"

definition BlockBuilder_empty :: "BlockBuilder \<Rightarrow> bool" where
  "BlockBuilder_empty b \<longleftrightarrow> bb_buffer b = []"

definition BlockBuilder_Finish :: "BlockBuilder \<Rightarrow> slice \<times> BlockBuilder" where
  "BlockBuilder_Finish b =
     (let buffer = foldl PutFixed32 (bb_buffer b) (bb_restarts b);
          buffer = PutFixed32 buffer (of_nat (length (bb_restarts b)))
      in (buffer, b\<lparr>bb_buffer := buffer, bb_finished := True\<rparr>))"

text \<open>The loop that counts the bytes two keys share.\<close>

fun shared_loop :: "bytes \<Rightarrow> bytes \<Rightarrow> nat" where
  "shared_loop (a # as) (b # bs) = (if a = b then 1 + shared_loop as bs else 0)"
| "shared_loop _ _ = 0"

definition BlockBuilder_Add :: "BlockBuilder \<Rightarrow> slice \<Rightarrow> slice \<Rightarrow> BlockBuilder" where
  "BlockBuilder_Add b key value =
     (let share = bb_counter b < bb_block_restart_interval b;
          shared = (if share then shared_loop (bb_last_key b) key else 0);
          b = (if share then b
               else b\<lparr>bb_restarts := bb_restarts b @ [of_nat (length (bb_buffer b))], bb_counter := 0\<rparr>);
          non_shared = length key - shared;
          buffer = PutVarint32 (bb_buffer b) (of_nat shared);
          buffer = PutVarint32 buffer (of_nat non_shared);
          buffer = PutVarint32 buffer (of_nat (length value));
          buffer = buffer @ take non_shared (drop shared key);
          buffer = buffer @ value
      in b\<lparr>bb_buffer := buffer,
           bb_last_key := take shared (bb_last_key b) @ take non_shared (drop shared key),
           bb_counter := bb_counter b + 1\<rparr>)"

subsection \<open>Opening a block\<close>

record Block =
  bk_data :: bytes
  bk_size :: nat
  bk_restart_offset :: nat

definition NumRestarts :: "bytes \<Rightarrow> nat \<Rightarrow> u32" where
  "NumRestarts data sz = DecodeFixed32 (drop (sz - 4) data)"

text \<open>The offset of the restart array is left unset for a block that is marked as bad.\<close>

definition Block_new :: "slice \<Rightarrow> Block" where
  "Block_new contents =
     (let sz = length contents
      in if sz < 4 then \<lparr>bk_data = contents, bk_size = 0, bk_restart_offset = 0\<rparr>
         else
           let max_restarts_allowed = (sz - 4) div 4
           in if unat (NumRestarts contents sz) > max_restarts_allowed
              then \<lparr>bk_data = contents, bk_size = 0, bk_restart_offset = 0\<rparr>
              else \<lparr>bk_data = contents, bk_size = sz,
                    bk_restart_offset = (sz - unat (1 + NumRestarts contents sz) * 4) mod 2 ^ 32\<rparr>)"

text \<open>
  \<open>DecodeEntry\<close> on the bytes from \<open>p\<close> to \<open>limit\<close>: the three lengths and the bytes after them. The sum in
  the last test is taken in 32 bits, as in the source.
\<close>

definition DecodeEntry :: "bytes \<Rightarrow> (u32 \<times> u32 \<times> u32 \<times> bytes) option" where
  "DecodeEntry p =
     (if length p < 3 then None
      else do {
        (shared, non_shared, value_length, p) \<leftarrow>
          (if ((ucast (p ! 0) OR ucast (p ! 1) OR ucast (p ! 2)) :: u32) < 128
           then Some (ucast (p ! 0), ucast (p ! 1), ucast (p ! 2), drop 3 p)
           else do {
             (shared, p) \<leftarrow> GetVarint32Ptr p;
             (non_shared, p) \<leftarrow> GetVarint32Ptr p;
             (value_length, p) \<leftarrow> GetVarint32Ptr p;
             Some (shared, non_shared, value_length, p)
           });
        if (of_nat (length p) :: u32) < non_shared + value_length then None
        else Some (shared, non_shared, value_length, p)
      })"

subsection \<open>Iterating over a block\<close>

text \<open>
  The value is the offset and length of its bytes in the block, \<open>None\<close> for the empty slice of a fresh
  iterator and of one that found corruption.
\<close>

record BlockIter =
  bi_data :: bytes
  bi_restarts :: nat
  bi_num_restarts :: nat
  bi_current :: nat
  bi_restart_index :: nat
  bi_key :: bytes
  bi_value :: "(nat \<times> nat) option"
  bi_status :: Status

definition BlockIter_new :: "bytes \<Rightarrow> nat \<Rightarrow> nat \<Rightarrow> BlockIter" where
  "BlockIter_new data restarts num_restarts =
     \<lparr>bi_data = data, bi_restarts = restarts, bi_num_restarts = num_restarts, bi_current = restarts,
      bi_restart_index = num_restarts, bi_key = [], bi_value = None, bi_status = OK\<rparr>"

text \<open>\<open>None\<close>: the value is not in the block, and the source would subtract unrelated pointers.\<close>

definition NextEntryOffset :: "BlockIter \<Rightarrow> nat option" where
  "NextEntryOffset it = map_option (\<lambda>(off, len). (off + len) mod 2 ^ 32) (bi_value it)"

definition GetRestartPoint :: "BlockIter \<Rightarrow> nat \<Rightarrow> nat" where
  "GetRestartPoint it index = unat (DecodeFixed32 (drop (bi_restarts it + index * 4) (bi_data it)))"

definition SeekToRestartPoint :: "BlockIter \<Rightarrow> nat \<Rightarrow> BlockIter" where
  "SeekToRestartPoint it index =
     it\<lparr>bi_key := [], bi_restart_index := index, bi_value := Some (GetRestartPoint it index, 0)\<rparr>"

definition BlockIter_Valid :: "BlockIter \<Rightarrow> bool" where
  "BlockIter_Valid it \<longleftrightarrow> bi_current it < bi_restarts it"

definition BlockIter_value :: "BlockIter \<Rightarrow> slice" where
  "BlockIter_value it = (case bi_value it of None \<Rightarrow> [] | Some (off, len) \<Rightarrow> take len (drop off (bi_data it)))"

definition CorruptionError :: "BlockIter \<Rightarrow> BlockIter" where
  "CorruptionError it =
     it\<lparr>bi_current := bi_restarts it, bi_restart_index := bi_num_restarts it,
        bi_status := Corruption (str ''bad entry in block'') [], bi_key := [], bi_value := None\<rparr>"

function advance_restart :: "BlockIter \<Rightarrow> BlockIter" where
  "advance_restart it =
     (if bi_restart_index it + 1 < bi_num_restarts it \<and> GetRestartPoint it (bi_restart_index it + 1) < bi_current it
      then advance_restart (it\<lparr>bi_restart_index := bi_restart_index it + 1\<rparr>)
      else it)"
  by pat_completeness auto
termination by (relation "measure (\<lambda>it. bi_num_restarts it - bi_restart_index it)") auto

declare advance_restart.simps [simp del]

text \<open>The bytes of the entries from an offset on.\<close>

definition entries_from :: "BlockIter \<Rightarrow> nat \<Rightarrow> bytes" where
  "entries_from it off = drop off (take (bi_restarts it) (bi_data it))"

text \<open>
  The key is copied from the \<open>non_shared\<close> bytes after the header. \<open>None\<close>: the bytes of the key or of the
  value slice are not all in the block, so that a use of the entry reads outside of it.
\<close>

definition ParseNextKey :: "BlockIter \<Rightarrow> (bool \<times> BlockIter) option" where
  "ParseNextKey it = do {
     current \<leftarrow> NextEntryOffset it;
     let it = it\<lparr>bi_current := current\<rparr>;
     if current \<ge> bi_restarts it
     then Some (False, it\<lparr>bi_current := bi_restarts it, bi_restart_index := bi_num_restarts it\<rparr>)
     else
       case DecodeEntry (entries_from it current) of
         None \<Rightarrow> Some (False, CorruptionError it)
       | Some (shared, non_shared, value_length, p) \<Rightarrow>
           if length (bi_key it) < unat shared then Some (False, CorruptionError it)
           else if length p < unat non_shared + unat value_length then None
           else
             let it = it\<lparr>bi_key := take (unat shared) (bi_key it) @ take (unat non_shared) p,
                          bi_value := Some (bi_restarts it - length p + unat non_shared, unat value_length)\<rparr>
             in Some (True, advance_restart it)
   }"

definition BlockIter_Next :: "BlockIter \<Rightarrow> BlockIter option" where
  "BlockIter_Next it = do { (_, it) \<leftarrow> ParseNextKey it; Some it }"

text \<open>The first loop of \<open>Prev\<close>: the last restart point before \<open>original\<close>, \<open>None\<close> if there is none.\<close>

fun prev_restart :: "BlockIter \<Rightarrow> nat \<Rightarrow> nat \<Rightarrow> nat option" where
  "prev_restart it original restart_index =
     (if GetRestartPoint it restart_index \<ge> original
      then (case restart_index of 0 \<Rightarrow> None | Suc i \<Rightarrow> prev_restart it original i)
      else Some restart_index)"

declare prev_restart.simps [simp del]

text \<open>\<open>do \<dots> while (ParseNextKey() && NextEntryOffset() < limit)\<close>.\<close>

partial_function (option) skip_until :: "BlockIter \<Rightarrow> nat \<Rightarrow> BlockIter option" where
  "skip_until it limit = do {
     (more, it) \<leftarrow> ParseNextKey it;
     if more then do {
       n \<leftarrow> NextEntryOffset it;
       if n < limit then skip_until it limit else Some it
     } else Some it
   }"

definition BlockIter_Prev :: "BlockIter \<Rightarrow> BlockIter option" where
  "BlockIter_Prev it =
     (let original = bi_current it
      in case prev_restart it original (bi_restart_index it) of
           None \<Rightarrow> Some (it\<lparr>bi_current := bi_restarts it, bi_restart_index := bi_num_restarts it\<rparr>)
         | Some restart_index \<Rightarrow> skip_until (SeekToRestartPoint it restart_index) original)"

text \<open>The binary search over the restart points; \<open>Inl\<close>: a bad entry was found.\<close>

partial_function (option) restart_search ::
  "(slice \<Rightarrow> slice \<Rightarrow> int) \<Rightarrow> BlockIter \<Rightarrow> slice \<Rightarrow> nat \<Rightarrow> nat \<Rightarrow> (unit + nat) option" where
  "restart_search cmp it target left right =
     (if left < right then
        let mid = ((left + right + 1) mod 2 ^ 32) div 2;
            region_offset = GetRestartPoint it mid
        in case DecodeEntry (entries_from it region_offset) of
             None \<Rightarrow> Some (Inl ())
           | Some (shared, non_shared, value_length, key_ptr) \<Rightarrow>
               if shared \<noteq> 0 then Some (Inl ())
               else if length key_ptr < unat non_shared then None
               else if cmp (take (unat non_shared) key_ptr) target < 0
               then restart_search cmp it target mid right
               else restart_search cmp it target left (mid - 1)
      else Some (Inr left))"

partial_function (option) linear_search ::
  "(slice \<Rightarrow> slice \<Rightarrow> int) \<Rightarrow> BlockIter \<Rightarrow> slice \<Rightarrow> BlockIter option" where
  "linear_search cmp it target = do {
     (more, it) \<leftarrow> ParseNextKey it;
     if \<not> more then Some it
     else if cmp (bi_key it) target \<ge> 0 then Some it
     else linear_search cmp it target
   }"

definition BlockIter_Seek :: "(slice \<Rightarrow> slice \<Rightarrow> int) \<Rightarrow> BlockIter \<Rightarrow> slice \<Rightarrow> BlockIter option" where
  "BlockIter_Seek cmp it target =
     (let current_key_compare = (if BlockIter_Valid it then cmp (bi_key it) target else 0);
          left = (if BlockIter_Valid it \<and> current_key_compare < 0 then bi_restart_index it else 0);
          right = (if BlockIter_Valid it \<and> current_key_compare > 0 then bi_restart_index it else bi_num_restarts it - 1)
      in if BlockIter_Valid it \<and> current_key_compare = 0 then Some it
         else do {
           found \<leftarrow> restart_search cmp it target left right;
           case found of
             Inl _ \<Rightarrow> Some (CorruptionError it)
           | Inr left \<Rightarrow>
               let skip_seek = (left = bi_restart_index it \<and> current_key_compare < 0)
               in linear_search cmp (if skip_seek then it else SeekToRestartPoint it left) target
         })"

definition BlockIter_SeekToFirst :: "BlockIter \<Rightarrow> BlockIter option" where
  "BlockIter_SeekToFirst it = do { (_, it) \<leftarrow> ParseNextKey (SeekToRestartPoint it 0); Some it }"

definition BlockIter_SeekToLast :: "BlockIter \<Rightarrow> BlockIter option" where
  "BlockIter_SeekToLast it = skip_until (SeekToRestartPoint it (bi_num_restarts it - 1)) (bi_restarts it)"

definition BlockIter_class :: "(slice \<Rightarrow> slice \<Rightarrow> int) \<Rightarrow> BlockIter Iterator" where
  "BlockIter_class cmp =
     \<lparr>it_Valid = BlockIter_Valid, it_SeekToFirst = BlockIter_SeekToFirst, it_SeekToLast = BlockIter_SeekToLast,
      it_Seek = BlockIter_Seek cmp, it_Next = BlockIter_Next, it_Prev = BlockIter_Prev,
      it_key = bi_key, it_value = BlockIter_value, it_status = bi_status\<rparr>"

text \<open>
  \<open>Block::NewIterator\<close> returns an empty iterator with a status or a block iterator; the virtual calls
  then go to the one or the other.
\<close>

definition Block_NewIterator :: "Block \<Rightarrow> Status + BlockIter" where
  "Block_NewIterator b =
     (if bk_size b < 4 then Inl (NewErrorIterator (Corruption (str ''bad block contents'') []))
      else
        let num_restarts = NumRestarts (bk_data b) (bk_size b)
        in if num_restarts = 0 then Inl NewEmptyIterator
           else Inr (BlockIter_new (bk_data b) (bk_restart_offset b) (unat num_restarts)))"

definition lift_move :: "('a \<Rightarrow> 'a option) \<Rightarrow> ('b \<Rightarrow> 'b option) \<Rightarrow> 'a + 'b \<Rightarrow> ('a + 'b) option" where
  "lift_move f g s = (case s of Inl a \<Rightarrow> map_option Inl (f a) | Inr b \<Rightarrow> map_option Inr (g b))"

definition either_Iterator :: "'a Iterator \<Rightarrow> 'b Iterator \<Rightarrow> ('a + 'b) Iterator" where
  "either_Iterator A B =
     \<lparr>it_Valid = case_sum (it_Valid A) (it_Valid B),
      it_SeekToFirst = lift_move (it_SeekToFirst A) (it_SeekToFirst B),
      it_SeekToLast = lift_move (it_SeekToLast A) (it_SeekToLast B),
      it_Seek = (\<lambda>s t. lift_move (\<lambda>a. it_Seek A a t) (\<lambda>b. it_Seek B b t) s),
      it_Next = lift_move (it_Next A) (it_Next B),
      it_Prev = lift_move (it_Prev A) (it_Prev B),
      it_key = case_sum (it_key A) (it_key B),
      it_value = case_sum (it_value A) (it_value B),
      it_status = case_sum (it_status A) (it_status B)\<rparr>"

definition BlockIterator :: "(slice \<Rightarrow> slice \<Rightarrow> int) \<Rightarrow> (Status + BlockIter) Iterator" where
  "BlockIterator cmp = either_Iterator EmptyIterator (BlockIter_class cmp)"

subsection \<open>Entries\<close>

text \<open>The fast path of \<open>DecodeEntry\<close> gives what the three varint decoders give.\<close>

lemma DecodeEntry_slow:
  "DecodeEntry p = (if length p < 3 then None else do {
     (shared, p) \<leftarrow> GetVarint32Ptr p;
     (non_shared, p) \<leftarrow> GetVarint32Ptr p;
     (value_length, p) \<leftarrow> GetVarint32Ptr p;
     if (of_nat (length p) :: u32) < non_shared + value_length then None
     else Some (shared, non_shared, value_length, p)
   })"
proof (cases "length p < 3")
  case False
  then obtain a b c q where p: "p = a # b # c # q"
    by (metis Suc_less_eq length_Cons list.exhaust list.size(3) numeral_3_eq_3 zero_less_Suc)
  have low: "\<not> bit w 7" if "w < 128" for w :: u32
  proof -
    have "take_bit 7 w = w"
      using that by (simp add: word_less_nat_alt word_unat_eq_iff unsigned_take_bit_eq take_bit_nat_eq_self)
    then show ?thesis by (metis bit_take_bit_iff less_irrefl)
  qed
  have small: "w AND 128 = 0" if "\<not> bit w 7" for w :: u32
    using that by (intro bit_word_eqI) (auto simp: bit_simps bit_128)
  have fast: "ucast a AND 128 = (0 :: u32) \<and> ucast b AND 128 = (0 :: u32) \<and> ucast c AND 128 = (0 :: u32)"
    if "(ucast a OR ucast b OR ucast c :: u32) < 128"
    using low [OF that] by (intro conjI small) (auto simp: bit_or_iff)
  show ?thesis
  proof (cases "(ucast a OR ucast b OR ucast c :: u32) < 128")
    case True
    then show ?thesis using fast [OF True] by (simp add: DecodeEntry_def p GetVarint32Ptr_def)
  next
    case slow: False
    have "(p ! 0, p ! 1, p ! 2) = (a, b, c)" by (simp add: p)
    then show ?thesis using slow False by (simp add: DecodeEntry_def split: Option.bind_splits prod.splits)
  qed
qed (simp add: DecodeEntry_def)

definition entry_bytes :: "nat \<times> slice \<times> slice \<Rightarrow> bytes" where
  "entry_bytes = (\<lambda>(shared, key, val).
     EncodeVarint32 (of_nat shared) @ EncodeVarint32 (of_nat (length key - shared)) @
     EncodeVarint32 (of_nat (length val)) @ drop shared key @ val)"

lemma entry_bytes_length: "3 \<le> length (entry_bytes e)" "length key - sh + length val + 3 \<le> length (entry_bytes (sh, key, val))"
proof -
  have "1 \<le> length (EncodeVarint32 v)" for v by (simp add: Suc_le_eq)
  then have v: "Suc 0 \<le> length (EncodeVarint32 v)" for v by simp
  show "length key - sh + length val + 3 \<le> length (entry_bytes (sh, key, val))" for sh key val
    using v [of "of_nat sh"] v [of "of_nat (length key - sh)"] v [of "of_nat (length val)"]
    by (simp add: entry_bytes_def)
  from this [of "fst (snd e)" "fst e" "snd (snd e)"] show "3 \<le> length (entry_bytes e)" by (cases e) simp
qed

lemma DecodeEntry_entry_bytes:
  assumes "length (entry_bytes (sh, key, val) @ p) < 2 ^ 32" "sh \<le> length key"
  shows "DecodeEntry (entry_bytes (sh, key, val) @ p) =
    Some (of_nat sh, of_nat (length key - sh), of_nat (length val), drop sh key @ val @ p)"
proof -
  have l: "length key - sh + length val + 3 + length p < 2 ^ 32" using assms(1) entry_bytes_length(2) [of key sh val] by simp
  have "of_nat (length key - sh) + of_nat (length val) = (of_nat (length key - sh + length val) :: u32)" by simp
  then have "\<not> (of_nat (length (drop sh key @ val @ p)) :: u32) < of_nat (length key - sh) + of_nat (length val)"
    using l by (simp only: word_less_nat_alt unat_of_nat) simp
  then show ?thesis
    using entry_bytes_length(1) [of "(sh, key, val)"]
    unfolding DecodeEntry_slow by (simp add: entry_bytes_def)
qed

subsection \<open>The layout of a block\<close>

definition eoff :: "(nat \<times> slice \<times> slice) list \<Rightarrow> nat \<Rightarrow> nat" where
  "eoff es i = length (concat (map entry_bytes (take i es)))"

definition key_at :: "(nat \<times> slice \<times> slice) list \<Rightarrow> nat \<Rightarrow> slice" where
  "key_at es i = fst (snd (es ! i))"

definition val_at :: "(nat \<times> slice \<times> slice) list \<Rightarrow> nat \<Rightarrow> slice" where
  "val_at es i = snd (snd (es ! i))"

definition entries_ok :: "(nat \<times> slice \<times> slice) list \<Rightarrow> bool" where
  "entries_ok es \<longleftrightarrow> (\<forall>i<length es. fst (es ! i) \<le> length (key_at es i) \<and>
     (fst (es ! i) = 0 \<or> 0 < i \<and> fst (es ! i) \<le> length (key_at es (i - 1)) \<and>
       take (fst (es ! i)) (key_at es (i - 1)) = take (fst (es ! i)) (key_at es i)))"

definition restarts_ok :: "(nat \<times> slice \<times> slice) list \<Rightarrow> nat list \<Rightarrow> bool" where
  "restarts_ok es ris \<longleftrightarrow> ris \<noteq> [] \<and> hd ris = 0 \<and> sorted_wrt (<) ris \<and>
     (\<forall>r\<in>set ris. r < length es \<or> r = 0) \<and> (\<forall>r\<in>set ris. r < length es \<longrightarrow> fst (es ! r) = 0)"

definition block_bytes :: "(nat \<times> slice \<times> slice) list \<Rightarrow> nat list \<Rightarrow> bytes" where
  "block_bytes es ris = concat (map entry_bytes es) @ concat (map (\<lambda>r. EncodeFixed32 (of_nat (eoff es r))) ris) @
     EncodeFixed32 (of_nat (length ris))"

lemma eoff_0 [simp]: "eoff es 0 = 0"
  by (simp add: eoff_def)

lemma eoff_Suc: "i < length es \<Longrightarrow> eoff es (Suc i) = eoff es i + length (entry_bytes (es ! i))"
  by (simp add: eoff_def take_Suc_conv_app_nth)

lemma eoff_mono: "i \<le> j \<Longrightarrow> eoff es i \<le> eoff es j"
proof -
  assume "i \<le> j"
  then have "take j es = take i es @ take (j - i) (drop i es)" by (metis le_add_diff_inverse take_add)
  then show ?thesis by (simp add: eoff_def)
qed

lemma eoff_less: "i < j \<Longrightarrow> i < length es \<Longrightarrow> eoff es i < eoff es j"
  using eoff_mono [of "Suc i" j es] eoff_Suc [of i es] entry_bytes_length(1) [of "es ! i"] by simp

lemma eoff_less_iff: "i \<le> length es \<Longrightarrow> j \<le> length es \<Longrightarrow> eoff es i < eoff es j \<longleftrightarrow> i < j"
  using eoff_less [of i j es] eoff_mono [of j i es] by (auto simp: not_less [symmetric])

lemma eoff_le_iff: "i \<le> length es \<Longrightarrow> j \<le> length es \<Longrightarrow> eoff es i \<le> eoff es j \<longleftrightarrow> i \<le> j"
  using eoff_less_iff [of j es i] by (simp add: not_less [symmetric])

lemma eoff_all: "eoff es (length es) = length (concat (map entry_bytes es))"
  by (simp add: eoff_def)

lemma drop_eoff: "drop (eoff es i) (concat (map entry_bytes es)) = concat (map entry_bytes (drop i es))"
proof -
  have "concat (map entry_bytes es) = concat (map entry_bytes (take i es)) @ concat (map entry_bytes (drop i es))"
    by (metis append_take_drop_id concat_append map_append)
  then show ?thesis by (simp add: eoff_def)
qed

subsection \<open>The iterator at an entry\<close>

definition iter_of :: "(nat \<times> slice \<times> slice) list \<Rightarrow> nat list \<Rightarrow> BlockIter \<Rightarrow> bool" where
  "iter_of es ris it \<longleftrightarrow> bi_data it = block_bytes es ris \<and> bi_restarts it = eoff es (length es) \<and>
     bi_num_restarts it = length ris \<and> bi_status it = OK"

definition blk :: "(nat \<times> slice \<times> slice) list \<Rightarrow> nat list \<Rightarrow> bool" where
  "blk es ris \<longleftrightarrow> entries_ok es \<and> restarts_ok es ris \<and> length (block_bytes es ris) < 2 ^ 32"

text \<open>Ready to parse entry \<open>i\<close>, and standing at entry \<open>i\<close>.\<close>

definition before :: "(nat \<times> slice \<times> slice) list \<Rightarrow> nat list \<Rightarrow> BlockIter \<Rightarrow> nat \<Rightarrow> bool" where
  "before es ris it i \<longleftrightarrow> iter_of es ris it \<and> i \<le> length es \<and>
     (\<exists>off len. bi_value it = Some (off, len) \<and> off + len = eoff es i) \<and>
     (i < length es \<longrightarrow> fst (es ! i) \<le> length (bi_key it) \<and>
       take (fst (es ! i)) (bi_key it) = take (fst (es ! i)) (key_at es i)) \<and>
     bi_restart_index it < length ris \<and> ris ! bi_restart_index it \<le> i"

definition standing :: "(nat \<times> slice \<times> slice) list \<Rightarrow> nat list \<Rightarrow> BlockIter \<Rightarrow> nat \<Rightarrow> bool" where
  "standing es ris it i \<longleftrightarrow> iter_of es ris it \<and> i \<le> length es \<and> bi_current it = eoff es i \<and>
     (i < length es \<longrightarrow> bi_key it = key_at es i \<and>
       bi_value it = Some (eoff es (Suc i) - length (val_at es i), length (val_at es i)) \<and>
       bi_restart_index it < length ris \<and> ris ! bi_restart_index it \<le> i \<and>
       (bi_restart_index it + 1 < length ris \<longrightarrow> i \<le> ris ! (bi_restart_index it + 1)))"

lemma blk_bounds:
  assumes "blk es ris"
  shows "i \<le> length es \<Longrightarrow> eoff es i < 2 ^ 32" "length ris < 2 ^ 30" "0 < length ris" "ris ! 0 = 0"
    "j < length ris \<Longrightarrow> ris ! j \<le> length es" "j < length ris \<Longrightarrow> ris ! j < length es \<Longrightarrow> fst (es ! (ris ! j)) = 0"
    "0 < j \<Longrightarrow> j < length ris \<Longrightarrow> ris ! j < length es" "j < k \<Longrightarrow> k < length ris \<Longrightarrow> ris ! j < ris ! k"
proof -
  have r: "restarts_ok es ris" "length (block_bytes es ris) < 2 ^ 32" using assms by (auto simp: blk_def)
  have "length (concat (map (\<lambda>r. EncodeFixed32 (of_nat (eoff es r))) ris)) = 4 * length ris"
    by (induction ris) auto
  then show "length ris < 2 ^ 30" "i \<le> length es \<Longrightarrow> eoff es i < 2 ^ 32"
    using r(2) eoff_mono [of i "length es" es] by (auto simp: block_bytes_def eoff_all)
  show "0 < length ris" "ris ! 0 = 0" using r(1) by (auto simp: restarts_ok_def hd_conv_nth)
  show le: "j < k \<Longrightarrow> k < length ris \<Longrightarrow> ris ! j < ris ! k" for j k
    using r(1) sorted_wrt_nth_less [of "(<)" ris j k] by (simp add: restarts_ok_def)
  have m: "ris ! j < length es \<or> ris ! j = 0" "ris ! j < length es \<longrightarrow> fst (es ! (ris ! j)) = 0" if "j < length ris" for j
    using r(1) nth_mem [OF that] by (simp_all add: restarts_ok_def)
  show "j < length ris \<Longrightarrow> ris ! j \<le> length es" "j < length ris \<Longrightarrow> ris ! j < length es \<Longrightarrow> fst (es ! (ris ! j)) = 0"
    using m [of j] by auto
  show "0 < j \<Longrightarrow> j < length ris \<Longrightarrow> ris ! j < length es"
    using m(1) [of j] le [of 0 j] by auto
qed

lemma drop_EncodeFixed32 [simp]: "drop (4 + m) (EncodeFixed32 w @ y) = drop m y"
  using drop_drop [of m 4 "EncodeFixed32 w @ y"] by (simp add: add.commute)

lemma GetRestartPoint_eoff:
  assumes "blk es ris" "iter_of es ris it" "j < length ris"
  shows "GetRestartPoint it j = eoff es (ris ! j)"
proof -
  let ?f = "\<lambda>r. EncodeFixed32 (of_nat (eoff es r))"
  have "drop (j * 4) (concat (map ?f ris) @ x) = ?f (ris ! j) @ concat (map ?f (drop (Suc j) ris)) @ x" if "j < length ris" for j x and ris :: "nat list"
    using that
  proof (induction ris arbitrary: j)
    case (Cons r ris)
    then show ?case by (cases j) (auto simp: add.commute simp del: drop_append)
  qed simp
  from this [OF assms(3), of "EncodeFixed32 (of_nat (length ris))"]
  have "drop (bi_restarts it + j * 4) (bi_data it) = ?f (ris ! j) @ concat (map ?f (drop (Suc j) ris)) @ EncodeFixed32 (of_nat (length ris))"
    using assms(2) by (simp add: iter_of_def block_bytes_def eoff_all)
  moreover have "eoff es (ris ! j) < 2 ^ 32" using blk_bounds [OF assms(1)] assms(3) by blast
  ultimately show ?thesis by (simp add: GetRestartPoint_def unat_of_nat)
qed

lemma entries_from_eoff:
  assumes "iter_of es ris it" "i < length es"
  shows "entries_from it (eoff es i) = entry_bytes (es ! i) @ concat (map entry_bytes (drop (Suc i) es))"
proof -
  have "take (bi_restarts it) (bi_data it) = concat (map entry_bytes es)"
    using assms(1) by (simp add: iter_of_def block_bytes_def eoff_all)
  then show ?thesis using drop_eoff [of es i] drop_index [OF assms(2)] by (simp add: entries_from_def)
qed

lemma DecodeEntry_at:
  assumes "blk es ris" "iter_of es ris it" "i < length es"
  shows "DecodeEntry (entries_from it (eoff es i)) =
    Some (of_nat (fst (es ! i)), of_nat (length (key_at es i) - fst (es ! i)), of_nat (length (val_at es i)),
      drop (fst (es ! i)) (key_at es i) @ val_at es i @ concat (map entry_bytes (drop (Suc i) es)))"
proof -
  let ?p = "concat (map entry_bytes (drop (Suc i) es))"
  obtain sh k v where e: "es ! i = (sh, k, v)" by (rule prod_cases3)
  have "sh \<le> length k" using assms(1,3) e by (auto simp: blk_def entries_ok_def key_at_def)
  moreover have "length (entry_bytes (sh, k, v) @ ?p) < 2 ^ 32"
  proof -
    have "length (entry_bytes (es ! i) @ ?p) \<le> eoff es (length es)"
      using drop_eoff [of es i] drop_index [OF assms(3)] by (simp add: eoff_all) (metis length_append length_drop diff_le_self)
    then show ?thesis using blk_bounds(1) [OF assms(1), of "length es"] e by simp
  qed
  ultimately show ?thesis
    using DecodeEntry_entry_bytes [of sh k v ?p] entries_from_eoff [OF assms(2,3)] e by (simp add: key_at_def val_at_def)
qed

lemma advance_restart_index:
  assumes "blk es ris" "iter_of es ris it" "bi_current it = eoff es i" "i \<le> length es"
    "bi_restart_index it < length ris" "ris ! bi_restart_index it \<le> i"
  shows "\<exists>j. advance_restart it = it\<lparr>bi_restart_index := j\<rparr> \<and> j < length ris \<and> ris ! j \<le> i \<and>
    (j + 1 < length ris \<longrightarrow> i \<le> ris ! (j + 1))"
  using assms(2-6)
proof (induction it rule: advance_restart.induct)
  case (1 it)
  let ?j = "bi_restart_index it"
  have cond: "?j + 1 < length ris \<Longrightarrow> GetRestartPoint it (?j + 1) < bi_current it \<longleftrightarrow> ris ! (?j + 1) < i"
    using GetRestartPoint_eoff [OF assms(1) "1.prems"(1), of "?j + 1"] blk_bounds(5) [OF assms(1), of "?j + 1"] "1.prems"(2,3)
    by (simp add: eoff_less_iff)
  have n: "bi_num_restarts it = length ris" using "1.prems"(1) by (simp add: iter_of_def)
  show ?case
  proof (cases "?j + 1 < length ris \<and> ris ! (?j + 1) < i")
    case True
    have "\<exists>j. advance_restart (it\<lparr>bi_restart_index := ?j + 1\<rparr>) = it\<lparr>bi_restart_index := ?j + 1, bi_restart_index := j\<rparr> \<and>
        j < length ris \<and> ris ! j \<le> i \<and> (j + 1 < length ris \<longrightarrow> i \<le> ris ! (j + 1))"
      using True cond n "1.prems" by (intro "1.IH") (auto simp: iter_of_def)
    then show ?thesis using True cond n by (subst advance_restart.simps) simp
  next
    case False
    then have "advance_restart it = it" using cond n by (subst advance_restart.simps) auto
    then show ?thesis using False "1.prems" by (intro exI [of _ ?j]) auto
  qed
qed

lemma key_length:
  assumes "blk es ris" "i < length es"
  shows "length (key_at es i) \<le> eoff es (Suc i)"
  using assms(2)
proof (induction i)
  case 0
  then have "fst (es ! 0) = 0" using assms(1) by (auto simp: blk_def entries_ok_def)
  then show ?case
    using 0 eoff_Suc [OF 0] entry_bytes_length(2) [of "key_at es 0" 0 "val_at es 0"] by (cases "es ! 0") (simp add: key_at_def val_at_def)
next
  case (Suc i)
  let ?sh = "fst (es ! Suc i)"
  have "?sh \<le> length (key_at es i) \<or> ?sh = 0" "?sh \<le> length (key_at es (Suc i))"
    using assms(1) Suc.prems by (auto simp: blk_def entries_ok_def)
  moreover have "length (key_at es (Suc i)) - ?sh + eoff es (Suc i) \<le> eoff es (Suc (Suc i))"
    using eoff_Suc [OF Suc.prems] entry_bytes_length(2) [of "key_at es (Suc i)" ?sh "val_at es (Suc i)"]
    by (simp add: key_at_def val_at_def)
  ultimately show ?case using Suc by auto
qed

lemma parse_before:
  assumes "blk es ris" "before es ris it i"
  shows "\<exists>it'. ParseNextKey it = Some (i < length es, it') \<and> standing es ris it' i"
proof -
  obtain off len where v: "bi_value it = Some (off, len)" "off + len = eoff es i" using assms(2) by (auto simp: before_def)
  have b: "iter_of es ris it" "i \<le> length es" "bi_restart_index it < length ris" "ris ! bi_restart_index it \<le> i"
    using assms(2) by (auto simp: before_def)
  have nxt: "NextEntryOffset it = Some (eoff es i)"
    using v blk_bounds(1) [OF assms(1) b(2)] by (simp add: NextEntryOffset_def)
  show ?thesis
  proof (cases "i < length es")
    case False
    then have "bi_restarts it = eoff es i" using b by (simp add: iter_of_def)
    then show ?thesis
      using False b nxt by (simp add: ParseNextKey_def) (simp add: standing_def iter_of_def)
  next
    case True
    let ?sh = "fst (es ! i)" and ?k = "key_at es i" and ?v = "val_at es i"
    let ?p = "drop ?sh ?k @ ?v @ concat (map entry_bytes (drop (Suc i) es))"
    let ?it = "it\<lparr>bi_current := eoff es i\<rparr>"
    have it: "iter_of es ris ?it" using b(1) by (simp add: iter_of_def)
    have dec: "DecodeEntry (entries_from ?it (eoff es i)) = Some (of_nat ?sh, of_nat (length ?k - ?sh), of_nat (length ?v), ?p)"
      by (rule DecodeEntry_at [OF assms(1) it True])
    have sh: "?sh \<le> length ?k" using assms(1) True by (auto simp: blk_def entries_ok_def)
    have e: "es ! i = (?sh, ?k, ?v)" by (simp add: key_at_def val_at_def)
    have key: "?sh \<le> length (bi_key it)" "take ?sh (bi_key it) = take ?sh ?k" using assms(2) True by (auto simp: before_def)
    have off: "bi_restarts it = eoff es (Suc i) + length (concat (map entry_bytes (drop (Suc i) es)))"
      using b(1) drop_eoff [of es "Suc i"] eoff_mono [of "Suc i" "length es" es] True
      by (simp add: iter_of_def eoff_all) (metis length_drop le_add_diff_inverse)
    have small: "eoff es (Suc i) < 2 ^ 32" using blk_bounds(1) [OF assms(1)] True by simp
    have len: "length ?k - ?sh + length ?v + 3 + eoff es i \<le> eoff es (Suc i)"
      using eoff_Suc [OF True] entry_bytes_length(2) [of ?k ?sh ?v] e by simp
    have u: "unat (of_nat (length ?k - ?sh) :: u32) = length ?k - ?sh" "unat (of_nat (length ?v) :: u32) = length ?v"
      using len small by (simp_all add: unat_of_nat)
    have us: "unat (of_nat ?sh :: u32) = ?sh"
      using key_length [OF assms(1) True] sh small by (simp add: unat_of_nat)
    let ?it' = "?it\<lparr>bi_key := ?k, bi_value := Some (eoff es (Suc i) - length ?v, length ?v)\<rparr>"
    have "bi_restarts it - length ?p + (length ?k - ?sh) = eoff es (Suc i) - length ?v"
      using off len sh by simp
    moreover have "take ?sh (bi_key it) @ drop ?sh ?k = ?k" using key(2) by (metis append_take_drop_id)
    ultimately have parse: "ParseNextKey it = Some (True, advance_restart ?it')"
      using nxt b(1) True key(1) u us dec eoff_less [of i "length es" es]
      by (simp add: ParseNextKey_def iter_of_def Let_def not_le)
    obtain j where j: "advance_restart ?it' = ?it'\<lparr>bi_restart_index := j\<rparr>" "j < length ris" "ris ! j \<le> i"
      "j + 1 < length ris \<longrightarrow> i \<le> ris ! (j + 1)"
      using advance_restart_index [OF assms(1), of ?it' i] b by (auto simp: iter_of_def)
    show ?thesis using parse j True b(1) by (auto simp: standing_def iter_of_def)
  qed
qed

lemma standing_before:
  assumes "blk es ris" "standing es ris it i" "i < length es"
  shows "before es ris it (Suc i)"
proof -
  have s: "iter_of es ris it" "bi_key it = key_at es i" "bi_value it = Some (eoff es (Suc i) - length (val_at es i), length (val_at es i))"
    "bi_restart_index it < length ris" "ris ! bi_restart_index it \<le> i"
    using assms(2,3) by (auto simp: standing_def)
  have "length (val_at es i) \<le> eoff es (Suc i)"
    using eoff_Suc [OF assms(3)] entry_bytes_length(2) [of "key_at es i" "fst (es ! i)" "val_at es i"]
    by (simp add: key_at_def val_at_def)
  moreover have "fst (es ! Suc i) \<le> length (key_at es i) \<and> take (fst (es ! Suc i)) (key_at es i) = take (fst (es ! Suc i)) (key_at es (Suc i))"
    if "Suc i < length es"
    using assms(1) that by (fastforce simp: blk_def entries_ok_def)
  ultimately show ?thesis using s assms(3) by (auto simp: before_def)
qed

lemma seek_restart_before:
  assumes "blk es ris" "iter_of es ris it" "j < length ris"
  shows "before es ris (SeekToRestartPoint it j) (ris ! j)"
  using assms GetRestartPoint_eoff [OF assms] blk_bounds(5,6) [OF assms(1,3)]
  by (auto simp: before_def SeekToRestartPoint_def iter_of_def)

lemma standing_NextEntryOffset:
  assumes "blk es ris" "standing es ris it i" "i < length es"
  shows "NextEntryOffset it = Some (eoff es (Suc i))"
  using standing_before [OF assms] blk_bounds(1) [OF assms(1), of "Suc i"] assms(3)
  by (auto simp: before_def NextEntryOffset_def)

lemma skip_until_standing:
  assumes "blk es ris" "m < length es"
  shows "before es ris it i \<Longrightarrow> i \<le> m \<Longrightarrow> \<exists>it'. skip_until it (eoff es (Suc m)) = Some it' \<and> standing es ris it' m"
proof (induction "m - i" arbitrary: i it)
  case 0
  then have i: "i = m" by simp
  obtain it' where it': "ParseNextKey it = Some (True, it')" "standing es ris it' m"
    using parse_before [OF assms(1) 0(2)] assms(2) i by auto
  then show ?case
    using standing_NextEntryOffset [OF assms(1) it'(2) assms(2)] by (subst skip_until.simps) simp
next
  case (Suc d)
  then have i: "i < m" by simp
  obtain it' where it': "ParseNextKey it = Some (True, it')" "standing es ris it' i"
    using parse_before [OF assms(1) Suc(3)] assms(2) i by auto
  have len: "i < length es" using i assms(2) by simp
  have "eoff es (Suc i) < eoff es (Suc m)" using i assms(2) by (intro eoff_less) auto
  then have "skip_until it (eoff es (Suc m)) = skip_until it' (eoff es (Suc m))"
    using it'(1) standing_NextEntryOffset [OF assms(1) it'(2) len] by (subst skip_until.simps) simp
  then show ?case using Suc(1) [of "Suc i" it'] Suc(2) standing_before [OF assms(1) it'(2) len] i by simp
qed

lemma linear_search_standing:
  assumes "blk es ris" "m \<le> length es" "\<And>k. k < m \<Longrightarrow> cmp (key_at es k) target < 0"
    "m < length es \<Longrightarrow> \<not> cmp (key_at es m) target < 0"
  shows "before es ris it i \<Longrightarrow> i \<le> m \<Longrightarrow> \<exists>it'. linear_search cmp it target = Some it' \<and> standing es ris it' m"
proof (induction "m - i" arbitrary: i it)
  case 0
  then have i: "i = m" by simp
  obtain it' where it': "ParseNextKey it = Some (m < length es, it')" "standing es ris it' m"
    using parse_before [OF assms(1) 0(2)] i by auto
  have "bi_key it' = key_at es m" if "m < length es" using it'(2) that by (simp add: standing_def)
  then show ?case using it' assms(4) by (subst linear_search.simps) (cases "m < length es"; simp)
next
  case (Suc d)
  then have i: "i < m" by simp
  then have len: "i < length es" using assms(2) by simp
  obtain it' where it': "ParseNextKey it = Some (True, it')" "standing es ris it' i"
    using parse_before [OF assms(1) Suc(3)] len by auto
  have "bi_key it' = key_at es i" using it'(2) len by (simp add: standing_def)
  then have "linear_search cmp it target = linear_search cmp it' target"
    using it'(1) assms(3) [OF i] by (subst linear_search.simps) simp
  then show ?case using Suc(1) [of "Suc i" it'] Suc(2) standing_before [OF assms(1) it'(2) len] i by simp
qed

lemma prev_restart_finds:
  assumes "blk es ris" "iter_of es ris it" "i \<le> length es"
  shows "j < length ris \<Longrightarrow>
    (i = 0 \<longrightarrow> prev_restart it (eoff es i) j = None) \<and>
    (0 < i \<longrightarrow> (\<exists>k \<le> j. prev_restart it (eoff es i) j = Some k \<and> ris ! k < i))"
proof (induction j)
  case 0
  then show ?case
    using GetRestartPoint_eoff [OF assms(1,2), of 0] blk_bounds(4) [OF assms(1)] eoff_less_iff [of 0 es i] assms(3)
    by (subst (1 2) prev_restart.simps) (auto simp: not_le)
next
  case (Suc j)
  have g: "GetRestartPoint it (Suc j) \<ge> eoff es i \<longleftrightarrow> i \<le> ris ! Suc j"
    using GetRestartPoint_eoff [OF assms(1,2) Suc.prems] blk_bounds(5) [OF assms(1) Suc.prems] assms(3)
    by (simp add: eoff_le_iff)
  show ?case
  proof (cases "i \<le> ris ! Suc j")
    case True
    then have "prev_restart it (eoff es i) (Suc j) = prev_restart it (eoff es i) j"
      using g by (subst prev_restart.simps) simp
    then show ?thesis using Suc by (auto intro: le_SucI)
  next
    case False
    then have "prev_restart it (eoff es i) (Suc j) = Some (Suc j)" using g by (subst prev_restart.simps) simp
    then show ?thesis using False by auto
  qed
qed

lemma restart_search_finds:
  assumes "blk es ris" "iter_of es ris it"
    and m: "\<And>k. k < length es \<Longrightarrow> cmp (key_at es k) target < 0 \<Longrightarrow> k < m"
  shows "left \<le> right \<Longrightarrow> right < length ris \<Longrightarrow> ris ! left \<le> m \<Longrightarrow>
    \<exists>l. restart_search cmp it target left right = Some (Inr l) \<and> l < length ris \<and> ris ! l \<le> m"
proof (induction "right - left" arbitrary: left right rule: less_induct)
  case less
  show ?case
  proof (cases "left < right")
    case False
    then show ?thesis using less.prems by (subst restart_search.simps) simp
  next
    case True
    let ?mid = "(left + right + 1) div 2"
    have "left + right + 1 < 2 ^ 32" using less.prems True blk_bounds(2) [OF assms(1)] by simp
    then have mid: "((left + right + 1) mod 2 ^ 32) div 2 = ?mid" "left < ?mid" "?mid \<le> right"
      using True by simp_all
    have r: "?mid < length ris" "ris ! ?mid < length es"
      using mid less.prems blk_bounds(7) [OF assms(1), of ?mid] by auto
    have sh: "fst (es ! (ris ! ?mid)) = 0" using blk_bounds(6) [OF assms(1) r] .
    let ?k = "key_at es (ris ! ?mid)"
    have "eoff es (Suc (ris ! ?mid)) < 2 ^ 32" using blk_bounds(1) [OF assms(1)] r by simp
    then have u: "unat (of_nat (length ?k) :: u32) = length ?k"
      using key_length [OF assms(1) r(2)] by (simp add: unat_of_nat)
    have step: "restart_search cmp it target left right =
        (if cmp ?k target < 0 then restart_search cmp it target ?mid right else restart_search cmp it target left (?mid - 1))"
      using True mid GetRestartPoint_eoff [OF assms(1,2) r(1)] DecodeEntry_at [OF assms(1,2) r(2)] sh u
      by (subst restart_search.simps) (simp add: Let_def)
    show ?thesis
    proof (cases "cmp ?k target < 0")
      case True
      then have "ris ! ?mid < m" using m r(2) by blast
      then have "\<exists>l. restart_search cmp it target ?mid right = Some (Inr l) \<and> l < length ris \<and> ris ! l \<le> m"
        using mid less.prems by (intro less.hyps) auto
      then show ?thesis using step True by simp
    next
      case False
      have "\<exists>l. restart_search cmp it target left (?mid - 1) = Some (Inr l) \<and> l < length ris \<and> ris ! l \<le> m"
        using mid less.prems by (intro less.hyps) auto
      then show ?thesis using step False by simp
    qed
  qed
qed

lemma standing_value:
  assumes "standing es ris it i" "i < length es"
  shows "BlockIter_value it = val_at es i"
proof -
  let ?v = "val_at es i" and ?k = "key_at es i" and ?sh = "fst (es ! i)"
  let ?x = "concat (map entry_bytes (take i es)) @ EncodeVarint32 (of_nat ?sh) @ EncodeVarint32 (of_nat (length ?k - ?sh)) @
      EncodeVarint32 (of_nat (length ?v)) @ drop ?sh ?k"
  have "es = take i es @ es ! i # drop (Suc i) es" using assms(2) by (simp add: id_take_nth_drop)
  then have "concat (map entry_bytes es) = concat (map entry_bytes (take i es @ es ! i # drop (Suc i) es))" by simp
  also have "\<dots> = ?x @ ?v @ concat (map entry_bytes (drop (Suc i) es))"
    by (simp add: entry_bytes_def key_at_def val_at_def split: prod.splits)
  finally have "bi_data it = ?x @ ?v @ concat (map entry_bytes (drop (Suc i) es)) @
      concat (map (\<lambda>r. EncodeFixed32 (of_nat (eoff es r))) ris) @ EncodeFixed32 (of_nat (length ris))"
    using assms(1) by (simp add: standing_def iter_of_def block_bytes_def)
  moreover have "eoff es (Suc i) - length ?v = length ?x"
    using eoff_Suc [OF assms(2)] by (simp add: eoff_def entry_bytes_def key_at_def val_at_def split: prod.splits)
  ultimately show ?thesis using assms by (simp add: standing_def BlockIter_value_def)
qed

lemma BlockIter_Prev_standing:
  assumes b: "blk es ris" and s: "standing es ris it i" "i < length es"
  shows "\<exists>it'. BlockIter_Prev it = Some it' \<and> standing es ris it' (if i = 0 then length es else i - 1)"
proof -
  have io: "iter_of es ris it" and cur: "bi_current it = eoff es i" and j: "bi_restart_index it < length ris"
    using s by (auto simp: standing_def)
  show ?thesis
  proof (cases "i = 0")
    case True
    then have "prev_restart it (bi_current it) (bi_restart_index it) = None"
      using prev_restart_finds [OF b io, of i "bi_restart_index it"] j cur s(2) by simp
    then show ?thesis using True io by (simp add: BlockIter_Prev_def standing_def iter_of_def)
  next
    case False
    then obtain k where k: "prev_restart it (bi_current it) (bi_restart_index it) = Some k" "k < length ris" "ris ! k < i"
      using prev_restart_finds [OF b io, of i "bi_restart_index it"] j cur s(2) by auto
    have "\<exists>it'. skip_until (SeekToRestartPoint it k) (eoff es (Suc (i - 1))) = Some it' \<and> standing es ris it' (i - 1)"
      using k s(2) by (intro skip_until_standing [OF b _ seek_restart_before [OF b io k(2)]]) auto
    then show ?thesis using False k cur by (simp add: BlockIter_Prev_def)
  qed
qed

lemma BlockIter_SeekToLast_standing:
  assumes b: "blk es ris" and io: "iter_of es ris it"
  shows "\<exists>it'. BlockIter_SeekToLast it = Some it' \<and> standing es ris it' (length es - 1)"
proof -
  let ?j = "length ris - 1" and ?n = "length es"
  have j: "?j < length ris" using blk_bounds(3) [OF b] by simp
  have num: "bi_num_restarts it = length ris" "bi_restarts it = eoff es ?n" using io by (auto simp: iter_of_def)
  note bef = seek_restart_before [OF b io j]
  show ?thesis
  proof (cases "es = []")
    case True
    then have "ris ! ?j = 0" using blk_bounds(5) [OF b j] by simp
    then obtain it' where "ParseNextKey (SeekToRestartPoint it ?j) = Some (False, it')" "standing es ris it' 0"
      using parse_before [OF b bef] True by auto
    then show ?thesis using True num by (simp add: BlockIter_SeekToLast_def skip_until.simps [of "SeekToRestartPoint it _"])
  next
    case False
    then have "ris ! ?j < ?n" using blk_bounds(5,7) [OF b, of ?j] blk_bounds(4) [OF b] j by (cases "?j = 0") auto
    then have "\<exists>it'. skip_until (SeekToRestartPoint it ?j) (eoff es (Suc (?n - 1))) = Some it' \<and> standing es ris it' (?n - 1)"
      by (intro skip_until_standing [OF b _ bef]) auto
    then show ?thesis using False num by (simp add: BlockIter_SeekToLast_def)
  qed
qed

lemma BlockIter_Seek_standing:
  assumes b: "blk es ris" and s: "standing es ris it i"
    and m: "m \<le> length es" "\<And>k. k < length es \<Longrightarrow> cmp (key_at es k) target < 0 \<longleftrightarrow> k < m"
    and eq: "\<And>k. cmp (key_at es k) target = 0 \<Longrightarrow> k < length es \<Longrightarrow> k = m"
  shows "\<exists>it'. BlockIter_Seek cmp it target = Some it' \<and> standing es ris it' m"
proof -
  have io: "iter_of es ris it" and num: "bi_num_restarts it = length ris" using s by (auto simp: standing_def iter_of_def)
  have valid: "BlockIter_Valid it \<longleftrightarrow> i < length es"
    using s eoff_less_iff [of i es "length es"] by (auto simp: BlockIter_Valid_def standing_def iter_of_def)
  have key: "i < length es \<Longrightarrow> bi_key it = key_at es i \<and> bi_restart_index it < length ris \<and> ris ! bi_restart_index it \<le> i"
    using s by (simp add: standing_def)
  let ?c = "if BlockIter_Valid it then cmp (bi_key it) target else 0"
  let ?left = "if BlockIter_Valid it \<and> ?c < 0 then bi_restart_index it else 0"
  let ?right = "if BlockIter_Valid it \<and> ?c > 0 then bi_restart_index it else bi_num_restarts it - 1"
  have i: "i < m" if "BlockIter_Valid it" "?c < 0" using that valid key m(2) by auto
  show ?thesis
  proof (cases "BlockIter_Valid it \<and> ?c = 0")
    case True
    then have "i = m" using valid key eq by auto
    then show ?thesis using True s by (auto simp: BlockIter_Seek_def Let_def split: if_splits)
  next
    case False
    have left: "?left \<le> ?right" "?right < length ris" "ris ! ?left \<le> m"
      using valid key num i blk_bounds(3,4) [OF b] by (auto split: if_splits)
    obtain l where l: "restart_search cmp it target ?left ?right = Some (Inr l)" "l < length ris" "ris ! l \<le> m"
      using restart_search_finds [OF b io, of cmp target m ?left ?right] m left by blast
    let ?it = "if l = bi_restart_index it \<and> ?c < 0 then it else SeekToRestartPoint it l"
    have seek: "BlockIter_Seek cmp it target = linear_search cmp ?it target"
      using False l(1) by (simp add: BlockIter_Seek_def Let_def)
    obtain k where k: "before es ris ?it k" "k \<le> m"
    proof (cases "l = bi_restart_index it \<and> ?c < 0")
      case True
      then have "BlockIter_Valid it" "i < m" using i by (auto split: if_splits)
      then show ?thesis using that [of "Suc i"] standing_before [OF b s] True m(1) by simp
    next
      case f: False
      have "?it = SeekToRestartPoint it l" using f by (rule if_not_P)
      then show ?thesis using that [of "ris ! l"] seek_restart_before [OF b io l(2)] l(3) by simp
    qed
    have "\<exists>it'. linear_search cmp ?it target = Some it' \<and> standing es ris it' m"
      using m by (intro linear_search_standing [OF b m(1) _ _ k]) auto
    then show ?thesis by (simp only: seek)
  qed
qed

subsection \<open>The block iterator keeps the contract\<close>

context comparator
begin

lemma takeWhile_position:
  assumes "sorted_wrt (\<lambda>a b. Compare (fst a) (fst b) < 0) kvs" "\<forall>kv\<in>set kvs. ok (fst kv)" "ok t"
  defines "m \<equiv> length (takeWhile (\<lambda>kv. Compare (fst kv) t < 0) kvs)"
  shows "k < length kvs \<Longrightarrow> Compare (fst (kvs ! k)) t < 0 \<longleftrightarrow> k < m" "m \<le> length kvs"
proof -
  show "m \<le> length kvs" by (simp add: m_def length_takeWhile_le)
  assume k: "k < length kvs"
  show "Compare (fst (kvs ! k)) t < 0 \<longleftrightarrow> k < m"
  proof
    assume "k < m"
    then show "Compare (fst (kvs ! k)) t < 0"
      using set_takeWhileD [of "kvs ! k"] takeWhile_nth [of k _ kvs] nth_mem [of k "takeWhile (\<lambda>kv. Compare (fst kv) t < 0) kvs"]
      unfolding m_def by metis
  next
    assume c: "Compare (fst (kvs ! k)) t < 0"
    show "k < m"
    proof (rule ccontr)
      assume "\<not> k < m"
      then have mk: "m \<le> k" by simp
      have nm: "\<not> Compare (fst (kvs ! m)) t < 0" using mk k nth_length_takeWhile [of "\<lambda>kv. Compare (fst kv) t < 0" kvs] by (simp add: m_def)
      have "Compare (fst (kvs ! m)) t < 0"
      proof (cases "m = k")
        case False
        then have "Compare (fst (kvs ! m)) (fst (kvs ! k)) < 0" using sorted_wrt_nth_less [OF assms(1), of m k] mk k by simp
        then show ?thesis using c assms(2,3) mk k by (meson compare_trans le_less_trans nth_mem)
      qed (use c in simp)
      then show False using nm by simp
    qed
  qed
qed

lemma block_iterator:
  assumes b: "blk es ris" and kvs: "kvs = map snd es"
    and srt: "sorted_wrt (\<lambda>a b. Compare (fst a) (fst b) < 0) kvs" and oks: "\<forall>kv\<in>set kvs. ok (fst kv)"
  shows "sorted_iterator (BlockIter_class Compare) Compare ok kvs (\<lambda>it. \<exists>i. standing es ris it i) (standing es ris)"
proof
  have n: "length kvs = length es" by (simp add: kvs)
  have nth: "i < length es \<Longrightarrow> fst (kvs ! i) = key_at es i \<and> snd (kvs ! i) = val_at es i" for i
    by (simp add: kvs key_at_def val_at_def)
  have inv: "standing es ris it i \<Longrightarrow> iter_of es ris it" for it i by (simp add: standing_def)
  fix it i
  assume s: "standing es ris it i"
  show "(\<exists>i. standing es ris it i) \<and> i \<le> length kvs" using s n by (auto simp: standing_def)
  show "it_Valid (BlockIter_class Compare) it = (i < length kvs)"
    using s eoff_less_iff [of i es "length es"] n by (auto simp: BlockIter_class_def BlockIter_Valid_def standing_def iter_of_def)
  assume i: "i < length kvs"
  then have i': "i < length es" by (simp add: n)
  show "it_key (BlockIter_class Compare) it = fst (kvs ! i)"
    using s i' nth by (simp add: BlockIter_class_def standing_def)
  show "it_value (BlockIter_class Compare) it = snd (kvs ! i)"
    using s i' nth standing_value [OF s i'] by (simp add: BlockIter_class_def)
  show "\<exists>s'. it_Next (BlockIter_class Compare) it = Some s' \<and> standing es ris s' (i + 1)"
    using parse_before [OF b standing_before [OF b s i']] by (auto simp: BlockIter_class_def BlockIter_Next_def)
  show "\<exists>s'. it_Prev (BlockIter_class Compare) it = Some s' \<and> standing es ris s' (if i = 0 then length kvs else i - 1)"
  proof -
    have "it_Prev (BlockIter_class Compare) = BlockIter_Prev" by (simp add: BlockIter_class_def)
    then show ?thesis using BlockIter_Prev_standing [OF b s i'] by (simp only: n)
  qed
next
  fix it t
  assume "\<exists>i. standing es ris it i"
  then obtain i where s: "standing es ris it i" ..
  then have io: "iter_of es ris it" by (simp add: standing_def)
  have n: "length kvs = length es" by (simp add: kvs)
  have nth: "i < length es \<Longrightarrow> fst (kvs ! i) = key_at es i" for i by (simp add: kvs key_at_def)
  show "it_status (BlockIter_class Compare) it = OK" using io by (simp add: BlockIter_class_def iter_of_def)
  have "before es ris (SeekToRestartPoint it 0) 0" using seek_restart_before [OF b io, of 0] blk_bounds(3,4) [OF b] by simp
  then show "\<exists>s'. it_SeekToFirst (BlockIter_class Compare) it = Some s' \<and> standing es ris s' 0"
    using parse_before [OF b] by (fastforce simp: BlockIter_class_def BlockIter_SeekToFirst_def)
  show "\<exists>s'. it_SeekToLast (BlockIter_class Compare) it = Some s' \<and> standing es ris s' (length kvs - 1)"
    using BlockIter_SeekToLast_standing [OF b io] n by (simp add: BlockIter_class_def)
  assume t: "ok t"
  define m where "m = length (takeWhile (\<lambda>kv. Compare (fst kv) t < 0) kvs)"
  have m: "m \<le> length es" "\<And>k. k < length es \<Longrightarrow> Compare (key_at es k) t < 0 \<longleftrightarrow> k < m"
    using takeWhile_position [OF srt oks t] n nth by (auto simp: m_def)
  have c: "Compare (key_at es k) t = 0 \<Longrightarrow> k < length es \<Longrightarrow> k = m" for k
  proof -
    assume z: "Compare (key_at es k) t = 0" and k: "k < length es"
    then have "\<not> k < m" using m(2) [of k] by simp
    moreover have "\<not> m < k"
    proof
      assume "m < k"
      then have "Compare (fst (kvs ! m)) (fst (kvs ! k)) < 0" using sorted_wrt_nth_less [OF srt, of m k] k n by simp
      moreover have "key_at es k = t" using z oks t k nth [of k] n compare_eq by (metis nth_mem)
      ultimately have "Compare (key_at es m) t < 0" using nth \<open>m < k\<close> k by simp
      then show False using m(2) [of m] \<open>m < k\<close> k by simp
    qed
    ultimately show "k = m" by simp
  qed
  show "\<exists>s'. it_Seek (BlockIter_class Compare) it t = Some s' \<and>
      standing es ris s' (length (takeWhile (\<lambda>kv. Compare (fst kv) t < 0) kvs))"
    using BlockIter_Seek_standing [where cmp = Compare and target = t, OF b s m c] unfolding m_def by (simp add: BlockIter_class_def)
qed (use srt oks in auto)

end

subsection \<open>The builder produces the layout\<close>

definition built :: "BlockBuilder \<Rightarrow> (nat \<times> slice \<times> slice) list \<Rightarrow> nat list \<Rightarrow> bool" where
  "built b es ris \<longleftrightarrow> bb_buffer b = concat (map entry_bytes es) \<and>
     bb_restarts b = map (\<lambda>r. of_nat (eoff es r)) ris \<and>
     bb_last_key b = (if es = [] then [] else key_at es (length es - 1)) \<and>
     entries_ok es \<and> restarts_ok es ris \<and> 0 < bb_block_restart_interval b \<and> (es = [] \<longrightarrow> bb_counter b = 0)"

lemma shared_loop_prefix:
  "shared_loop a b \<le> length a" "shared_loop a b \<le> length b" "take (shared_loop a b) a = take (shared_loop a b) b"
  by (induction a b rule: shared_loop.induct) auto

lemma built_new: "0 < interval \<Longrightarrow> built (BlockBuilder_new interval) [] [0]"
  by (simp add: built_def BlockBuilder_new_def entries_ok_def restarts_ok_def)

lemma built_Reset: "0 < bb_block_restart_interval b \<Longrightarrow> built (BlockBuilder_Reset b) [] [0]"
  by (simp add: built_def BlockBuilder_Reset_def entries_ok_def restarts_ok_def)

lemma eoff_append: "r \<le> length es \<Longrightarrow> eoff (es @ es') r = eoff es r"
  by (simp add: eoff_def)

lemma at_append: "i < length es \<Longrightarrow> key_at (es @ es') i = key_at es i" "key_at (es @ [(sh, k, v)]) (length es) = k"
  by (simp_all add: key_at_def nth_append)

lemma entries_ok_snoc:
  assumes "entries_ok es" "sh \<le> length k"
    "sh = 0 \<or> es \<noteq> [] \<and> sh \<le> length (key_at es (length es - 1)) \<and> take sh (key_at es (length es - 1)) = take sh k"
  shows "entries_ok (es @ [(sh, k, v)])"
  unfolding entries_ok_def
proof (intro allI impI)
  fix i assume "i < length (es @ [(sh, k, v)])"
  then consider "i < length es" | "i = length es" by fastforce
  then show "fst ((es @ [(sh, k, v)]) ! i) \<le> length (key_at (es @ [(sh, k, v)]) i) \<and>
      (fst ((es @ [(sh, k, v)]) ! i) = 0 \<or> 0 < i \<and> fst ((es @ [(sh, k, v)]) ! i) \<le> length (key_at (es @ [(sh, k, v)]) (i - 1)) \<and>
        take (fst ((es @ [(sh, k, v)]) ! i)) (key_at (es @ [(sh, k, v)]) (i - 1)) =
        take (fst ((es @ [(sh, k, v)]) ! i)) (key_at (es @ [(sh, k, v)]) i))"
  proof cases
    case 1
    then have "key_at (es @ [(sh, k, v)]) (i - 1) = key_at es (i - 1)" "key_at (es @ [(sh, k, v)]) i = key_at es i"
      "(es @ [(sh, k, v)]) ! i = es ! i"
      by (simp_all add: at_append nth_append)
    then show ?thesis using assms(1) 1 unfolding entries_ok_def by presburger
  next
    case 2
    then show ?thesis using assms(2,3) by (cases "es = []") (auto simp: at_append)
  qed
qed

lemma restarts_ok_snoc:
  assumes "restarts_ok es ris"
  shows "es = [] \<longrightarrow> fst e = 0 \<Longrightarrow> restarts_ok (es @ [e]) ris"
    and "es \<noteq> [] \<Longrightarrow> fst e = 0 \<Longrightarrow> restarts_ok (es @ [e]) (ris @ [length es])"
proof -
  assume h: "es = [] \<longrightarrow> fst e = 0"
  have "fst ((es @ [e]) ! r) = 0" if "r \<in> set ris" for r
  proof -
    have r: "r < length es \<or> r = 0" "r < length es \<longrightarrow> fst (es ! r) = 0" using assms that by (auto simp: restarts_ok_def)
    show ?thesis
    proof (cases "r < length es")
      case True then show ?thesis using r(2) by (simp add: nth_append)
    next
      case False
      then have "r = 0" "es = []" using r(1) by auto
      then show ?thesis using h by simp
    qed
  qed
  moreover have "r < length (es @ [e]) \<or> r = 0" if "r \<in> set ris" for r using assms that by (auto simp: restarts_ok_def less_Suc_eq)
  ultimately show "restarts_ok (es @ [e]) ris" using assms by (simp add: restarts_ok_def)
next
  assume h: "es \<noteq> []" "fst e = 0"
  have r: "\<forall>r\<in>set ris. r < length es \<and> fst (es ! r) = 0" using assms h(1) by (auto simp: restarts_ok_def)
  then show "restarts_ok (es @ [e]) (ris @ [length es])"
    using assms h(2) by (auto simp: restarts_ok_def sorted_wrt_append nth_append)
qed

lemma built_Add:
  assumes "built b es ris"
  shows "\<exists>sh ris'. built (BlockBuilder_Add b k v) (es @ [(sh, k, v)]) ris'"
proof -
  define share where "share = (bb_counter b < bb_block_restart_interval b)"
  define sh where "sh = (if share then shared_loop (bb_last_key b) k else 0)"
  define ris' where "ris' = (if share then ris else ris @ [length es])"
  let ?es = "es @ [(sh, k, v)]" and ?b = "BlockBuilder_Add b k v"
  have i: "bb_buffer b = concat (map entry_bytes es)" "bb_restarts b = map (\<lambda>r. of_nat (eoff es r)) ris"
    "bb_last_key b = (if es = [] then [] else key_at es (length es - 1))" "entries_ok es" "restarts_ok es ris"
    "0 < bb_block_restart_interval b" "es = [] \<longrightarrow> bb_counter b = 0"
    using assms by (auto simp: built_def)
  have sh: "sh \<le> length k" "sh \<le> length (bb_last_key b)" "take sh (bb_last_key b) = take sh k"
    using shared_loop_prefix [of "bb_last_key b" k] by (auto simp: sh_def)
  have ne: "es \<noteq> []" if "\<not> share" using that i(6,7) by (auto simp: share_def)
  have buf: "bb_buffer ?b = concat (map entry_bytes ?es)"
    by (simp add: BlockBuilder_Add_def Let_def share_def sh_def i(1) entry_bytes_def PutVarint32_def)
  have last: "bb_last_key ?b = k"
    using sh by (simp add: BlockBuilder_Add_def Let_def share_def [symmetric] sh_def [symmetric])
  have old: "eoff ?es r = eoff es r" if "r \<in> set ris" for r
    using i(5) that by (intro eoff_append) (auto simp: restarts_ok_def)
  then have "map (\<lambda>r. of_nat (eoff ?es r) :: u32) ris' = bb_restarts b @ (if share then [] else [of_nat (length (bb_buffer b))])"
    using i(1,2) by (auto simp: ris'_def eoff_append eoff_all)
  then have rst: "bb_restarts ?b = map (\<lambda>r. of_nat (eoff ?es r)) ris'"
    by (simp add: BlockBuilder_Add_def Let_def share_def)
  have eok: "entries_ok ?es"
    using i(3,4) sh by (intro entries_ok_snoc) (auto split: if_splits)
  have "es = [] \<longrightarrow> sh = 0" using sh(2) i(3) by auto
  then have rok: "restarts_ok ?es ris'"
    using restarts_ok_snoc [OF i(5), of "(sh, k, v)"] ne by (auto simp: ris'_def sh_def)
  have "0 < bb_block_restart_interval ?b" using i(6) by (simp add: BlockBuilder_Add_def Let_def)
  then have "built ?b ?es ris'"
    using buf rst last eok rok by (simp add: built_def at_append)
  then show ?thesis by blast
qed

definition build_block :: "int \<Rightarrow> (slice \<times> slice) list \<Rightarrow> slice" where
  "build_block interval kvs =
     fst (BlockBuilder_Finish (foldl (\<lambda>b (k, v). BlockBuilder_Add b k v) (BlockBuilder_new interval) kvs))"

lemma built_all:
  assumes "0 < interval"
  shows "\<exists>es ris. built (foldl (\<lambda>b (k, v). BlockBuilder_Add b k v) (BlockBuilder_new interval) kvs) es ris \<and> map snd es = kvs"
proof (induction kvs rule: rev_induct)
  case Nil
  then show ?case using built_new [OF assms] by auto
next
  case (snoc kv kvs)
  then obtain es ris where "built (foldl (\<lambda>b (k, v). BlockBuilder_Add b k v) (BlockBuilder_new interval) kvs) es ris" "map snd es = kvs"
    by blast
  then show ?case using built_Add [of _ es ris "fst kv" "snd kv"] by (fastforce split: prod.splits)
qed

lemma Finish_block_bytes: "built b es ris \<Longrightarrow> fst (BlockBuilder_Finish b) = block_bytes es ris"
proof -
  have put: "foldl PutFixed32 buf ws = buf @ concat (map EncodeFixed32 ws)" for buf ws
    by (induction ws arbitrary: buf) (auto simp: PutFixed32_def)
  assume "built b es ris"
  then show ?thesis by (simp add: BlockBuilder_Finish_def Let_def put built_def block_bytes_def PutFixed32_def comp_def)
qed

lemma Block_NewIterator_built:
  assumes "blk es ris"
  shows "Block_NewIterator (Block_new (block_bytes es ris)) = Inr (BlockIter_new (block_bytes es ris) (eoff es (length es)) (length ris))"
    "standing es ris (BlockIter_new (block_bytes es ris) (eoff es (length es)) (length ris)) (length es)"
proof -
  let ?d = "block_bytes es ris" and ?r = "concat (map (\<lambda>r. EncodeFixed32 (of_nat (eoff es r))) ris)"
  have rl: "length ?r = 4 * length ris" by (induction ris) auto
  have len: "length ?d = eoff es (length es) + 4 * length ris + 4" by (simp add: block_bytes_def eoff_all rl)
  have bound: "length ?d < 2 ^ 32" "0 < length ris" using assms blk_bounds(3) [OF assms] by (auto simp: blk_def)
  have "drop (length ?d - 4) ?d = EncodeFixed32 (of_nat (length ris))"
    unfolding block_bytes_def by simp
  then have num: "NumRestarts ?d (length ?d) = of_nat (length ris)"
    using DecodeFixed32_EncodeFixed32 [of "of_nat (length ris)" "[]"] by (simp add: NumRestarts_def)
  have u: "unat (of_nat (length ris) :: u32) = length ris" "unat (1 + of_nat (length ris) :: u32) = 1 + length ris"
    using bound(1) len by (simp_all add: unat_of_nat unat_word_ariths)
  have "(of_nat (length ris) :: u32) \<noteq> 0" using u(1) bound(2) by (metis less_irrefl unat_0)
  moreover have "length ris \<le> (length ?d - 4) div 4" "(length ?d - unat (1 + of_nat (length ris) :: u32) * 4) mod 2 ^ 32 = eoff es (length es)"
    using len bound(1) u(2) by auto
  ultimately show "Block_NewIterator (Block_new ?d) = Inr (BlockIter_new ?d (eoff es (length es)) (length ris))"
    using num u(1) len by (simp add: Block_new_def Let_def Block_NewIterator_def)
  show "standing es ris (BlockIter_new ?d (eoff es (length es)) (length ris)) (length es)"
    by (simp add: standing_def iter_of_def BlockIter_new_def)
qed

lemma either_Iterator_sorted:
  assumes "sorted_iterator B cmp ok kvs I at"
  shows "sorted_iterator (either_Iterator A B) cmp ok kvs (case_sum (\<lambda>_. False) I) (case_sum (\<lambda>_ _. False) at)"
proof -
  note si = assms [unfolded sorted_iterator_def]
  show ?thesis
    by unfold_locales (use si in \<open>fastforce simp: either_Iterator_def lift_move_def split: sum.splits\<close>)+
qed

context comparator
begin

lemma build_block_iterator:
  assumes "0 < interval" "sorted_wrt (\<lambda>a b. Compare (fst a) (fst b) < 0) kvs" "\<forall>kv\<in>set kvs. ok (fst kv)"
    "length (build_block interval kvs) < 2 ^ 32"
  shows "\<exists>inv at. inv (Block_NewIterator (Block_new (build_block interval kvs))) \<and>
    sorted_iterator (BlockIterator Compare) Compare ok kvs inv at"
proof -
  obtain es ris where b: "built (foldl (\<lambda>b (k, v). BlockBuilder_Add b k v) (BlockBuilder_new interval) kvs) es ris"
    and kvs: "map snd es = kvs"
    using built_all [OF assms(1)] by blast
  have bytes: "build_block interval kvs = block_bytes es ris" by (simp add: build_block_def Finish_block_bytes [OF b])
  have blk: "blk es ris" using b assms(4) bytes by (simp add: blk_def built_def)
  have "sorted_iterator (BlockIterator Compare) Compare ok kvs (case_sum (\<lambda>_. False) (\<lambda>it. \<exists>i. standing es ris it i))
      (case_sum (\<lambda>_ _. False) (standing es ris))"
    unfolding BlockIterator_def
    using block_iterator [OF blk kvs [symmetric] assms(2,3)] by (rule either_Iterator_sorted)
  moreover have "case_sum (\<lambda>_. False) (\<lambda>it. \<exists>i. standing es ris it i) (Block_NewIterator (Block_new (build_block interval kvs)))"
    using Block_NewIterator_built [OF blk] by (auto simp: bytes)
  ultimately show ?thesis by blast
qed

end

subsection \<open>Properties\<close>

text \<open>
  C8: A block gives back what was put into it. For keys in strictly increasing order under any
  comparator, a restart interval of at least one and a block below four gigabytes: the iterator over
  the finished block scans exactly the pairs that were added, in order; seeking a key and scanning from
  there shows exactly the pairs at or after the key; \<open>SeekToLast\<close> and \<open>Prev\<close> walk the same pairs backwards,
  since the iterator keeps the whole iterator contract.
\<close>

theorem block_roundtrip:
  assumes "comparator cmp ok" "0 < interval" "sorted_wrt (\<lambda>a b. cmp (fst a) (fst b) < 0) kvs" "\<forall>kv\<in>set kvs. ok (fst kv)"
    "length (build_block interval kvs) < 2 ^ 32"
  shows "scan (BlockIterator cmp) (Block_NewIterator (Block_new (build_block interval kvs))) = Some kvs \<and>
    (\<forall>target. ok target \<longrightarrow> (\<exists>it. it_Seek (BlockIterator cmp) (Block_NewIterator (Block_new (build_block interval kvs))) target = Some it \<and>
       scan_from (BlockIterator cmp) it = Some (dropWhile (\<lambda>kv. cmp (fst kv) target < 0) kvs))) \<and>
    (\<exists>inv at. inv (Block_NewIterator (Block_new (build_block interval kvs))) \<and>
       sorted_iterator (BlockIterator cmp) cmp ok kvs inv at)"
proof -
  obtain inv at where i: "inv (Block_NewIterator (Block_new (build_block interval kvs)))"
    and si: "sorted_iterator (BlockIterator cmp) cmp ok kvs inv at"
    using comparator.build_block_iterator [OF assms] by blast
  show ?thesis
    using sorted_iterator.scan_all [OF si i] sorted_iterator.seek_scan [OF si i] i si by blast
qed

theorem block_roundtrip_witness:
  "scan (BlockIterator BytewiseComparator_Compare) (Block_NewIterator (Block_new (build_block 2 [([97], [1]), ([97, 98], [2]), ([99], [])]))) =
     Some [([97], [1]), ([97, 98], [2]), ([99], [])]"
proof -
  let ?kvs = "[([97], [1]), ([97, 98], [2]), ([99], [])] :: (slice \<times> slice) list"
  have "length (build_block 2 ?kvs) < 2 ^ 32"
    by (simp add: build_block_def BlockBuilder_Finish_def BlockBuilder_new_def BlockBuilder_Add_def PutVarint32_def
        PutFixed32_def EncodeVarint32_def Let_def)
  then show ?thesis
    using block_roundtrip [OF bytewise.comparator_axioms, of 2 ?kvs]
    by (simp add: BytewiseComparator_Compare_def Slice_compare_def)
qed

lemma GetVarint32Ptr_suffix: "GetVarint32Ptr p = Some (v, q) \<Longrightarrow> suffix q p \<and> length q + 1 \<le> length p"
  using GetVarint32PtrFallback_loop_suffix [of 0 0 p v q]
  by (auto simp: GetVarint32Ptr_eq_Fallback GetVarint32PtrFallback_def suffix_def Suc_le_eq)

text \<open>
  C31: The length check of a block entry. Whatever the bytes of a block below \<open>2 ^ 32\<close> bytes are, an entry that
  \<open>DecodeEntry\<close> accepts starts inside the block after a header of at least three bytes, and its key and
  value lie inside the block exactly when the sum of their lengths is below \<open>2 ^ 32\<close>: the check adds the
  two lengths in 32 bits, so it is sound except for corrupted entries whose lengths overflow.
\<close>

theorem block_entry_bounds:
  assumes "length p < 2 ^ 32" "DecodeEntry p = Some (shared, non_shared, value_length, q)"
  shows "suffix q p \<and> length q + 3 \<le> length p \<and>
    (unat non_shared + unat value_length \<le> length q \<longleftrightarrow> unat non_shared + unat value_length < 2 ^ 32)"
proof -
  obtain q1 q2 where d: "GetVarint32Ptr p = Some (shared, q1)" "GetVarint32Ptr q1 = Some (non_shared, q2)"
      "GetVarint32Ptr q2 = Some (value_length, q)"
    and fits: "\<not> (of_nat (length q) :: u32) < non_shared + value_length"
    using assms(2) by (auto simp: DecodeEntry_slow split: Option.bind_splits if_splits)
  note s = GetVarint32Ptr_suffix [OF d(1)] GetVarint32Ptr_suffix [OF d(2)] GetVarint32Ptr_suffix [OF d(3)]
  have sfx: "suffix q p" using s by (meson suffix_order.trans)
  have len: "length q + 3 \<le> length p" using s by linarith
  have q: "unat (of_nat (length q) :: u32) = length q" using assms(1) len by (simp add: unat_of_nat)
  have "unat (non_shared + value_length) \<le> length q" using fits by (simp add: word_less_nat_alt q)
  moreover have "unat (non_shared + value_length) = unat non_shared + unat value_length"
    if "unat non_shared + unat value_length < 2 ^ 32"
    using that by (simp add: unat_word_ariths)
  ultimately show ?thesis using sfx len assms(1) by auto
qed

theorem block_entry_bounds_witness:
  "DecodeEntry [0, 1, 2, 97, 5, 6] = Some (0, 1, 2, [97, 5, 6]) \<and> suffix [97, 5, 6] [0, 1, 2, 97, 5, 6 :: byte] \<and>
   DecodeEntry (EncodeVarint32 0 @ EncodeVarint32 0xffffffff @ EncodeVarint32 1) = Some (0, 0xffffffff, 1, []) \<and>
   \<not> unat (0xffffffff :: u32) + unat (1 :: u32) \<le> length ([] :: bytes)"
proof -
  have a: "DecodeEntry [0, 1, 2, 97, 5, 6] = Some (0, 1, 2, [97, 5, 6])" by (simp add: DecodeEntry_def)
  have e: "EncodeVarint32 0 @ EncodeVarint32 0xffffffff @ EncodeVarint32 1 = [0, 255, 255, 255, 255, 15, 1]"
    by (simp add: EncodeVarint32_def)
  then have "\<not> length (EncodeVarint32 0 @ EncodeVarint32 0xffffffff @ EncodeVarint32 1) < 3" by simp
  then have b: "DecodeEntry (EncodeVarint32 0 @ EncodeVarint32 0xffffffff @ EncodeVarint32 1) = Some (0, 0xffffffff, 1, [])"
    using GetVarint32Ptr_Encode [of 1 "[]"] by (simp add: DecodeEntry_slow)
  show ?thesis
    using a b block_entry_bounds [OF _ a] block_entry_bounds [OF _ b] unfolding e by simp
qed

end
