(* ===== verification/Format.thy ===== *)
theory Format
  imports Block Log
begin

text \<open>
  The parts of a table file (\<open>table/format.h\<close>, \<open>table/format.cc\<close>): block handles, the footer, and
  \<open>ReadBlock\<close>, which fetches a block and checks and removes its trailer. The compression library
  behind \<open>port/port.h\<close> is the record \<open>Port\<close> of its entry points. \<open>None\<close> is the result of \<open>ReadBlock\<close> when
  it does not return: its buffer is too large to be allocated, or it reads outside of it.
\<close>

subsection \<open>Options\<close>

definition kNoCompression :: byte where "kNoCompression = 0"
definition kSnappyCompression :: byte where "kSnappyCompression = 1"
definition kZstdCompression :: byte where "kZstdCompression = 2"

record Port =
  Snappy_Compress :: "slice \<Rightarrow> bytes option"
  Snappy_GetUncompressedLength :: "slice \<Rightarrow> nat option"
  Snappy_Uncompress :: "slice \<Rightarrow> bytes option"
  Zstd_Compress :: "int \<Rightarrow> slice \<Rightarrow> bytes option"
  Zstd_GetUncompressedLength :: "slice \<Rightarrow> nat option"
  Zstd_Uncompress :: "slice \<Rightarrow> bytes option"

text \<open>A build without the compression libraries: every entry point reports failure.\<close>

definition Port_none :: Port where
  "Port_none = \<lparr>Snappy_Compress = (\<lambda>_. None), Snappy_GetUncompressedLength = (\<lambda>_. None),
     Snappy_Uncompress = (\<lambda>_. None), Zstd_Compress = (\<lambda>_ _. None),
     Zstd_GetUncompressedLength = (\<lambda>_. None), Zstd_Uncompress = (\<lambda>_. None)\<rparr>"

text \<open>\<open>ReadOptions\<close>; the snapshot is given by its sequence number.\<close>

record ReadOptions =
  ro_verify_checksums :: bool
  ro_fill_cache :: bool
  ro_snapshot :: "u64 option"

definition ReadOptions_default :: ReadOptions where
  "ReadOptions_default = \<lparr>ro_verify_checksums = False, ro_fill_cache = True, ro_snapshot = None\<rparr>"

subsection \<open>Block handles\<close>

record BlockHandle =
  bh_offset :: u64
  bh_size :: u64

definition BlockHandle_new :: BlockHandle where
  "BlockHandle_new = \<lparr>bh_offset = NOT 0, bh_size = NOT 0\<rparr>"

definition BlockHandle_EncodeTo :: "BlockHandle \<Rightarrow> bytes \<Rightarrow> bytes" where
  "BlockHandle_EncodeTo h dst = PutVarint64 (PutVarint64 dst (bh_offset h)) (bh_size h)"

definition BlockHandle_DecodeFrom :: "BlockHandle \<Rightarrow> slice \<Rightarrow> Status \<times> BlockHandle \<times> slice" where
  "BlockHandle_DecodeFrom h input =
     (case GetVarint64 input of
        None \<Rightarrow> (Corruption (str ''bad block handle'') [], h, input)
      | Some (v, input) \<Rightarrow>
          let h = h\<lparr>bh_offset := v\<rparr> in
          (case GetVarint64 input of
             None \<Rightarrow> (Corruption (str ''bad block handle'') [], h, input)
           | Some (v, input) \<Rightarrow> (OK, h\<lparr>bh_size := v\<rparr>, input)))"

definition kMaxEncodedLength :: nat where "kMaxEncodedLength = 10 + 10"

subsection \<open>The footer\<close>

record Footer =
  ft_metaindex_handle :: BlockHandle
  ft_index_handle :: BlockHandle

definition Footer_new :: Footer where
  "Footer_new = \<lparr>ft_metaindex_handle = BlockHandle_new, ft_index_handle = BlockHandle_new\<rparr>"

definition kEncodedLength :: nat where "kEncodedLength = 2 * kMaxEncodedLength + 8"

definition kTableMagicNumber :: u64 where "kTableMagicNumber = 0xdb4775248b80fb57"

definition kBlockTrailerSize :: nat where "kBlockTrailerSize = 5"

text \<open>\<open>std::string::resize\<close>: cut, or pad with zero bytes.\<close>

definition string_resize :: "bytes \<Rightarrow> nat \<Rightarrow> bytes" where
  "string_resize s n = take n s @ replicate (n - length s) 0"

definition Footer_EncodeTo :: "Footer \<Rightarrow> bytes \<Rightarrow> bytes" where
  "Footer_EncodeTo ft dst =
     (let dst = BlockHandle_EncodeTo (ft_metaindex_handle ft) dst;
          dst = BlockHandle_EncodeTo (ft_index_handle ft) dst;
          dst = string_resize dst (2 * kMaxEncodedLength);
          dst = PutFixed32 dst (ucast (kTableMagicNumber AND 0xffffffff))
      in PutFixed32 dst (ucast (drop_bit 32 kTableMagicNumber)))"

definition Footer_DecodeFrom :: "Footer \<Rightarrow> slice \<Rightarrow> Status \<times> Footer \<times> slice" where
  "Footer_DecodeFrom ft input =
     (if length input < kEncodedLength
      then (Corruption (str ''not an sstable (footer too short)'') [], ft, input)
      else
        let magic_ptr = drop (kEncodedLength - 8) input;
            magic_lo = DecodeFixed32 magic_ptr;
            magic_hi = DecodeFixed32 (drop 4 magic_ptr);
            magic = push_bit 32 (ucast magic_hi) OR ucast magic_lo
        in if magic \<noteq> kTableMagicNumber
           then (Corruption (str ''not an sstable (bad magic number)'') [], ft, input)
           else
             let (result, h, input1) = BlockHandle_DecodeFrom (ft_metaindex_handle ft) input;
                 ft = ft\<lparr>ft_metaindex_handle := h\<rparr>
             in if \<not> Status_ok result then (result, ft, input1)
                else
                  let (result, h, input2) = BlockHandle_DecodeFrom (ft_index_handle ft) input1;
                      ft = ft\<lparr>ft_index_handle := h\<rparr>
                  in if \<not> Status_ok result then (result, ft, input2)
                     else (result, ft, drop 8 magic_ptr))"

subsection \<open>Reading a block\<close>

record BlockContents =
  bc_data :: slice
  bc_cachable :: bool
  bc_heap_allocated :: bool

definition BlockContents_empty :: BlockContents where
  "BlockContents_empty = \<lparr>bc_data = [], bc_cachable = False, bc_heap_allocated = False\<rparr>"

text \<open>
  The sizes are 64-bit: \<open>n + kBlockTrailerSize\<close> wraps around for the largest \<open>n\<close>, and then the trailer is
  looked for outside what was read. The buffer is allocated before the read, and \<open>new char[]\<close> throws for more
  than \<open>PTRDIFF_MAX\<close> bytes; memory is taken to suffice for smaller ones. \<open>direct\<close> says that the file gave a
  pointer to memory of its own instead of filling the buffer.
\<close>

definition trailer_end :: "nat \<Rightarrow> nat" where
  "trailer_end n = (n + kBlockTrailerSize) mod 2 ^ 64"

definition new_char_array_throws :: "nat \<Rightarrow> bool" where
  "new_char_array_throws n \<longleftrightarrow> 2 ^ 63 \<le> n"

definition uncompressed :: "(slice \<Rightarrow> nat option) \<Rightarrow> (slice \<Rightarrow> bytes option) \<Rightarrow> bytes \<Rightarrow> slice \<Rightarrow>
    (Status \<times> BlockContents) option" where
  "uncompressed get_length uncompress name data =
     (case get_length data of
        None \<Rightarrow> Some (Corruption (str ''corrupted '' @ name @ str '' compressed block length'') [],
                  BlockContents_empty)
      | Some ulength \<Rightarrow>
          if new_char_array_throws ulength then None
          else
            (case uncompress data of
               None \<Rightarrow> Some (Corruption (str ''corrupted '' @ name @ str '' compressed block contents'') [],
                         BlockContents_empty)
             | Some ubuf \<Rightarrow>
                 Some (OK, \<lparr>bc_data = take ulength ubuf, bc_cachable = True, bc_heap_allocated = True\<rparr>)))"

definition ReadBlock :: "Port \<Rightarrow> 'f RandomAccessFile \<Rightarrow> bool \<Rightarrow> 'f \<Rightarrow> ReadOptions \<Rightarrow> BlockHandle \<Rightarrow>
    (Status \<times> BlockContents) option" where
  "ReadBlock P R direct f options h = do {
     let result = BlockContents_empty;
     let n = unat (bh_size h);
     if new_char_array_throws (trailer_end n) then None else do {
     (s, contents) \<leftarrow> rf_Read R f (bh_offset h) (trailer_end n) [];
     if \<not> Status_ok s then Some (s, result)
     else if length contents \<noteq> trailer_end n
     then Some (Corruption (str ''truncated block read'') [], result)
     else if length contents < n + kBlockTrailerSize then None
     else if ro_verify_checksums options \<and>
             Value (take (n + 1) contents) \<noteq> Unmask (DecodeFixed32 (drop (n + 1) contents))
     then Some (Corruption (str ''block checksum mismatch'') [], result)
     else
       let data = take n contents; type = contents ! n in
       if type = kNoCompression
       then Some (OK, \<lparr>bc_data = data, bc_cachable = \<not> direct, bc_heap_allocated = \<not> direct\<rparr>)
       else if type = kSnappyCompression
       then uncompressed (Snappy_GetUncompressedLength P) (Snappy_Uncompress P) (str ''snappy'') data
       else if type = kZstdCompression
       then uncompressed (Zstd_GetUncompressedLength P) (Zstd_Uncompress P) (str ''zstd'') data
       else Some (Corruption (str ''bad block type'') [], result)
     }
   }"

subsection \<open>Lemmas\<close>

lemma BlockHandle_EncodeTo_append: "BlockHandle_EncodeTo h dst = dst @ BlockHandle_EncodeTo h []"
  by (simp add: BlockHandle_EncodeTo_def PutVarint64_def)

lemma BlockHandle_Decode_Encode [coding_simps, simp]:
  "BlockHandle_DecodeFrom h' (BlockHandle_EncodeTo h [] @ rest) = (OK, h, rest)"
  by (simp add: BlockHandle_DecodeFrom_def BlockHandle_EncodeTo_def PutVarint64_def)

lemma BlockHandle_Decode_Encode_Nil [simp]:
  "BlockHandle_DecodeFrom h' (BlockHandle_EncodeTo h []) = (OK, h, [])"
  using BlockHandle_Decode_Encode [of h' h "[]"] by simp

lemma length_BlockHandle_EncodeTo: "length (BlockHandle_EncodeTo h []) \<le> 20"
  using length_EncodeVarint64_10 [of "bh_offset h"] length_EncodeVarint64_10 [of "bh_size h"]
  by (simp add: BlockHandle_EncodeTo_def PutVarint64_def)

lemma BlockHandle_EncodeTo_inj: "BlockHandle_EncodeTo h [] = BlockHandle_EncodeTo h' [] \<Longrightarrow> h = h'"
  by (metis BlockHandle_Decode_Encode_Nil prod.inject)

lemma Footer_EncodeTo_eq:
  "\<exists>pad. Footer_EncodeTo ft [] =
     BlockHandle_EncodeTo (ft_metaindex_handle ft) [] @ BlockHandle_EncodeTo (ft_index_handle ft) [] @ pad @
       EncodeFixed32 0x8b80fb57 @ EncodeFixed32 0xdb477524 \<and>
     length (BlockHandle_EncodeTo (ft_metaindex_handle ft) [] @
       BlockHandle_EncodeTo (ft_index_handle ft) [] @ pad) = 40"
proof -
  let ?m = "BlockHandle_EncodeTo (ft_metaindex_handle ft) []" and ?i = "BlockHandle_EncodeTo (ft_index_handle ft) []"
  have l: "length ?m + length ?i \<le> 40"
    using length_BlockHandle_EncodeTo [of "ft_metaindex_handle ft"] length_BlockHandle_EncodeTo [of "ft_index_handle ft"]
    by simp
  have "BlockHandle_EncodeTo (ft_index_handle ft) ?m = ?m @ ?i" by (rule BlockHandle_EncodeTo_append)
  then show ?thesis
    using l by (intro exI [of _ "replicate (40 - (length ?m + length ?i)) 0"])
      (simp add: Footer_EncodeTo_def Let_def string_resize_def PutFixed32_def kTableMagicNumber_def kMaxEncodedLength_def)
qed

lemma length_Footer_EncodeTo: "length (Footer_EncodeTo ft []) = 48"
  using Footer_EncodeTo_eq [of ft] by auto

lemma Footer_Decode_Encode:
  "Footer_DecodeFrom ft' (Footer_EncodeTo ft [] @ rest) = (OK, ft, rest)"
proof -
  obtain pad where e: "Footer_EncodeTo ft [] =
     BlockHandle_EncodeTo (ft_metaindex_handle ft) [] @ BlockHandle_EncodeTo (ft_index_handle ft) [] @ pad @
       EncodeFixed32 0x8b80fb57 @ EncodeFixed32 0xdb477524"
    and l: "length (BlockHandle_EncodeTo (ft_metaindex_handle ft) [] @
       BlockHandle_EncodeTo (ft_index_handle ft) [] @ pad) = 40"
    using Footer_EncodeTo_eq [of ft] by blast
  have "drop 40 (Footer_EncodeTo ft [] @ rest) = EncodeFixed32 0x8b80fb57 @ EncodeFixed32 0xdb477524 @ rest"
    using l by (simp add: e)
  moreover have "BlockHandle_DecodeFrom h (Footer_EncodeTo ft [] @ rest) = (OK, ft_metaindex_handle ft,
      BlockHandle_EncodeTo (ft_index_handle ft) [] @ pad @ EncodeFixed32 0x8b80fb57 @ EncodeFixed32 0xdb477524 @ rest)" for h
    by (simp add: e)
  ultimately show ?thesis
    by (simp add: Footer_DecodeFrom_def Let_def kEncodedLength_def kMaxEncodedLength_def
        length_Footer_EncodeTo kTableMagicNumber_def)
qed

text \<open>What \<open>WriteRawBlock\<close> puts in a file, and that \<open>ReadBlock\<close> takes it off again.\<close>

definition block_trailer :: "bytes \<Rightarrow> byte \<Rightarrow> bytes" where
  "block_trailer data type = type # EncodeFixed32 (Mask (Value (data @ [type])))"

lemma length_block_trailer [simp]: "length (block_trailer data type) = 5"
  by (simp add: block_trailer_def)

definition decompresses :: "Port \<Rightarrow> byte \<Rightarrow> bytes \<Rightarrow> bytes \<Rightarrow> bool" where
  "decompresses P type raw data \<longleftrightarrow>
     type = kNoCompression \<and> data = raw \<or>
     \<not> new_char_array_throws (length data) \<and> (type = kSnappyCompression \<and> Snappy_GetUncompressedLength P raw = Some (length data) \<and>
       Snappy_Uncompress P raw = Some data \<or>
     type = kZstdCompression \<and> Zstd_GetUncompressedLength P raw = Some (length data) \<and>
       Zstd_Uncompress P raw = Some data)"

lemmas compression_consts = kNoCompression_def kSnappyCompression_def kZstdCompression_def

context random_access_file
begin

lemma ReadBlock_trailer:
  assumes f: "rok f" and c: "contents f = pre @ raw @ block_trailer raw type @ post"
    and len: "length (contents f) < 2 ^ 63"
    and h: "unat (bh_offset h) = length pre" "unat (bh_size h) = length raw"
    and d: "decompresses P type raw data"
  shows "\<exists>b. ReadBlock P R direct f options h = Some (OK, b) \<and> bc_data b = data"
proof -
  have n: "trailer_end (length raw) = length raw + 5"
    using len c by (simp add: trailer_end_def kBlockTrailerSize_def)
  have alloc: "\<not> new_char_array_throws (length raw + 5)" using len c by (simp add: new_char_array_throws_def)
  let ?c = "raw @ block_trailer raw type"
  have r: "rf_Read R f (bh_offset h) (length raw + 5) [] = Some (OK, ?c)"
    using read [OF f, of "bh_offset h" "length raw + 5" "[]"] by (simp add: h(1) c)
  have t: "take (length raw + 1) ?c = raw @ [type]" "?c ! length raw = type"
    "drop (length raw + 1) ?c = EncodeFixed32 (Mask (Value (raw @ [type])))"
    by (simp_all add: block_trailer_def)
  have crc: "DecodeFixed32 (EncodeFixed32 v) = v" for v
    using DecodeFixed32_EncodeFixed32 [of v "[]"] by simp
  obtain cs where cs: "?c = cs" by blast
  have "length cs = length raw + 5" "take (length raw) cs = raw" using cs by auto
  then have "ReadBlock P R direct f options h =
     (if type = kNoCompression
       then Some (OK, \<lparr>bc_data = raw, bc_cachable = \<not> direct, bc_heap_allocated = \<not> direct\<rparr>)
       else if type = kSnappyCompression
       then uncompressed (Snappy_GetUncompressedLength P) (Snappy_Uncompress P) (str ''snappy'') raw
       else if type = kZstdCompression
       then uncompressed (Zstd_GetUncompressedLength P) (Zstd_Uncompress P) (str ''zstd'') raw
       else Some (Corruption (str ''bad block type'') [], BlockContents_empty))"
    using r t by (simp only: cs) (simp add: ReadBlock_def h(2) n alloc Let_def crc Unmask_Mask kBlockTrailerSize_def)
  then show ?thesis
    using d by (auto simp: decompresses_def uncompressed_def compression_consts)
qed

text \<open>A block whose bytes after the first \<open>n\<close> were damaged: what the checksum catches is reported.\<close>

lemma ReadBlock_checksum:
  assumes f: "rok f" and off: "unat (bh_offset h) \<le> length (contents f)"
    and n: "unat (bh_size h) + 5 < 2 ^ 63"
    and c: "take (unat (bh_size h) + 5) (drop (unat (bh_offset h)) (contents f)) = c"
    and len: "length c = unat (bh_size h) + 5" and v: "ro_verify_checksums options"
    and bad: "Value (take (unat (bh_size h) + 1) c) \<noteq> Unmask (DecodeFixed32 (drop (unat (bh_size h) + 1) c))"
  shows "ReadBlock P R direct f options h = Some (Corruption (str ''block checksum mismatch'') [], BlockContents_empty)"
  using read [OF f off, of "unat (bh_size h) + 5" "[]"] n len v bad
  by (simp add: ReadBlock_def trailer_end_def kBlockTrailerSize_def c Let_def new_char_array_throws_def)

lemma ReadBlock_truncated:
  assumes f: "rok f" and off: "unat (bh_offset h) \<le> length (contents f)"
    and n: "unat (bh_size h) + 5 < 2 ^ 63"
    and short: "length (contents f) < unat (bh_offset h) + unat (bh_size h) + 5"
  shows "ReadBlock P R direct f options h = Some (Corruption (str ''truncated block read'') [], BlockContents_empty)"
  using read [OF f off, of "unat (bh_size h) + 5" "[]"] n short off
  by (simp add: ReadBlock_def trailer_end_def kBlockTrailerSize_def Let_def new_char_array_throws_def)

lemma ReadBlock_throws: "2 ^ 63 \<le> trailer_end (unat (bh_size h)) \<Longrightarrow> ReadBlock P R direct f options h = None"
  by (simp add: ReadBlock_def new_char_array_throws_def Let_def)

lemma ReadBlock_wraps:
  assumes f: "rok f" and off: "unat (bh_offset h) + 5 \<le> length (contents f)"
    and n: "2 ^ 64 - 5 \<le> unat (bh_size h)"
  shows "ReadBlock P R direct f options h = None"
proof -
  have l: "unat (bh_size h) < 2 ^ 64" using unsigned_less [of "bh_size h", where 'a = nat] by simp
  have e: "trailer_end (unat (bh_size h)) = unat (bh_size h) + 5 - 2 ^ 64"
    unfolding trailer_end_def kBlockTrailerSize_def by (subst mod_if, subst mod_less) (use n l in auto)
  moreover have "unat (bh_size h) + 5 - 2 ^ 64 < 5" using l by simp
  ultimately show ?thesis
    using read [OF f, of "bh_offset h" "trailer_end (unat (bh_size h))" "[]"] off l
    by (simp add: ReadBlock_def kBlockTrailerSize_def Let_def)
qed

end


lemma mem_random_file_with:
  assumes "length d < 2 ^ 64"
  obtains e p where "good_ptr e p" "the (bytes_at e p) = d"
proof -
  obtain f where "good_ptr (fst f) (snd f)" "the (bytes_at (fst f) (snd f)) = d"
    using mem_writable.append [of "(empty_file_env, Some 0)" d "\<lambda>i j. 0"] assms empty_file_env by fastforce
  then show thesis by (rule that)
qed


end
