(* ===== verification/FilterBlock.thy ===== *)
theory FilterBlock
  imports Dbformat Coding
begin

text \<open>
  The filter block of a table (\<open>table/filter_block.h\<close>, \<open>table/filter_block.cc\<close>): one filter per 2 KB of
  file offsets. The policy is given by its two operations; the lemmas use only its contract.
\<close>

subsection \<open>The builder\<close>

definition kFilterBaseLg :: nat where "kFilterBaseLg = 11"
definition kFilterBase :: nat where "kFilterBase = 2 ^ kFilterBaseLg"

record FilterBlockBuilder =
  fb_keys :: bytes
  fb_start :: "nat list"
  fb_result :: bytes
  fb_tmp_keys :: "slice list"
  fb_filter_offsets :: "u32 list"

definition FilterBlockBuilder_new :: FilterBlockBuilder where
  "FilterBlockBuilder_new =
     \<lparr>fb_keys = [], fb_start = [], fb_result = [], fb_tmp_keys = [], fb_filter_offsets = []\<rparr>"

definition GenerateFilter ::
  "(slice list \<Rightarrow> bytes \<Rightarrow> bytes) \<Rightarrow> FilterBlockBuilder \<Rightarrow> FilterBlockBuilder" where
  "GenerateFilter create b =
     (let num_keys = length (fb_start b) in
      if num_keys = 0
      then b\<lparr>fb_filter_offsets := fb_filter_offsets b @ [of_nat (length (fb_result b))]\<rparr>
      else
        let start = fb_start b @ [length (fb_keys b)];
            tmp_keys = map (\<lambda>i. take (start ! (i + 1) - start ! i) (drop (start ! i) (fb_keys b))) [0..<num_keys]
        in b\<lparr>fb_filter_offsets := fb_filter_offsets b @ [of_nat (length (fb_result b))],
             fb_result := create tmp_keys (fb_result b),
             fb_tmp_keys := [], fb_keys := [], fb_start := []\<rparr>)"

lemma length_GenerateFilter [simp]:
  "length (fb_filter_offsets (GenerateFilter create b)) = Suc (length (fb_filter_offsets b))"
  by (simp add: GenerateFilter_def Let_def)

function StartBlock_loop ::
  "(slice list \<Rightarrow> bytes \<Rightarrow> bytes) \<Rightarrow> nat \<Rightarrow> FilterBlockBuilder \<Rightarrow> FilterBlockBuilder" where
  "StartBlock_loop create filter_index b =
     (if filter_index > length (fb_filter_offsets b)
      then StartBlock_loop create filter_index (GenerateFilter create b) else b)"
  by pat_completeness auto
termination by (relation "measure (\<lambda>(c, i, b). i - length (fb_filter_offsets b))") auto

declare StartBlock_loop.simps [simp del]

definition StartBlock ::
  "(slice list \<Rightarrow> bytes \<Rightarrow> bytes) \<Rightarrow> FilterBlockBuilder \<Rightarrow> u64 \<Rightarrow> FilterBlockBuilder" where
  "StartBlock create b block_offset = StartBlock_loop create (unat block_offset div kFilterBase) b"

definition FilterBlock_AddKey :: "FilterBlockBuilder \<Rightarrow> slice \<Rightarrow> FilterBlockBuilder" where
  "FilterBlock_AddKey b key =
     b\<lparr>fb_start := fb_start b @ [length (fb_keys b)], fb_keys := fb_keys b @ key\<rparr>"

definition FilterBlock_Finish ::
  "(slice list \<Rightarrow> bytes \<Rightarrow> bytes) \<Rightarrow> FilterBlockBuilder \<Rightarrow> slice \<times> FilterBlockBuilder" where
  "FilterBlock_Finish create b =
     (let b = (if fb_start b \<noteq> [] then GenerateFilter create b else b);
          array_offset = of_nat (length (fb_result b)) :: u32;
          result = fold (\<lambda>offset r. PutFixed32 r offset) (fb_filter_offsets b) (fb_result b);
          result = PutFixed32 result array_offset;
          result = result @ [of_nat kFilterBaseLg]
      in (result, b\<lparr>fb_result := result\<rparr>))"

subsection \<open>The reader\<close>

text \<open>
  Pointers into the contents are offsets from its start. A shift of a 64-bit value by 64 or more has no
  defined result.
\<close>

record FilterBlockReader =
  fr_data :: bytes
  fr_offset :: nat
  fr_num :: nat
  fr_base_lg :: nat

definition FilterBlockReader_new :: "slice \<Rightarrow> FilterBlockReader" where
  "FilterBlockReader_new contents =
     (let r = \<lparr>fr_data = [], fr_offset = 0, fr_num = 0, fr_base_lg = 0\<rparr>;
          n = length contents
      in if n < 5 then r
         else
           let r = r\<lparr>fr_base_lg := unat (scast (contents ! (n - 1)) :: u64)\<rparr>;
               last_word = unat (DecodeFixed32 (drop (n - 5) contents))
           in if last_word > n - 5 then r
              else r\<lparr>fr_data := contents, fr_offset := last_word, fr_num := (n - 5 - last_word) div 4\<rparr>)"

definition FilterBlock_KeyMayMatch ::
  "(slice \<Rightarrow> slice \<Rightarrow> bool) \<Rightarrow> FilterBlockReader \<Rightarrow> u64 \<Rightarrow> slice \<Rightarrow> bool option" where
  "FilterBlock_KeyMayMatch may_match r block_offset key =
     (if fr_base_lg r \<ge> 64 then None
      else
        let index = unat (drop_bit (fr_base_lg r) block_offset) in
        if index < fr_num r
        then
          let start = unat (DecodeFixed32 (drop (fr_offset r + index * 4) (fr_data r)));
              limit = unat (DecodeFixed32 (drop (fr_offset r + index * 4 + 4) (fr_data r)))
          in if start \<le> limit \<and> limit \<le> fr_offset r
             then Some (may_match key (take (limit - start) (drop start (fr_data r))))
             else if start = limit then Some False else Some True
        else Some True)"

subsection \<open>What the builder holds\<close>

text \<open>
  \<open>holds b made cur\<close>: the filters of the key lists \<open>made\<close> are in the result, and the keys \<open>cur\<close> wait for the
  next filter.
\<close>

definition filter_bytes_of :: "(slice list \<Rightarrow> bytes \<Rightarrow> bytes) \<Rightarrow> slice list \<Rightarrow> bytes" where
  "filter_bytes_of create ks = (if ks = [] then [] else create ks [])"

definition filters_bytes :: "(slice list \<Rightarrow> bytes \<Rightarrow> bytes) \<Rightarrow> slice list list \<Rightarrow> bytes" where
  "filters_bytes create kss = concat (map (filter_bytes_of create) kss)"

definition starts :: "slice list \<Rightarrow> nat list" where
  "starts ks = map (\<lambda>i. length (concat (take i ks))) [0..<length ks]"

definition holds :: "(slice list \<Rightarrow> bytes \<Rightarrow> bytes) \<Rightarrow> FilterBlockBuilder \<Rightarrow> slice list list \<Rightarrow> slice list \<Rightarrow> bool" where
  "holds create b made cur \<longleftrightarrow>
     fb_keys b = concat cur \<and> fb_start b = starts cur \<and> fb_result b = filters_bytes create made \<and>
     fb_filter_offsets b = map (\<lambda>i. of_nat (length (filters_bytes create (take i made)))) [0..<length made]"

lemma length_starts [simp]: "length (starts ks) = length ks"
  by (simp add: starts_def)

lemma starts_snoc: "starts (ks @ [k]) = starts ks @ [length (concat ks)]"
  by (simp add: starts_def)

lemma starts_nth: "i \<le> length ks \<Longrightarrow> (starts ks @ [length (concat ks)]) ! i = length (concat (take i ks))"
  by (auto simp: starts_def nth_append)

lemma tmp_keys_eq:
  "map (\<lambda>i. take ((starts ks @ [length (concat ks)]) ! (i + 1) - (starts ks @ [length (concat ks)]) ! i)
      (drop ((starts ks @ [length (concat ks)]) ! i) (concat ks))) [0..<length ks] = ks"
proof (rule nth_equalityI)
  fix i assume "i < length (map (\<lambda>i. take ((starts ks @ [length (concat ks)]) ! (i + 1) - (starts ks @ [length (concat ks)]) ! i)
      (drop ((starts ks @ [length (concat ks)]) ! i) (concat ks))) [0..<length ks])"
  then have i: "i < length ks" by simp
  have "concat ks = concat (take i ks) @ ks ! i @ concat (drop (Suc i) ks)"
    by (subst id_take_nth_drop [OF i]) simp
  then show "map (\<lambda>i. take ((starts ks @ [length (concat ks)]) ! (i + 1) - (starts ks @ [length (concat ks)]) ! i)
      (drop ((starts ks @ [length (concat ks)]) ! i) (concat ks))) [0..<length ks] ! i = ks ! i"
    using i starts_nth [of i ks] starts_nth [of "Suc i" ks] by (simp add: take_Suc_conv_app_nth)
qed simp

lemma holds_new: "holds create FilterBlockBuilder_new [] []"
  by (simp add: holds_def FilterBlockBuilder_new_def filters_bytes_def starts_def)

lemma holds_AddKey: "holds create b made cur \<Longrightarrow> holds create (FilterBlock_AddKey b k) made (cur @ [k])"
  by (simp add: holds_def FilterBlock_AddKey_def starts_snoc)

lemma filters_bytes_snoc: "filters_bytes create (kss @ [ks]) = filters_bytes create kss @ filter_bytes_of create ks"
  by (simp add: filters_bytes_def)

lemma offsets_snoc:
  "map (\<lambda>i. of_nat (length (filters_bytes create (take i (made @ [cur]))))) [0..<length (made @ [cur])] =
   map (\<lambda>i. of_nat (length (filters_bytes create (take i made)))) [0..<length made] @
     [of_nat (length (filters_bytes create made))]"
  by simp

text \<open>The keys of the filter with a given index.\<close>

definition keys_at :: "slice list list \<Rightarrow> slice list \<Rightarrow> nat \<Rightarrow> slice list" where
  "keys_at made cur j = (if j < length made then made ! j else if j = length made then cur else [])"

lemma keys_at_snoc: "keys_at (made @ [cur]) [] = keys_at made cur"
  by (auto simp: keys_at_def nth_append)

lemma fold_PutFixed32: "fold (\<lambda>offset r. PutFixed32 r offset) os r = r @ concat (map EncodeFixed32 os)"
  by (induction os arbitrary: r) (simp_all add: PutFixed32_def)

lemma length_fixed_array: "length (concat (map EncodeFixed32 ws)) = 4 * length ws"
  by (induction ws) simp_all

lemma DecodeFixed32_array:
  assumes "i < length ws"
  shows "DecodeFixed32 (drop (i * 4) (concat (map EncodeFixed32 ws) @ rest)) = ws ! i"
proof -
  have "concat (map EncodeFixed32 ws) = concat (map EncodeFixed32 (take i ws)) @ EncodeFixed32 (ws ! i) @
      concat (map EncodeFixed32 (drop (Suc i) ws))"
    by (subst id_take_nth_drop [OF assms]) simp
  moreover have "length (concat (map EncodeFixed32 (take i ws))) = i * 4"
    using assms by (simp add: length_fixed_array)
  ultimately show ?thesis by simp
qed

text \<open>The calls a table builder makes: start each block at its offset, then add its keys.\<close>

definition add_block :: "(slice list \<Rightarrow> bytes \<Rightarrow> bytes) \<Rightarrow> u64 \<times> slice list \<Rightarrow> FilterBlockBuilder \<Rightarrow> FilterBlockBuilder" where
  "add_block create = (\<lambda>(off, ks) b. fold (\<lambda>k b. FilterBlock_AddKey b k) ks (StartBlock create b off))"

definition build_filter_block :: "(slice list \<Rightarrow> bytes \<Rightarrow> bytes) \<Rightarrow> (u64 \<times> slice list) list \<Rightarrow> slice" where
  "build_filter_block create blocks =
     fst (FilterBlock_Finish create (fold (add_block create) blocks FilterBlockBuilder_new))"

context filter_policy
begin

lemma holds_GenerateFilter:
  assumes "holds create b made cur"
  shows "holds create (GenerateFilter create b) (made @ [cur]) []"
proof (cases "cur = []")
  case True
  then show ?thesis
    using assms unfolding holds_def offsets_snoc
    by (simp add: GenerateFilter_def starts_def filters_bytes_snoc filter_bytes_of_def)
next
  case False
  have "fb_start b = starts cur" "fb_keys b = concat cur" using assms by (simp_all add: holds_def)
  then show ?thesis
    using assms False unfolding holds_def offsets_snoc
    by (simp add: GenerateFilter_def tmp_keys_eq [simplified] Let_def filters_bytes_snoc filter_bytes_of_def
        starts_def [of "[]"] flip: create_append)
qed

lemma holds_StartBlock_loop:
  "holds create b made cur \<Longrightarrow> length made \<le> i \<Longrightarrow>
   \<exists>made' cur'. holds create (StartBlock_loop create i b) made' cur' \<and> length made' = i \<and>
     keys_at made' cur' = keys_at made cur"
proof (induction "i - length made" arbitrary: b made cur)
  case 0
  then have "length (fb_filter_offsets b) = i" by (simp add: holds_def)
  with 0 show ?case by (subst StartBlock_loop.simps) auto
next
  case (Suc n)
  have l: "length (fb_filter_offsets b) = length made" using Suc.prems(1) by (simp add: holds_def)
  have n: "n = i - length (made @ [cur])" "length (made @ [cur]) \<le> i" using Suc.hyps(2) by auto
  from Suc.hyps(1) [OF n(1) holds_GenerateFilter [OF Suc.prems(1)] n(2)] show ?case
    using Suc.hyps(2) by (subst StartBlock_loop.simps) (auto simp: l keys_at_snoc)
qed

lemma holds_StartBlock:
  assumes "holds create b made cur" "length made \<le> unat off div 2048"
  obtains made' cur' where "holds create (StartBlock create b off) made' cur'"
    "length made' = unat off div 2048" "keys_at made' cur' = keys_at made cur"
  using holds_StartBlock_loop [OF assms] by (auto simp: StartBlock_def kFilterBase_def kFilterBaseLg_def)

lemma holds_AddKeys:
  "holds create b made cur \<Longrightarrow> holds create (fold (\<lambda>k b. FilterBlock_AddKey b k) ks b) made (cur @ ks)"
proof (induction ks arbitrary: b cur)
  case (Cons k ks)
  from Cons.IH [OF holds_AddKey [OF Cons.prems]] show ?case by simp
qed simp

lemma Finish_bytes:
  assumes "holds create b made cur"
  obtains made' where "keys_at made' [] = keys_at made cur" "length made \<le> length made'"
    "fst (FilterBlock_Finish create b) = filters_bytes create made' @
       concat (map EncodeFixed32 (map (\<lambda>i. of_nat (length (filters_bytes create (take i made')))) [0..<Suc (length made')])) @ [11]"
proof -
  define b' made' where "b' = (if fb_start b \<noteq> [] then GenerateFilter create b else b)"
    and "made' = (if cur = [] then made else made @ [cur])"
  have "fb_start b = [] \<longleftrightarrow> cur = []" using assms by (auto simp: holds_def simp flip: length_0_conv)
  then have "holds create b' made' []"
    using assms holds_GenerateFilter [OF assms] by (auto simp: b'_def made'_def)
  moreover have "fst (FilterBlock_Finish create b) = fb_result b' @ concat (map EncodeFixed32 (fb_filter_offsets b')) @
      EncodeFixed32 (of_nat (length (fb_result b'))) @ [11]"
    by (simp add: FilterBlock_Finish_def Let_def kFilterBaseLg_def fold_PutFixed32 flip: b'_def) (simp add: PutFixed32_def)
  ultimately show thesis
    by (intro that [of made']) (auto simp: made'_def keys_at_snoc holds_def comp_def)
qed

lemma filters_bytes_split:
  "i < length made \<Longrightarrow> filters_bytes create made =
     filters_bytes create (take i made) @ filter_bytes_of create (made ! i) @ filters_bytes create (drop (Suc i) made)"
  by (subst id_take_nth_drop [of i made]) (simp_all add: filters_bytes_def)

lemma reader_match:
  assumes c: "contents = filters_bytes create made @
       concat (map EncodeFixed32 (map (\<lambda>i. of_nat (length (filters_bytes create (take i made)))) [0..<Suc (length made)])) @ [11]"
    and len: "length contents < 2 ^ 32" and i: "unat off div 2048 < length made"
  shows "FilterBlock_KeyMayMatch may_match (FilterBlockReader_new contents) off key =
     Some (may_match key (filter_bytes_of create (made ! (unat off div 2048))))"
proof -
  let ?F = "filters_bytes create made" and ?i = "unat off div 2048"
  let ?len = "\<lambda>i. length (filters_bytes create (take i made))"
  define ws :: "u32 list" where "ws = map (\<lambda>i. of_nat (?len i)) [0..<Suc (length made)]"
  have lw: "length ws = Suc (length made)" by (simp add: ws_def)
  have c': "contents = ?F @ concat (map EncodeFixed32 ws) @ [11]" using c by (simp add: ws_def)
  have n: "length contents = length ?F + 4 * length made + 5" by (simp add: c' length_fixed_array lw)
  have le: "?len j \<le> length ?F" if "j \<le> length made" for j
  proof -
    have "filters_bytes create (take j made @ drop j made) = filters_bytes create (take j made) @ filters_bytes create (drop j made)"
      unfolding filters_bytes_def by (simp only: map_append concat_append)
    then show ?thesis by simp
  qed
  have w: "unat (ws ! j) = ?len j" if "j \<le> length made" for j
  proof -
    have "?len j < 2 ^ 32" using le [OF that] n len by simp
    moreover have "ws ! j = of_nat (?len j)" using that by (simp add: ws_def del: upt_Suc)
    ultimately show ?thesis by (simp add: unat_of_nat)
  qed
  have at: "DecodeFixed32 (drop (length ?F + j * 4) contents) = ws ! j" if "j \<le> length made" for j
    using DecodeFixed32_array [of j ws "[11]"] that by (simp add: c' lw add.commute [of "length ?F"] flip: drop_drop)
  have "DecodeFixed32 (drop (length contents - 5) contents) = ws ! length made"
    using at [of "length made"] by (simp add: n algebra_simps)
  then have last: "unat (DecodeFixed32 (drop (length contents - 5) contents)) = length ?F"
    using w [of "length made"] by simp
  have r: "FilterBlockReader_new contents =
      \<lparr>fr_data = contents, fr_offset = length ?F, fr_num = length made, fr_base_lg = 11\<rparr>"
  proof -
    have "contents ! (length contents - 1) = 11" unfolding c' by (simp add: nth_append)
    then show ?thesis using last n by (simp add: FilterBlockReader_new_def Let_def)
  qed
  have ix: "unat (drop_bit 11 off) = ?i" by (simp add: drop_bit_eq_div unat_div)
  have "?len (Suc ?i) - ?len ?i = length (filter_bytes_of create (made ! ?i))"
    using i by (simp add: take_Suc_conv_app_nth filters_bytes_snoc)
  moreover have "?len ?i \<le> ?len (Suc ?i)" using i by (simp add: take_Suc_conv_app_nth filters_bytes_snoc)
  moreover have "take (length (filter_bytes_of create (made ! ?i))) (drop (?len ?i) contents) = filter_bytes_of create (made ! ?i)"
    unfolding c' by (subst filters_bytes_split [OF i]) simp
  ultimately show ?thesis
    using at [of ?i] at [of "Suc ?i"] w [of ?i] w [of "Suc ?i"] le [of "Suc ?i"] i
    by (simp add: FilterBlock_KeyMayMatch_def r ix Let_def algebra_simps)
qed

lemma finished_match:
  assumes b: "holds create b made cur" and len: "length (fst (FilterBlock_Finish create b)) < 2 ^ 32"
    and k: "key \<in> set (keys_at made cur (unat off div 2048))" and ok: "ok (keys_at made cur (unat off div 2048))"
  shows "FilterBlock_KeyMayMatch may_match (FilterBlockReader_new (fst (FilterBlock_Finish create b))) off key = Some True"
proof -
  obtain made' where m: "keys_at made' [] = keys_at made cur"
    and c: "fst (FilterBlock_Finish create b) = filters_bytes create made' @
       concat (map EncodeFixed32 (map (\<lambda>i. of_nat (length (filters_bytes create (take i made')))) [0..<Suc (length made')])) @ [11]"
    using Finish_bytes [OF b] by metis
  have "key \<in> set (keys_at made' [] (unat off div 2048))" using k m by simp
  then have i: "unat off div 2048 < length made'" by (auto simp: keys_at_def split: if_splits)
  then have e: "made' ! (unat off div 2048) = keys_at made cur (unat off div 2048)"
    using fun_cong [OF m, of "unat off div 2048"] by (simp add: keys_at_def)
  then have "may_match key (filter_bytes_of create (made' ! (unat off div 2048)))"
    using k ok by (auto simp: filter_bytes_of_def may_match_create)
  then show ?thesis using reader_match [OF c len i] by simp
qed

lemma build_holds:
  assumes "holds create b made cur" "\<forall>(off, ks) \<in> set blocks. length made \<le> unat off div 2048"
    "sorted (map (unat \<circ> fst) blocks)"
  shows "\<exists>made' cur'. holds create (fold (add_block create) blocks b) made' cur' \<and>
     (\<forall>i. set (keys_at made cur i) \<subseteq> set (keys_at made' cur' i)) \<and>
     (\<forall>(off, ks) \<in> set blocks. set ks \<subseteq> set (keys_at made' cur' (unat off div 2048))) \<and>
     (\<forall>i. length (keys_at made' cur' i) \<le> length (keys_at made cur i) + length (concat (map snd blocks)))"
  using assms
proof (induction blocks arbitrary: b made cur)
  case (Cons blk blocks)
  obtain off ks where blk: "blk = (off, ks)" by (cases blk)
  obtain m c where m: "holds create (StartBlock create b off) m c" "length m = unat off div 2048"
    "keys_at m c = keys_at made cur"
    using holds_StartBlock [OF Cons.prems(1), of off] Cons.prems(2) by (auto simp: blk)
  have later: "\<forall>(off', ks') \<in> set blocks. length m \<le> unat off' div 2048"
    using Cons.prems(3) m(2) by (auto simp: blk div_le_mono)
  have ab: "add_block create blk b = fold (\<lambda>k b. FilterBlock_AddKey b k) ks (StartBlock create b off)"
    by (simp add: add_block_def blk)
  obtain made' cur' where r: "holds create (fold (add_block create) blocks (add_block create blk b)) made' cur'"
    "\<forall>i. set (keys_at m (c @ ks) i) \<subseteq> set (keys_at made' cur' i)"
    "\<forall>(off, ks) \<in> set blocks. set ks \<subseteq> set (keys_at made' cur' (unat off div 2048))"
    "\<forall>i. length (keys_at made' cur' i) \<le> length (keys_at m (c @ ks) i) + length (concat (map snd blocks))"
    using Cons.IH [OF holds_AddKeys [OF m(1), of ks] later] Cons.prems(3) unfolding ab by auto
  have sub: "set (keys_at made cur i) \<subseteq> set (keys_at m (c @ ks) i)"
    "length (keys_at m (c @ ks) i) \<le> length (keys_at made cur i) + length ks" for i
    using m(3) [symmetric] by (auto simp: keys_at_def)
  have "set ks \<subseteq> set (keys_at m (c @ ks) (unat off div 2048))" by (simp add: keys_at_def m(2))
  then have "\<forall>(off, ks) \<in> set (blk # blocks). set ks \<subseteq> set (keys_at made' cur' (unat off div 2048))"
    using r(2,3) by (fastforce simp: blk)
  moreover have "length (keys_at made' cur' i) \<le> length (keys_at made cur i) + length (concat (map snd (blk # blocks)))" for i
    using r(4) [rule_format, of i] sub(2) [of i] by (simp add: blk)
  moreover have "set (keys_at made cur i) \<subseteq> set (keys_at made' cur' i)" for i
    using r(2) sub(1) [of i] by blast
  ultimately show ?case using r(1) by auto
qed auto

lemma build_match:
  assumes blocks: "sorted (map (unat \<circ> fst) blocks)" "(off, ks) \<in> set blocks" "key \<in> set ks"
    and ok: "\<And>keys. length keys \<le> length (concat (map snd blocks)) \<Longrightarrow> ok keys"
    and len: "length (build_filter_block create blocks) < 2 ^ 32"
  shows "FilterBlock_KeyMayMatch may_match (FilterBlockReader_new (build_filter_block create blocks)) off key = Some True"
proof -
  obtain made cur where h: "holds create (fold (add_block create) blocks FilterBlockBuilder_new) made cur"
    and k: "\<forall>(off, ks) \<in> set blocks. set ks \<subseteq> set (keys_at made cur (unat off div 2048))"
    and l: "\<forall>i. length (keys_at made cur i) \<le> length (keys_at [] [] i) + length (concat (map snd blocks))"
    using build_holds [OF holds_new, of blocks] blocks(1) by auto
  have "length (keys_at made cur i) \<le> length (concat (map snd blocks))" for i
    using l [rule_format, of i] by (simp add: keys_at_def)
  moreover have "key \<in> set (keys_at made cur (unat off div 2048))" using k blocks(2,3) by blast
  ultimately show ?thesis
    using finished_match [OF h, of key off] len ok by (simp add: build_filter_block_def)
qed

end

abbreviation internal_bloom_create :: "int \<Rightarrow> slice list \<Rightarrow> bytes \<Rightarrow> bytes" where
  "internal_bloom_create n \<equiv> InternalFilterPolicy_CreateFilter (CreateFilter (NewBloomFilterPolicy n))"


lemma length_internal_bloom_create:
  "length keys < 2 ^ 31 \<Longrightarrow>
   length (internal_bloom_create 10 keys dst) = length dst + filter_bytes (NewBloomFilterPolicy 10) (length keys) + 1"
  using CreateFilter_append [of "NewBloomFilterPolicy 10" "map ExtractUserKey keys" dst]
    NewBloomFilterPolicy_ok [of 10 "length keys"]
  by (simp add: InternalFilterPolicy_CreateFilter_def CreateFilter_eq)


end
