(* ===== verification/TwoLevel.thy ===== *)
theory TwoLevel
  imports Iterators
begin

text \<open>
  \<open>TwoLevelIterator\<close> (\<open>table/two_level_iterator.cc\<close>): an index iterator whose values are handles and a
  function that opens the block of a handle give an iterator over the concatenation of the blocks.
  \<open>I\<close> and \<open>D\<close> are the classes of the two iterators; \<open>block_function\<close> is the function with its argument and
  options already given, \<open>None\<close> if it has no defined result. The classes under the wrappers are used
  through \<open>WrapperIterator\<close>.
\<close>

subsection \<open>The iterator\<close>

record ('i, 'd) TwoLevelIterator =
  tl_status :: Status
  tl_index_iter :: "'i IteratorWrapper"
  tl_data_iter :: "'d IteratorWrapper"
  tl_data_block_handle :: bytes

definition NewTwoLevelIterator :: "'i Iterator \<Rightarrow> 'i \<Rightarrow> ('i, 'd) TwoLevelIterator" where
  "NewTwoLevelIterator I index_iter =
     \<lparr>tl_status = OK, tl_index_iter = Wrapper_Set I Wrapper_empty (Some index_iter),
      tl_data_iter = Wrapper_empty, tl_data_block_handle = []\<rparr>"

definition TwoLevel_SaveError :: "('i, 'd) TwoLevelIterator \<Rightarrow> Status \<Rightarrow> ('i, 'd) TwoLevelIterator" where
  "TwoLevel_SaveError it s = (if Status_ok (tl_status it) \<and> \<not> Status_ok s then it\<lparr>tl_status := s\<rparr> else it)"

definition SetDataIterator ::
  "'d Iterator \<Rightarrow> ('i, 'd) TwoLevelIterator \<Rightarrow> 'd option \<Rightarrow> ('i, 'd) TwoLevelIterator" where
  "SetDataIterator D it data_iter =
     (let it = (if w_iter (tl_data_iter it) \<noteq> None
                then TwoLevel_SaveError it (it_status (WrapperIterator D) (tl_data_iter it)) else it)
      in it\<lparr>tl_data_iter := Wrapper_Set D (tl_data_iter it) data_iter\<rparr>)"

definition InitDataBlock :: "'i Iterator \<Rightarrow> 'd Iterator \<Rightarrow> (slice \<Rightarrow> 'd option) \<Rightarrow>
    ('i, 'd) TwoLevelIterator \<Rightarrow> ('i, 'd) TwoLevelIterator option" where
  "InitDataBlock I D block_function it =
     (if \<not> it_Valid (WrapperIterator I) (tl_index_iter it) then Some (SetDataIterator D it None)
      else
        let handle = it_value (WrapperIterator I) (tl_index_iter it) in
        if w_iter (tl_data_iter it) \<noteq> None \<and> Slice_compare handle (tl_data_block_handle it) = 0
        then Some it
        else do {
          iter \<leftarrow> block_function handle;
          Some (SetDataIterator D (it\<lparr>tl_data_block_handle := handle\<rparr>) (Some iter))
        })"

text \<open>A move of the data iterator, if there is one.\<close>

definition move_data :: "('d IteratorWrapper \<Rightarrow> 'd IteratorWrapper option) \<Rightarrow>
    ('i, 'd) TwoLevelIterator \<Rightarrow> ('i, 'd) TwoLevelIterator option" where
  "move_data move it =
     (if w_iter (tl_data_iter it) \<noteq> None
      then do { w \<leftarrow> move (tl_data_iter it); Some (it\<lparr>tl_data_iter := w\<rparr>) }
      else Some it)"

definition move_index :: "('i IteratorWrapper \<Rightarrow> 'i IteratorWrapper option) \<Rightarrow>
    ('i, 'd) TwoLevelIterator \<Rightarrow> ('i, 'd) TwoLevelIterator option" where
  "move_index move it = do { w \<leftarrow> move (tl_index_iter it); Some (it\<lparr>tl_index_iter := w\<rparr>) }"

partial_function (option) SkipEmptyDataBlocksForward :: "'i Iterator \<Rightarrow> 'd Iterator \<Rightarrow> (slice \<Rightarrow> 'd option) \<Rightarrow>
    ('i, 'd) TwoLevelIterator \<Rightarrow> ('i, 'd) TwoLevelIterator option" where
  "SkipEmptyDataBlocksForward I D block_function it =
     (if w_iter (tl_data_iter it) = None \<or> \<not> it_Valid (WrapperIterator D) (tl_data_iter it)
      then
        if \<not> it_Valid (WrapperIterator I) (tl_index_iter it) then Some (SetDataIterator D it None)
        else do {
          it \<leftarrow> move_index (it_Next (WrapperIterator I)) it;
          it \<leftarrow> InitDataBlock I D block_function it;
          it \<leftarrow> move_data (it_SeekToFirst (WrapperIterator D)) it;
          SkipEmptyDataBlocksForward I D block_function it
        }
      else Some it)"

partial_function (option) SkipEmptyDataBlocksBackward :: "'i Iterator \<Rightarrow> 'd Iterator \<Rightarrow> (slice \<Rightarrow> 'd option) \<Rightarrow>
    ('i, 'd) TwoLevelIterator \<Rightarrow> ('i, 'd) TwoLevelIterator option" where
  "SkipEmptyDataBlocksBackward I D block_function it =
     (if w_iter (tl_data_iter it) = None \<or> \<not> it_Valid (WrapperIterator D) (tl_data_iter it)
      then
        if \<not> it_Valid (WrapperIterator I) (tl_index_iter it) then Some (SetDataIterator D it None)
        else do {
          it \<leftarrow> move_index (it_Prev (WrapperIterator I)) it;
          it \<leftarrow> InitDataBlock I D block_function it;
          it \<leftarrow> move_data (it_SeekToLast (WrapperIterator D)) it;
          SkipEmptyDataBlocksBackward I D block_function it
        }
      else Some it)"

definition TwoLevel_Seek :: "'i Iterator \<Rightarrow> 'd Iterator \<Rightarrow> (slice \<Rightarrow> 'd option) \<Rightarrow>
    ('i, 'd) TwoLevelIterator \<Rightarrow> slice \<Rightarrow> ('i, 'd) TwoLevelIterator option" where
  "TwoLevel_Seek I D block_function it target = do {
     it \<leftarrow> move_index (\<lambda>w. it_Seek (WrapperIterator I) w target) it;
     it \<leftarrow> InitDataBlock I D block_function it;
     it \<leftarrow> move_data (\<lambda>w. it_Seek (WrapperIterator D) w target) it;
     SkipEmptyDataBlocksForward I D block_function it
   }"

definition TwoLevel_SeekToFirst :: "'i Iterator \<Rightarrow> 'd Iterator \<Rightarrow> (slice \<Rightarrow> 'd option) \<Rightarrow>
    ('i, 'd) TwoLevelIterator \<Rightarrow> ('i, 'd) TwoLevelIterator option" where
  "TwoLevel_SeekToFirst I D block_function it = do {
     it \<leftarrow> move_index (it_SeekToFirst (WrapperIterator I)) it;
     it \<leftarrow> InitDataBlock I D block_function it;
     it \<leftarrow> move_data (it_SeekToFirst (WrapperIterator D)) it;
     SkipEmptyDataBlocksForward I D block_function it
   }"

definition TwoLevel_SeekToLast :: "'i Iterator \<Rightarrow> 'd Iterator \<Rightarrow> (slice \<Rightarrow> 'd option) \<Rightarrow>
    ('i, 'd) TwoLevelIterator \<Rightarrow> ('i, 'd) TwoLevelIterator option" where
  "TwoLevel_SeekToLast I D block_function it = do {
     it \<leftarrow> move_index (it_SeekToLast (WrapperIterator I)) it;
     it \<leftarrow> InitDataBlock I D block_function it;
     it \<leftarrow> move_data (it_SeekToLast (WrapperIterator D)) it;
     SkipEmptyDataBlocksBackward I D block_function it
   }"

definition TwoLevel_Next :: "'i Iterator \<Rightarrow> 'd Iterator \<Rightarrow> (slice \<Rightarrow> 'd option) \<Rightarrow>
    ('i, 'd) TwoLevelIterator \<Rightarrow> ('i, 'd) TwoLevelIterator option" where
  "TwoLevel_Next I D block_function it = do {
     w \<leftarrow> it_Next (WrapperIterator D) (tl_data_iter it);
     SkipEmptyDataBlocksForward I D block_function (it\<lparr>tl_data_iter := w\<rparr>)
   }"

definition TwoLevel_Prev :: "'i Iterator \<Rightarrow> 'd Iterator \<Rightarrow> (slice \<Rightarrow> 'd option) \<Rightarrow>
    ('i, 'd) TwoLevelIterator \<Rightarrow> ('i, 'd) TwoLevelIterator option" where
  "TwoLevel_Prev I D block_function it = do {
     w \<leftarrow> it_Prev (WrapperIterator D) (tl_data_iter it);
     SkipEmptyDataBlocksBackward I D block_function (it\<lparr>tl_data_iter := w\<rparr>)
   }"

definition TwoLevel_get_status :: "'i Iterator \<Rightarrow> 'd Iterator \<Rightarrow> ('i, 'd) TwoLevelIterator \<Rightarrow> Status" where
  "TwoLevel_get_status I D it =
     (if \<not> Status_ok (it_status (WrapperIterator I) (tl_index_iter it))
      then it_status (WrapperIterator I) (tl_index_iter it)
      else if w_iter (tl_data_iter it) \<noteq> None \<and> \<not> Status_ok (it_status (WrapperIterator D) (tl_data_iter it))
      then it_status (WrapperIterator D) (tl_data_iter it)
      else tl_status it)"

definition TwoLevelIterator_class :: "'i Iterator \<Rightarrow> 'd Iterator \<Rightarrow> (slice \<Rightarrow> 'd option) \<Rightarrow>
    ('i, 'd) TwoLevelIterator Iterator" where
  "TwoLevelIterator_class I D block_function =
     \<lparr>it_Valid = \<lambda>it. it_Valid (WrapperIterator D) (tl_data_iter it),
      it_SeekToFirst = TwoLevel_SeekToFirst I D block_function,
      it_SeekToLast = TwoLevel_SeekToLast I D block_function,
      it_Seek = TwoLevel_Seek I D block_function,
      it_Next = TwoLevel_Next I D block_function,
      it_Prev = TwoLevel_Prev I D block_function,
      it_key = \<lambda>it. it_key (WrapperIterator D) (tl_data_iter it),
      it_value = \<lambda>it. it_value (WrapperIterator D) (tl_data_iter it),
      it_status = TwoLevel_get_status I D\<rparr>"

subsection \<open>The contract\<close>

text \<open>
  The index shows pairs of a separator and a handle; the block of a handle lies between the separator
  before it and its own. \<open>blk\<close> is the content of the block of a handle, \<open>dinv\<close> and \<open>dat\<close> the contract of
  its iterator.
\<close>

definition wrapped :: "'s Iterator \<Rightarrow> ('s \<Rightarrow> bool) \<Rightarrow> 's IteratorWrapper \<Rightarrow> bool" where
  "wrapped I P w \<longleftrightarrow> wrapper_fresh I w \<and> (\<exists>s. w_iter w = Some s \<and> P s)"

definition no_data :: "('i, 'd) TwoLevelIterator \<Rightarrow> bool" where
  "no_data it \<longleftrightarrow> w_iter (tl_data_iter it) = None \<and> \<not> w_valid (tl_data_iter it)"

definition block_start :: "(slice \<Rightarrow> (slice \<times> slice) list) \<Rightarrow> (slice \<times> slice) list \<Rightarrow> nat \<Rightarrow> nat" where
  "block_start blk idx j = length (concat (map (blk \<circ> snd) (take j idx)))"

locale two_level = comparator cmp ok + index: sorted_iterator I cmp ok idx iinv iat
  for cmp ok and I :: "'i Iterator" and idx iinv iat +
  fixes D :: "'d Iterator" and block_function :: "slice \<Rightarrow> 'd option"
    and blk :: "slice \<Rightarrow> (slice \<times> slice) list"
    and dinv :: "slice \<Rightarrow> 'd \<Rightarrow> bool" and dat :: "slice \<Rightarrow> 'd \<Rightarrow> nat \<Rightarrow> bool"
  assumes blocks: "h \<in> snd ` set idx \<Longrightarrow> sorted_iterator D cmp ok (blk h) (dinv h) (dat h)"
    and opens: "h \<in> snd ` set idx \<Longrightarrow> \<exists>d. block_function h = Some d \<and> dinv h d"
    and below: "j < length idx \<Longrightarrow> kv \<in> set (blk (snd (idx ! j))) \<Longrightarrow> cmp (fst kv) (fst (idx ! j)) \<le> 0"
    and above: "j < j' \<Longrightarrow> j' < length idx \<Longrightarrow> kv \<in> set (blk (snd (idx ! j'))) \<Longrightarrow> cmp (fst (idx ! j)) (fst kv) < 0"

sublocale two_level \<subseteq> windex: sorted_iterator "WrapperIterator I" cmp ok idx "wrapped I iinv" "\<lambda>w i. wrapped I (\<lambda>s. iat s i) w"
  unfolding wrapped_def by (rule index.wrapper_sorted_iterator)

definition tl_mid :: "'i Iterator \<Rightarrow> ('i \<Rightarrow> nat \<Rightarrow> bool) \<Rightarrow> (slice \<times> slice) list \<Rightarrow> 'd Iterator \<Rightarrow> (slice \<Rightarrow> 'd \<Rightarrow> nat \<Rightarrow> bool) \<Rightarrow>
    ('i, 'd) TwoLevelIterator \<Rightarrow> nat \<Rightarrow> nat \<Rightarrow> bool" where
  "tl_mid I iat idx D dat it j i \<longleftrightarrow> tl_status it = OK \<and> wrapped I (\<lambda>s. iat s j) (tl_index_iter it) \<and>
     (if j < length idx
      then tl_data_block_handle it = snd (idx ! j) \<and> wrapped D (\<lambda>d. dat (snd (idx ! j)) d i) (tl_data_iter it)
      else i = 0 \<and> no_data it)"

definition tl_inv :: "'i Iterator \<Rightarrow> ('i \<Rightarrow> bool) \<Rightarrow> (slice \<times> slice) list \<Rightarrow> 'd Iterator \<Rightarrow> (slice \<Rightarrow> 'd \<Rightarrow> bool) \<Rightarrow>
    ('i, 'd) TwoLevelIterator \<Rightarrow> bool" where
  "tl_inv I iinv idx D dinv it \<longleftrightarrow> tl_status it = OK \<and> wrapped I iinv (tl_index_iter it) \<and>
     (no_data it \<or> tl_data_block_handle it \<in> snd ` set idx \<and>
        wrapped D (dinv (tl_data_block_handle it)) (tl_data_iter it))"

definition tl_at :: "'i Iterator \<Rightarrow> ('i \<Rightarrow> nat \<Rightarrow> bool) \<Rightarrow> (slice \<times> slice) list \<Rightarrow> 'd Iterator \<Rightarrow>
    (slice \<Rightarrow> (slice \<times> slice) list) \<Rightarrow> (slice \<Rightarrow> 'd \<Rightarrow> nat \<Rightarrow> bool) \<Rightarrow> ('i, 'd) TwoLevelIterator \<Rightarrow> nat \<Rightarrow> bool" where
  "tl_at I iat idx D blk dat it k \<longleftrightarrow>
     (\<exists>j i. tl_mid I iat idx D dat it j i \<and> j \<le> length idx \<and> (j < length idx \<longrightarrow> i < length (blk (snd (idx ! j)))) \<and>
        k = block_start blk idx j + i)"

lemma block_start_Suc:
  "j < length idx \<Longrightarrow> block_start blk idx (Suc j) = block_start blk idx j + length (blk (snd (idx ! j)))"
  by (simp add: block_start_def take_Suc_conv_app_nth)

lemma block_start_0 [simp]: "block_start blk idx 0 = 0"
  by (simp add: block_start_def)

lemma block_start_all: "length idx \<le> j \<Longrightarrow> block_start blk idx j = length (concat (map (blk \<circ> snd) idx))"
  by (simp add: block_start_def)

lemma concat_split:
  "j < length idx \<Longrightarrow> concat (map (blk \<circ> snd) idx) =
     concat (map (blk \<circ> snd) (take j idx)) @ blk (snd (idx ! j)) @ concat (map (blk \<circ> snd) (drop (Suc j) idx))"
  by (subst id_take_nth_drop [of j idx]) simp_all

lemma concat_nth:
  "j < length idx \<Longrightarrow> i < length (blk (snd (idx ! j))) \<Longrightarrow>
   block_start blk idx j + i < length (concat (map (blk \<circ> snd) idx)) \<and>
   concat (map (blk \<circ> snd) idx) ! (block_start blk idx j + i) = blk (snd (idx ! j)) ! i"
  by (subst (1 2) concat_split [of j idx blk]) (simp_all add: block_start_def nth_append)

lemma takeWhile_three:
  assumes "\<And>x. x \<in> set A \<Longrightarrow> P x" "\<And>x. x \<in> set C \<Longrightarrow> \<not> P x"
  shows "takeWhile P (A @ B @ C) = A @ takeWhile P B"
proof -
  have "takeWhile P (B @ C) = takeWhile P B" using assms(2) by (induction B) (cases C; auto)+
  then show ?thesis using assms(1) by (simp add: takeWhile_append)
qed

lemma no_data_simps [simp]:
  "no_data (it\<lparr>tl_index_iter := w\<rparr>) = no_data it" "no_data (it\<lparr>tl_data_block_handle := h\<rparr>) = no_data it"
  by (simp_all add: no_data_def)

context two_level
begin

lemma wdata:
  "h \<in> snd ` set idx \<Longrightarrow>
   sorted_iterator (WrapperIterator D) cmp ok (blk h) (wrapped D (dinv h)) (\<lambda>w i. wrapped D (\<lambda>d. dat h d i) w)"
  unfolding wrapped_def by (rule sorted_iterator.wrapper_sorted_iterator [OF blocks])

lemma handle_in: "j < length idx \<Longrightarrow> snd (idx ! j) \<in> snd ` set idx"
  by simp

lemma Set_keeps:
  assumes "tl_status it = OK" "no_data it \<or> h \<in> snd ` set idx \<and> wrapped D (dinv h) (tl_data_iter it)"
  shows "SetDataIterator D it d = it\<lparr>tl_data_iter := Wrapper_Set D (tl_data_iter it) d\<rparr>"
proof -
  have "it_status (WrapperIterator D) (tl_data_iter it) = OK" if "\<not> no_data it"
    using sorted_iterator.at_status [OF wdata] assms(2) that by blast
  then show ?thesis
    using assms(1) by (cases "no_data it") (simp_all add: SetDataIterator_def TwoLevel_SaveError_def no_data_def)
qed

lemma Wrapper_Set_None: "no_data (it\<lparr>tl_data_iter := Wrapper_Set D w None\<rparr>)"
  by (simp add: no_data_def Wrapper_Set_def Let_def)

lemma Init:
  assumes s: "tl_status it = OK" and d: "no_data it \<or> h \<in> snd ` set idx \<and> tl_data_block_handle it = h \<and> wrapped D (dinv h) (tl_data_iter it)"
    and w: "wrapped I (\<lambda>s. iat s j) (tl_index_iter it)"
  shows "\<exists>it'. InitDataBlock I D block_function it = Some it' \<and> tl_status it' = OK \<and> tl_index_iter it' = tl_index_iter it \<and>
     (if j < length idx
      then tl_data_block_handle it' = snd (idx ! j) \<and> wrapped D (dinv (snd (idx ! j))) (tl_data_iter it')
      else no_data it')"
proof (cases "j < length idx")
  case False
  then have "\<not> it_Valid (WrapperIterator I) (tl_index_iter it)" using windex.at_valid [OF w] by simp
  moreover have "SetDataIterator D it None = it\<lparr>tl_data_iter := Wrapper_Set D (tl_data_iter it) None\<rparr>"
    using Set_keeps [OF s] d by blast
  ultimately show ?thesis
    using False s Wrapper_Set_None by (simp add: InitDataBlock_def)
next
  case True
  let ?h = "snd (idx ! j)"
  have v: "it_Valid (WrapperIterator I) (tl_index_iter it)" "it_value (WrapperIterator I) (tl_index_iter it) = ?h"
    using windex.at_valid [OF w] windex.at_value [OF w True] True by simp_all
  show ?thesis
  proof (cases "w_iter (tl_data_iter it) \<noteq> None \<and> Slice_compare ?h (tl_data_block_handle it) = 0")
    case same: True
    then have "tl_data_block_handle it = ?h" by (auto simp: Slice_compare_eq split: if_splits)
    then show ?thesis using same v d s True by (auto simp: InitDataBlock_def no_data_def)
  next
    case False
    obtain x where x: "block_function ?h = Some x" "dinv ?h x" using opens [OF handle_in [OF True]] by blast
    have "SetDataIterator D (it\<lparr>tl_data_block_handle := ?h\<rparr>) (Some x) =
        it\<lparr>tl_data_block_handle := ?h, tl_data_iter := Wrapper_Set D (tl_data_iter it) (Some x)\<rparr>"
      using Set_keeps [of "it\<lparr>tl_data_block_handle := ?h\<rparr>" h "Some x"] s d by (simp, blast)
    moreover have "wrapped D (dinv ?h) (Wrapper_Set D (tl_data_iter it) (Some x))"
      using Wrapper_Set_fresh [of D "tl_data_iter it" "Some x"] x(2) by (auto simp: wrapped_def)
    ultimately show ?thesis using False v s x(1) True by (auto simp: InitDataBlock_def Let_def)
  qed
qed

text \<open>Opening the block under the index and moving in it.\<close>

lemma Init_move:
  assumes s: "tl_status it = OK" and d: "no_data it \<or> h \<in> snd ` set idx \<and> tl_data_block_handle it = h \<and> wrapped D (dinv h) (tl_data_iter it)"
    and w: "wrapped I (\<lambda>s. iat s j) (tl_index_iter it)"
    and move: "\<And>w. j < length idx \<Longrightarrow> wrapped D (dinv (snd (idx ! j))) w \<Longrightarrow>
      \<exists>w'. move w = Some w' \<and> wrapped D (\<lambda>d. dat (snd (idx ! j)) d i) w'"
  shows "\<exists>it' it''. InitDataBlock I D block_function it = Some it' \<and> move_data move it' = Some it'' \<and>
    tl_mid I iat idx D dat it'' j (if j < length idx then i else 0)"
proof -
  obtain it' where it': "InitDataBlock I D block_function it = Some it'" "tl_status it' = OK" "tl_index_iter it' = tl_index_iter it"
    and data: "if j < length idx
      then tl_data_block_handle it' = snd (idx ! j) \<and> wrapped D (dinv (snd (idx ! j))) (tl_data_iter it')
      else no_data it'"
    using Init [OF s d w] by blast
  show ?thesis
  proof (cases "j < length idx")
    case True
    then obtain w' where "move (tl_data_iter it') = Some w'" "wrapped D (\<lambda>d. dat (snd (idx ! j)) d i) w'"
      using move data by auto
    moreover have "w_iter (tl_data_iter it') \<noteq> None" using data True by (auto simp: wrapped_def)
    ultimately show ?thesis using it' w data True by (auto simp: move_data_def tl_mid_def)
  next
    case False
    then have "move_data move it' = Some it'" using data by (simp add: move_data_def no_data_def)
    then show ?thesis using it' w data False by (auto simp: tl_mid_def)
  qed
qed

lemma mid_inv:
  assumes "tl_mid I iat idx D dat it j i"
  shows "tl_status it = OK" "wrapped I (\<lambda>s. iat s j) (tl_index_iter it)"
    "no_data it \<or> j < length idx \<and> tl_data_block_handle it = snd (idx ! j) \<and> wrapped D (dinv (snd (idx ! j))) (tl_data_iter it)"
    "j < length idx \<Longrightarrow> wrapped D (\<lambda>d. dat (snd (idx ! j)) d i) (tl_data_iter it)"
    "\<not> j < length idx \<Longrightarrow> i = 0 \<and> no_data it"
  using assms sorted_iterator.at_inv [OF wdata [OF handle_in [of j]], of i "tl_data_iter it"]
  by (auto simp: tl_mid_def split: if_splits)

lemma mid_step:
  assumes m: "tl_mid I iat idx D dat it j i"
    and w: "imove (tl_index_iter it) = Some w" "wrapped I (\<lambda>s. iat s j') w"
    and move: "\<And>w. j' < length idx \<Longrightarrow> wrapped D (dinv (snd (idx ! j'))) w \<Longrightarrow>
      \<exists>w'. move w = Some w' \<and> wrapped D (\<lambda>d. dat (snd (idx ! j')) d i') w'"
  shows "\<exists>it1 it2 it3. move_index imove it = Some it1 \<and> InitDataBlock I D block_function it1 = Some it2 \<and>
    move_data move it2 = Some it3 \<and> tl_mid I iat idx D dat it3 j' (if j' < length idx then i' else 0)"
proof -
  let ?it = "it\<lparr>tl_index_iter := w\<rparr>"
  have d: "no_data ?it \<or> snd (idx ! j) \<in> snd ` set idx \<and> tl_data_block_handle ?it = snd (idx ! j) \<and>
      wrapped D (dinv (snd (idx ! j))) (tl_data_iter ?it)"
    using mid_inv(3) [OF m] handle_in [of j] by auto
  have "tl_status ?it = OK" "wrapped I (\<lambda>s. iat s j') (tl_index_iter ?it)" using mid_inv(1) [OF m] w by simp_all
  from Init_move [OF this(1) d this(2) move] show ?thesis
    using w(1) by (auto simp: move_index_def)
qed

lemma data_valid:
  assumes m: "tl_mid I iat idx D dat it j i" and j: "j < length idx"
  shows "w_iter (tl_data_iter it) \<noteq> None" "it_Valid (WrapperIterator D) (tl_data_iter it) \<longleftrightarrow> i < length (blk (snd (idx ! j)))"
    "i \<le> length (blk (snd (idx ! j)))"
  using mid_inv(4) [OF m j] sorted_iterator.at_valid [OF wdata [OF handle_in [OF j]] mid_inv(4) [OF m j]]
    sorted_iterator.at_inv [OF wdata [OF handle_in [OF j]] mid_inv(4) [OF m j]]
  by (auto simp: wrapped_def)

lemma no_data_Set:
  assumes "tl_status it = OK" "no_data it"
  shows "SetDataIterator D it None = it"
proof -
  have "Wrapper_Set D (tl_data_iter it) None = tl_data_iter it"
    using assms(2) by (cases "tl_data_iter it") (simp add: no_data_def Wrapper_Set_def Let_def)
  then show ?thesis using Set_keeps [OF assms(1), of _ None] assms(2) by (cases it) simp
qed

lemma Skip_end:
  assumes m: "tl_mid I iat idx D dat it j i" and j: "\<not> j < length idx"
  shows "SkipEmptyDataBlocksForward I D block_function it = Some it"
    "SkipEmptyDataBlocksBackward I D block_function it = Some it"
  using mid_inv(5) [OF m j] windex.at_valid [OF mid_inv(2) [OF m]] j no_data_Set [OF mid_inv(1) [OF m]]
  by (auto simp: SkipEmptyDataBlocksForward.simps SkipEmptyDataBlocksBackward.simps no_data_def)

lemma Skip_stop:
  assumes m: "tl_mid I iat idx D dat it j i" and j: "j < length idx" and i: "i < length (blk (snd (idx ! j)))"
  shows "SkipEmptyDataBlocksForward I D block_function it = Some it"
    "SkipEmptyDataBlocksBackward I D block_function it = Some it"
  using data_valid [OF m j] i
  by (auto simp: SkipEmptyDataBlocksForward.simps SkipEmptyDataBlocksBackward.simps)

lemma index_le: "tl_mid I iat idx D dat it j i \<Longrightarrow> j \<le> length idx"
  using windex.at_inv [OF mid_inv(2)] by blast

lemma Skip_forward:
  "tl_mid I iat idx D dat it j i \<Longrightarrow>
   \<exists>it'. SkipEmptyDataBlocksForward I D block_function it = Some it' \<and>
     tl_at I iat idx D blk dat it' (block_start blk idx j + i)"
proof (induction "length idx - j" arbitrary: it j i)
  case 0
  then show ?case using Skip_end(1) [OF 0(2)] index_le [OF 0(2)] by (auto simp: tl_at_def)
next
  case (Suc n)
  note m = Suc.prems
  have j: "j < length idx" using Suc.hyps(2) by simp
  show ?case
  proof (cases "i < length (blk (snd (idx ! j)))")
    case True
    then show ?thesis using Skip_stop(1) [OF m j] m j by (fastforce simp: tl_at_def)
  next
    case False
    then have i: "i = length (blk (snd (idx ! j)))" using data_valid(3) [OF m j] by simp
    obtain w where w: "it_Next (WrapperIterator I) (tl_index_iter it) = Some w" "wrapped I (\<lambda>s. iat s (j + 1)) w"
      using windex.at_next [OF mid_inv(2) [OF m] j] by blast
    have first: "\<exists>w'. it_SeekToFirst (WrapperIterator D) w = Some w' \<and> wrapped D (\<lambda>d. dat (snd (idx ! (j + 1))) d 0) w'"
      if "j + 1 < length idx" "wrapped D (dinv (snd (idx ! (j + 1)))) w" for w
      using sorted_iterator.at_first [OF wdata [OF handle_in [OF that(1)]] that(2)] .
    obtain it1 it2 it3 where step: "move_index (it_Next (WrapperIterator I)) it = Some it1"
      "InitDataBlock I D block_function it1 = Some it2" "move_data (it_SeekToFirst (WrapperIterator D)) it2 = Some it3"
      and m3: "tl_mid I iat idx D dat it3 (j + 1) (if j + 1 < length idx then 0 else 0)"
      using mid_step [where imove = "it_Next (WrapperIterator I)" and move = "it_SeekToFirst (WrapperIterator D)", OF m w first] by blast
    have "n = length idx - (j + 1)" using Suc.hyps(2) by simp
    moreover have "tl_mid I iat idx D dat it3 (j + 1) 0" using m3 by simp
    ultimately obtain it' where "SkipEmptyDataBlocksForward I D block_function it3 = Some it'"
      "tl_at I iat idx D blk dat it' (block_start blk idx (j + 1))"
      using Suc.hyps(1) [of "j + 1" it3 0] by auto
    then show ?thesis
      using step data_valid [OF m j] i windex.at_valid [OF mid_inv(2) [OF m]] j
      by (subst SkipEmptyDataBlocksForward.simps) (simp add: block_start_Suc)
  qed
qed

lemma Skip_backward:
  "tl_mid I iat idx D dat it j i \<Longrightarrow>
   \<exists>it'. SkipEmptyDataBlocksBackward I D block_function it = Some it' \<and>
     tl_at I iat idx D blk dat it'
       (if j < length idx \<and> i = length (blk (snd (idx ! j)))
        then if block_start blk idx j = 0 then length (concat (map (blk \<circ> snd) idx)) else block_start blk idx j - 1
        else block_start blk idx j + i)"
proof (induction j arbitrary: it i rule: less_induct)
  case (less j)
  note m = less.prems
  show ?case
  proof (cases "j < length idx \<and> i = length (blk (snd (idx ! j)))")
    case False
    show ?thesis
    proof (cases "j < length idx")
      case True
      then show ?thesis using False m data_valid(3) [OF m True] Skip_stop(2) [OF m True] by (fastforce simp: tl_at_def)
    next
      case False
      then show ?thesis using Skip_end(2) [OF m False] index_le [OF m] m by (fastforce simp: tl_at_def)
    qed
  next
    case True
    then have j: "j < length idx" and i: "i = length (blk (snd (idx ! j)))" by auto
    let ?j = "if j = 0 then length idx else j - 1"
    obtain w where w: "it_Prev (WrapperIterator I) (tl_index_iter it) = Some w" "wrapped I (\<lambda>s. iat s ?j) w"
      using windex.at_prev [OF mid_inv(2) [OF m] j] by blast
    let ?i = "length (blk (snd (idx ! ?j))) - 1"
    have last: "\<exists>w'. it_SeekToLast (WrapperIterator D) w = Some w' \<and> wrapped D (\<lambda>d. dat (snd (idx ! ?j)) d ?i) w'"
      if "?j < length idx" "wrapped D (dinv (snd (idx ! ?j))) w" for w
      using sorted_iterator.at_last [OF wdata [OF handle_in [OF that(1)]] that(2)] .
    obtain it1 it2 it3 where step: "move_index (it_Prev (WrapperIterator I)) it = Some it1"
      "InitDataBlock I D block_function it1 = Some it2" "move_data (it_SeekToLast (WrapperIterator D)) it2 = Some it3"
      and m3: "tl_mid I iat idx D dat it3 ?j (if ?j < length idx then ?i else 0)"
      using mid_step [where imove = "it_Prev (WrapperIterator I)" and move = "it_SeekToLast (WrapperIterator D)", OF m w last] by blast
    have unf: "SkipEmptyDataBlocksBackward I D block_function it = SkipEmptyDataBlocksBackward I D block_function it3"
      using step data_valid [OF m j] i windex.at_valid [OF mid_inv(2) [OF m]] j
      by (subst SkipEmptyDataBlocksBackward.simps) simp
    show ?thesis
    proof (cases j)
      case 0
      then have "tl_mid I iat idx D dat it3 (length idx) 0" using m3 by simp
      then show ?thesis
        using Skip_end(2) [of it3 "length idx" 0] 0 True unf by (fastforce simp: tl_at_def block_start_all)
    next
      case (Suc k)
      then have m4: "tl_mid I iat idx D dat it3 k (length (blk (snd (idx ! k))) - 1)" and k: "k < length idx"
        using m3 j by auto
      from less.IH [OF _ m4] obtain it' where it': "SkipEmptyDataBlocksBackward I D block_function it3 = Some it'"
        "tl_at I iat idx D blk dat it'
       (if k < length idx \<and> length (blk (snd (idx ! k))) - 1 = length (blk (snd (idx ! k)))
        then if block_start blk idx k = 0 then length (concat (map (blk \<circ> snd) idx)) else block_start blk idx k - 1
        else block_start blk idx k + (length (blk (snd (idx ! k))) - 1))"
        using Suc by blast
      moreover have "block_start blk idx j = block_start blk idx k + length (blk (snd (idx ! k)))"
        using block_start_Suc [OF k] Suc by simp
      moreover have "a + (length xs - 1) = a + length xs - 1 \<and> length xs - 1 \<noteq> length xs"
        if "xs \<noteq> []" for a and xs :: "(slice \<times> slice) list"
        using that by (cases xs) auto
      ultimately show ?thesis
        using True k unf by (cases "blk (snd (idx ! k)) = []") auto
    qed
  qed
qed

lemma tl_valid:
  assumes "tl_at I iat idx D blk dat it k"
  shows "tl_inv I iinv idx D dinv it \<and> k \<le> length (concat (map (blk \<circ> snd) idx))"
    "it_Valid (TwoLevelIterator_class I D block_function) it \<longleftrightarrow> k < length (concat (map (blk \<circ> snd) idx))"
    "k < length (concat (map (blk \<circ> snd) idx)) \<Longrightarrow> \<exists>j i. tl_mid I iat idx D dat it j i \<and> j < length idx \<and>
       i < length (blk (snd (idx ! j))) \<and> k = block_start blk idx j + i \<and>
       concat (map (blk \<circ> snd) idx) ! k = blk (snd (idx ! j)) ! i"
proof -
  let ?K = "concat (map (blk \<circ> snd) idx)"
  obtain j i where m: "tl_mid I iat idx D dat it j i" "j \<le> length idx"
      "j < length idx \<Longrightarrow> i < length (blk (snd (idx ! j)))" and k: "k = block_start blk idx j + i"
    using assms by (auto simp: tl_at_def)
  have "wrapped I iinv (tl_index_iter it)" using windex.at_inv [OF mid_inv(2) [OF m(1)]] by blast
  then have tinv: "tl_inv I iinv idx D dinv it"
    using mid_inv(1,3) [OF m(1)] handle_in [of j] by (auto simp: tl_inv_def)
  show "tl_inv I iinv idx D dinv it \<and> k \<le> length ?K"
    "it_Valid (TwoLevelIterator_class I D block_function) it \<longleftrightarrow> k < length ?K"
    "k < length ?K \<Longrightarrow> \<exists>j i. tl_mid I iat idx D dat it j i \<and> j < length idx \<and> i < length (blk (snd (idx ! j))) \<and>
       k = block_start blk idx j + i \<and> ?K ! k = blk (snd (idx ! j)) ! i"
  proof (atomize (full), cases "j < length idx")
    case True
    have kk: "k < length ?K" "?K ! k = blk (snd (idx ! j)) ! i" using concat_nth [of j idx i blk] True m(3) [OF True] k by auto
    moreover have "it_Valid (TwoLevelIterator_class I D block_function) it"
      using data_valid [OF m(1) True] m(3) [OF True] by (simp add: TwoLevelIterator_class_def)
    ultimately show "(tl_inv I iinv idx D dinv it \<and> k \<le> length ?K) \<and>
      (it_Valid (TwoLevelIterator_class I D block_function) it \<longleftrightarrow> k < length ?K) \<and>
      (k < length ?K \<longrightarrow> (\<exists>j i. tl_mid I iat idx D dat it j i \<and> j < length idx \<and> i < length (blk (snd (idx ! j))) \<and>
       k = block_start blk idx j + i \<and> ?K ! k = blk (snd (idx ! j)) ! i))"
      using tinv m(1) m(3) [OF True] True k by auto
  next
    case False
    then have "k = length ?K" "no_data it"
      using mid_inv(5) [OF m(1) False] k by (auto simp: block_start_all)
    then show "(tl_inv I iinv idx D dinv it \<and> k \<le> length ?K) \<and>
      (it_Valid (TwoLevelIterator_class I D block_function) it \<longleftrightarrow> k < length ?K) \<and>
      (k < length ?K \<longrightarrow> (\<exists>j i. tl_mid I iat idx D dat it j i \<and> j < length idx \<and> i < length (blk (snd (idx ! j))) \<and>
       k = block_start blk idx j + i \<and> ?K ! k = blk (snd (idx ! j)) ! i))"
      using tinv by (simp add: TwoLevelIterator_class_def WrapperIterator_def no_data_def)
  qed
qed

lemma start_step:
  assumes t: "tl_inv I iinv idx D dinv it"
    and w: "imove (tl_index_iter it) = Some w" "wrapped I (\<lambda>s. iat s j) w"
    and move: "\<And>w. j < length idx \<Longrightarrow> wrapped D (dinv (snd (idx ! j))) w \<Longrightarrow>
      \<exists>w'. move w = Some w' \<and> wrapped D (\<lambda>d. dat (snd (idx ! j)) d i) w'"
  shows "\<exists>it1 it2 it3. move_index imove it = Some it1 \<and> InitDataBlock I D block_function it1 = Some it2 \<and>
    move_data move it2 = Some it3 \<and> tl_mid I iat idx D dat it3 j (if j < length idx then i else 0)"
proof -
  let ?it = "it\<lparr>tl_index_iter := w\<rparr>"
  have "tl_status ?it = OK" "wrapped I (\<lambda>s. iat s j) (tl_index_iter ?it)" using t w by (simp_all add: tl_inv_def)
  moreover have "no_data ?it \<or> tl_data_block_handle it \<in> snd ` set idx \<and> tl_data_block_handle ?it = tl_data_block_handle it \<and>
      wrapped D (dinv (tl_data_block_handle it)) (tl_data_iter ?it)"
    using t by (auto simp: tl_inv_def)
  ultimately have "\<exists>it' it''. InitDataBlock I D block_function ?it = Some it' \<and> move_data move it' = Some it'' \<and>
      tl_mid I iat idx D dat it'' j (if j < length idx then i else 0)"
    using move by (intro Init_move) assumption+
  then show ?thesis using w(1) by (auto simp: move_index_def)
qed

lemma seek_position:
  assumes t: "ok t"
  defines "j \<equiv> length (takeWhile (\<lambda>kv. cmp (fst kv) t < 0) idx)"
  shows "block_start blk idx j + (if j < length idx then length (takeWhile (\<lambda>kv. cmp (fst kv) t < 0) (blk (snd (idx ! j)))) else 0) =
     length (takeWhile (\<lambda>kv. cmp (fst kv) t < 0) (concat (map (blk \<circ> snd) idx)))"
proof -
  let ?P = "\<lambda>kv. cmp (fst kv) t < 0"
  have okk: "ok (fst kv)" if "kv \<in> set (blk (snd (idx ! i)))" "i < length idx" for kv i
    using sorted_iterator.keys_ok [OF blocks [OF handle_in [OF that(2)]]] that(1) by blast
  have oks: "ok (fst (idx ! i))" if "i < length idx" for i using index.keys_ok that by simp
  have before: "?P kv" if k: "kv \<in> set (concat (map (blk \<circ> snd) (take j idx)))" for kv
  proof -
    from k obtain x where x: "x \<in> set (take j idx)" "kv \<in> set (blk (snd x))" by auto
    obtain i where i: "i < j" "i < length idx" "kv \<in> set (blk (snd (idx ! i)))"
      using x by (auto simp: in_set_conv_nth [of x])
    have "takeWhile ?P idx ! i = idx ! i" using i by (simp add: j_def takeWhile_nth)
    moreover have "takeWhile ?P idx ! i \<in> set (takeWhile ?P idx)" using i(1) by (simp add: j_def)
    ultimately have "?P (idx ! i)" by (auto dest: set_takeWhileD)
    then show ?thesis using below [OF i(2,3)] compare_le_less_trans [OF okk [OF i(3,2)] oks [OF i(2)] t] by blast
  qed
  show ?thesis
  proof (cases "j < length idx")
    case False
    then have "take j idx = idx" by simp
    then have e: "takeWhile ?P (concat (map (blk \<circ> snd) idx)) = concat (map (blk \<circ> snd) idx)"
      using before by (simp add: takeWhile_eq_all_conv)
    show ?thesis using False unfolding e by (simp add: block_start_all)
  next
    case True
    have "\<not> ?P (idx ! j)" using nth_length_takeWhile [of ?P idx] True by (simp add: j_def)
    then have ge: "cmp t (fst (idx ! j)) \<le> 0" using compare_ge_iff [OF oks [OF True] t] by linarith
    have after: "\<not> ?P kv" if k: "kv \<in> set (concat (map (blk \<circ> snd) (drop (Suc j) idx)))" for kv
    proof -
      from k obtain x where x: "x \<in> set (drop (Suc j) idx)" "kv \<in> set (blk (snd x))" by auto
      then obtain m where m: "m < length idx - Suc j" "drop (Suc j) idx ! m = x" by (auto simp: in_set_conv_nth [of x])
      define i where "i = Suc j + m"
      have i: "x = idx ! i" "j < i" "i < length idx" using m by (auto simp: i_def)
      have "cmp t (fst kv) < 0"
        using compare_le_less_trans [OF t oks [OF True] okk ge above [OF i(2,3)]] x i by blast
      then show ?thesis using compare_antisym [OF okk t, of kv i] x i by auto
    qed
    have "takeWhile ?P (concat (map (blk \<circ> snd) idx)) =
        concat (map (blk \<circ> snd) (take j idx)) @ takeWhile ?P (blk (snd (idx ! j)))"
      unfolding concat_split [OF True] by (rule takeWhile_three) (use before after in blast)+
    then show ?thesis using True by (simp add: block_start_def)
  qed
qed

lemma concat_sorted:
  assumes "\<forall>x\<in>set xs. sorted_wrt R (f x)" "sorted_wrt (\<lambda>x y. \<forall>a\<in>set (f x). \<forall>b\<in>set (f y). R a b) xs"
  shows "sorted_wrt R (concat (map f xs))"
  using assms by (induction xs) (auto simp: sorted_wrt_append)

lemma two_level_sorted: "sorted_wrt (\<lambda>a b. cmp (fst a) (fst b) < 0) (concat (map (blk \<circ> snd) idx))"
proof (rule concat_sorted)
  show "\<forall>x\<in>set idx. sorted_wrt (\<lambda>a b. cmp (fst a) (fst b) < 0) ((blk \<circ> snd) x)"
    using sorted_iterator.keys_sorted [OF blocks] by auto
  show "sorted_wrt (\<lambda>x y. \<forall>a\<in>set ((blk \<circ> snd) x). \<forall>b\<in>set ((blk \<circ> snd) y). cmp (fst a) (fst b) < 0) idx"
  proof (clarsimp simp: sorted_wrt_iff_nth_less)
    fix i j k v k' v'
    assume ij: "i < j" "j < length idx" and a: "(k, v) \<in> set (blk (snd (idx ! i)))" and b: "(k', v') \<in> set (blk (snd (idx ! j)))"
    have i: "i < length idx" using ij by simp
    have "ok k" "ok k'"
      using sorted_iterator.keys_ok [OF blocks [OF handle_in [OF i]] a]
        sorted_iterator.keys_ok [OF blocks [OF handle_in [OF ij(2)]] b] by simp_all
    moreover have "ok (fst (idx ! i))" using index.keys_ok i by simp
    ultimately have "ok k" "ok k'" "ok (fst (idx ! i))" by simp_all
    then show "cmp k k' < 0"
      using compare_le_less_trans [of k "fst (idx ! i)" k'] below [of i "(k, v)"] above [OF ij b] a ij by simp
  qed
qed

theorem two_level_iterator:
  "sorted_iterator (TwoLevelIterator_class I D block_function) cmp ok (concat (map (blk \<circ> snd) idx))
     (tl_inv I iinv idx D dinv) (tl_at I iat idx D blk dat)"
proof unfold_locales
  let ?T = "TwoLevelIterator_class I D block_function" and ?K = "concat (map (blk \<circ> snd) idx)"
  fix it k
  assume k: "tl_at I iat idx D blk dat it k"
  show "tl_inv I iinv idx D dinv it \<and> k \<le> length ?K" "it_Valid ?T it \<longleftrightarrow> k < length ?K"
    using tl_valid [OF k] by auto
  assume "k < length ?K"
  then obtain j i where m: "tl_mid I iat idx D dat it j i" and j: "j < length idx" and i: "i < length (blk (snd (idx ! j)))"
      and kk: "k = block_start blk idx j + i" and nth: "?K ! k = blk (snd (idx ! j)) ! i"
    using tl_valid(3) [OF k] by blast
  let ?h = "snd (idx ! j)"
  note W = wdata [OF handle_in [OF j]] and d = mid_inv(4) [OF m j]
  show "it_key ?T it = fst (?K ! k)" "it_value ?T it = snd (?K ! k)"
    using sorted_iterator.at_key [OF W d i] sorted_iterator.at_value [OF W d i]
    by (simp_all add: nth TwoLevelIterator_class_def)
  have keep: "tl_mid I iat idx D dat (it\<lparr>tl_data_iter := w\<rparr>) j i'" if "wrapped D (\<lambda>d. dat ?h d i') w" for w i'
    using m j that by (simp add: tl_mid_def)
  obtain w where w: "it_Next (WrapperIterator D) (tl_data_iter it) = Some w" "wrapped D (\<lambda>d. dat ?h d (i + 1)) w"
    using sorted_iterator.at_next [OF W d i] by blast
  show "\<exists>it'. it_Next ?T it = Some it' \<and> tl_at I iat idx D blk dat it' (k + 1)"
    using Skip_forward [OF keep [OF w(2)]] w(1) kk by (simp add: TwoLevelIterator_class_def TwoLevel_Next_def)
  let ?i = "if i = 0 then length (blk ?h) else i - 1"
  obtain w where w: "it_Prev (WrapperIterator D) (tl_data_iter it) = Some w" "wrapped D (\<lambda>d. dat ?h d ?i) w"
    using sorted_iterator.at_prev [OF W d i] by blast
  have pos: "(if j < length idx \<and> ?i = length (blk ?h)
        then if block_start blk idx j = 0 then length ?K else block_start blk idx j - 1
        else block_start blk idx j + ?i) = (if k = 0 then length ?K else k - 1)"
    using i j kk by (cases i) auto
  show "\<exists>it'. it_Prev ?T it = Some it' \<and> tl_at I iat idx D blk dat it' (if k = 0 then length ?K else k - 1)"
    using Skip_backward [OF keep [OF w(2)]] w(1) unfolding pos by (simp add: TwoLevelIterator_class_def TwoLevel_Prev_def)
next
  let ?T = "TwoLevelIterator_class I D block_function" and ?K = "concat (map (blk \<circ> snd) idx)"
  fix it t
  assume t: "tl_inv I iinv idx D dinv it"
  then have inv: "wrapped I iinv (tl_index_iter it)" by (simp add: tl_inv_def)
  show "it_status ?T it = OK"
    using t windex.at_status [OF inv] sorted_iterator.at_status [OF wdata]
    by (auto simp: TwoLevelIterator_class_def TwoLevel_get_status_def tl_inv_def no_data_def)
  obtain w where w: "it_SeekToFirst (WrapperIterator I) (tl_index_iter it) = Some w" "wrapped I (\<lambda>s. iat s 0) w"
    using windex.at_first [OF inv] by blast
  obtain it1 it2 it3 where step: "move_index (it_SeekToFirst (WrapperIterator I)) it = Some it1"
      "InitDataBlock I D block_function it1 = Some it2" "move_data (it_SeekToFirst (WrapperIterator D)) it2 = Some it3"
      and m: "tl_mid I iat idx D dat it3 0 (if 0 < length idx then 0 else 0)"
    using start_step [where imove = "it_SeekToFirst (WrapperIterator I)" and move = "it_SeekToFirst (WrapperIterator D)", OF t w]
      sorted_iterator.at_first [OF wdata [OF handle_in]] by blast
  show "\<exists>it'. it_SeekToFirst ?T it = Some it' \<and> tl_at I iat idx D blk dat it' 0"
    using Skip_forward [OF m] step by (simp add: TwoLevelIterator_class_def TwoLevel_SeekToFirst_def)
  let ?j = "length idx - 1" and ?l = "\<lambda>j. length (blk (snd (idx ! j))) - 1"
  obtain w where w: "it_SeekToLast (WrapperIterator I) (tl_index_iter it) = Some w" "wrapped I (\<lambda>s. iat s ?j) w"
    using windex.at_last [OF inv] by blast
  obtain it1 it2 it3 where step: "move_index (it_SeekToLast (WrapperIterator I)) it = Some it1"
      "InitDataBlock I D block_function it1 = Some it2" "move_data (it_SeekToLast (WrapperIterator D)) it2 = Some it3"
      and m: "tl_mid I iat idx D dat it3 ?j (if ?j < length idx then ?l ?j else 0)"
    using start_step [where imove = "it_SeekToLast (WrapperIterator I)" and move = "it_SeekToLast (WrapperIterator D)" and i = "?l ?j", OF t w]
      sorted_iterator.at_last [OF wdata [OF handle_in]] by blast
  let ?i = "if ?j < length idx then ?l ?j else 0"
  have "(if ?j < length idx \<and> ?i = length (blk (snd (idx ! ?j)))
        then if block_start blk idx ?j = 0 then length ?K else block_start blk idx ?j - 1
        else block_start blk idx ?j + ?i) = length ?K - 1"
  proof (cases "idx = []")
    case False
    then have j: "?j < length idx" "Suc ?j = length idx" by (cases idx; simp)+
    then have "length ?K = block_start blk idx ?j + length (blk (snd (idx ! ?j)))"
      using block_start_Suc [OF j(1), of blk] by (simp add: block_start_all)
    then show ?thesis using j by (cases "blk (snd (idx ! ?j))") auto
  qed simp
  then show "\<exists>it'. it_SeekToLast ?T it = Some it' \<and> tl_at I iat idx D blk dat it' (length ?K - 1)"
    using Skip_backward [OF m] step by (simp only: TwoLevelIterator_class_def TwoLevel_SeekToLast_def Iterator.simps) simp
  assume o: "ok t"
  let ?P = "\<lambda>kv. cmp (fst kv) t < 0"
  let ?j = "length (takeWhile ?P idx)"
  obtain w where w: "it_Seek (WrapperIterator I) (tl_index_iter it) t = Some w" "wrapped I (\<lambda>s. iat s ?j) w"
    using windex.at_seek [OF inv o] by blast
  let ?i = "length (takeWhile ?P (blk (snd (idx ! ?j))))"
  obtain it1 it2 it3 where step: "move_index (\<lambda>w. it_Seek (WrapperIterator I) w t) it = Some it1"
      "InitDataBlock I D block_function it1 = Some it2" "move_data (\<lambda>w. it_Seek (WrapperIterator D) w t) it2 = Some it3"
      and m: "tl_mid I iat idx D dat it3 ?j (if ?j < length idx then ?i else 0)"
    using start_step [where imove = "\<lambda>w. it_Seek (WrapperIterator I) w t" and move = "\<lambda>w. it_Seek (WrapperIterator D) w t" and i = ?i, OF t w]
      sorted_iterator.at_seek [OF wdata [OF handle_in] _ o] by blast
  show "\<exists>it'. it_Seek ?T it t = Some it' \<and> tl_at I iat idx D blk dat it' (length (takeWhile ?P ?K))"
    using Skip_forward [OF m] step unfolding seek_position [OF o] by (simp add: TwoLevelIterator_class_def TwoLevel_Seek_def)
next
  fix kv assume "kv \<in> set (concat (map (blk \<circ> snd) idx))"
  then obtain x where "x \<in> set idx" "kv \<in> set (blk (snd x))" by auto
  then show "ok (fst kv)" using sorted_iterator.keys_ok [OF blocks] by (blast intro: imageI)
qed (rule two_level_sorted)

lemma NewTwoLevelIterator_inv: "iinv s \<Longrightarrow> tl_inv I iinv idx D dinv (NewTwoLevelIterator I s)"
  using Wrapper_Set_fresh [of I Wrapper_empty "Some s"]
  by (simp add: tl_inv_def NewTwoLevelIterator_def wrapped_def no_data_def Wrapper_empty_def)

end

end
