(* ===== verification/Options.thy ===== *)
theory Options
  imports Format FilterBlock TwoLevel
begin

text \<open>
  \<open>Options\<close> (\<open>include/leveldb/options.h\<close>, \<open>util/options.cc\<close>) with the comparator and the filter policy as
  records of their virtual functions. The environment, the logger and the block cache are arguments of
  the operations that use them.
\<close>

record Comparator =
  cmp_Compare :: "slice \<Rightarrow> slice \<Rightarrow> int"
  cmp_Name :: bytes
  cmp_FindShortestSeparator :: "bytes \<Rightarrow> slice \<Rightarrow> bytes"
  cmp_FindShortSuccessor :: "bytes \<Rightarrow> bytes"

record FilterPolicy =
  fp_Name :: bytes
  fp_CreateFilter :: "slice list \<Rightarrow> bytes \<Rightarrow> bytes"
  fp_KeyMayMatch :: "slice \<Rightarrow> slice \<Rightarrow> bool"

record Options =
  opt_comparator :: Comparator
  opt_create_if_missing :: bool
  opt_error_if_exists :: bool
  opt_paranoid_checks :: bool
  opt_write_buffer_size :: nat
  opt_max_open_files :: int
  opt_block_size :: nat
  opt_block_restart_interval :: int
  opt_max_file_size :: nat
  opt_compression :: byte
  opt_zstd_compression_level :: int
  opt_reuse_logs :: bool
  opt_filter_policy :: "FilterPolicy option"

definition BytewiseComparator :: Comparator where
  "BytewiseComparator =
     \<lparr>cmp_Compare = BytewiseComparator_Compare, cmp_Name = str ''leveldb.BytewiseComparator'',
      cmp_FindShortestSeparator = BytewiseComparator_FindShortestSeparator,
      cmp_FindShortSuccessor = BytewiseComparator_FindShortSuccessor\<rparr>"

definition Options_default :: Options where
  "Options_default =
     \<lparr>opt_comparator = BytewiseComparator, opt_create_if_missing = False, opt_error_if_exists = False,
      opt_paranoid_checks = False, opt_write_buffer_size = 4 * 1024 * 1024, opt_max_open_files = 1000,
      opt_block_size = 4 * 1024, opt_block_restart_interval = 16, opt_max_file_size = 2 * 1024 * 1024,
      opt_compression = kSnappyCompression, opt_zstd_compression_level = 1, opt_reuse_logs = False,
      opt_filter_policy = None\<rparr>"

text \<open>The comparator and the filter policy the database wraps around the user's.\<close>

definition InternalKeyComparator :: "Comparator \<Rightarrow> Comparator" where
  "InternalKeyComparator user =
     \<lparr>cmp_Compare = InternalKeyComparator_Compare (cmp_Compare user),
      cmp_Name = str ''leveldb.InternalKeyComparator'',
      cmp_FindShortestSeparator =
        InternalKeyComparator_FindShortestSeparator (cmp_Compare user) (cmp_FindShortestSeparator user),
      cmp_FindShortSuccessor =
        InternalKeyComparator_FindShortSuccessor (cmp_Compare user) (cmp_FindShortSuccessor user)\<rparr>"

definition InternalFilterPolicy :: "FilterPolicy \<Rightarrow> FilterPolicy" where
  "InternalFilterPolicy user =
     \<lparr>fp_Name = fp_Name user, fp_CreateFilter = InternalFilterPolicy_CreateFilter (fp_CreateFilter user),
      fp_KeyMayMatch = InternalFilterPolicy_KeyMayMatch (fp_KeyMayMatch user)\<rparr>"

definition BloomFilterPolicy_class :: "int \<Rightarrow> FilterPolicy" where
  "BloomFilterPolicy_class n =
     \<lparr>fp_Name = str ''leveldb.BuiltinBloomFilter2'',
      fp_CreateFilter = CreateFilter (NewBloomFilterPolicy n), fp_KeyMayMatch = KeyMayMatch\<rparr>"

end
