(* ===== verification/TableBuilder.thy ===== *)
theory TableBuilder
  imports Options
begin

text \<open>
  \<open>TableBuilder\<close> (\<open>table/table_builder.cc\<close>) over any class \<open>W\<close> of writable files and any compression
  libraries \<open>P\<close>. Assertions are left out, as in a release build.
\<close>

subsection \<open>The builder\<close>

record 'f TableBuilder =
  tb_options :: Options
  tb_file :: 'f
  tb_offset :: u64
  tb_status :: Status
  tb_data_block :: BlockBuilder
  tb_index_block :: BlockBuilder
  tb_last_key :: bytes
  tb_num_entries :: int
  tb_closed :: bool
  tb_filter_block :: "(FilterPolicy \<times> FilterBlockBuilder) option"
  tb_pending_index_entry :: bool
  tb_pending_handle :: BlockHandle

definition TableBuilder_new :: "Options \<Rightarrow> 'f \<Rightarrow> 'f TableBuilder" where
  "TableBuilder_new options file =
     \<lparr>tb_options = options, tb_file = file, tb_offset = 0, tb_status = OK,
      tb_data_block = BlockBuilder_new (opt_block_restart_interval options),
      tb_index_block = BlockBuilder_new 1, tb_last_key = [], tb_num_entries = 0, tb_closed = False,
      tb_filter_block =
        map_option (\<lambda>policy. (policy, StartBlock (fp_CreateFilter policy) FilterBlockBuilder_new 0))
          (opt_filter_policy options),
      tb_pending_index_entry = False, tb_pending_handle = BlockHandle_new\<rparr>"

abbreviation TableBuilder_ok :: "'f TableBuilder \<Rightarrow> bool" where
  "TableBuilder_ok r \<equiv> Status_ok (tb_status r)"

text \<open>
  Comparators are compared by address in the code, by name here. The block builders point to the
  builder's options, so they see the new ones.
\<close>

definition ChangeOptions :: "'f TableBuilder \<Rightarrow> Options \<Rightarrow> Status \<times> 'f TableBuilder" where
  "ChangeOptions r options =
     (if cmp_Name (opt_comparator options) \<noteq> cmp_Name (opt_comparator (tb_options r))
      then (InvalidArgument (str ''changing comparator while building table'') [], r)
      else (OK, r\<lparr>tb_options := options,
                  tb_data_block := (tb_data_block r)
                    \<lparr>bb_block_restart_interval := opt_block_restart_interval options\<rparr>\<rparr>))"

definition WriteRawBlock :: "'f WritableFile \<Rightarrow> 'f TableBuilder \<Rightarrow> slice \<Rightarrow> byte \<Rightarrow>
    (BlockHandle \<times> 'f TableBuilder) option" where
  "WriteRawBlock W r block_contents type = do {
     let handle = \<lparr>bh_offset = tb_offset r, bh_size = of_nat (length block_contents)\<rparr>;
     (s, f) \<leftarrow> wf_Append W (tb_file r) block_contents;
     let r = r\<lparr>tb_status := s, tb_file := f\<rparr>;
     if \<not> Status_ok s then Some (handle, r)
     else do {
       let crc = Value block_contents;
       let crc = Extend 0 crc [type];
       let trailer = type # EncodeFixed32 (Mask crc);
       (s, f) \<leftarrow> wf_Append W (tb_file r) trailer;
       let r = r\<lparr>tb_status := s, tb_file := f\<rparr>;
       Some (handle,
         if Status_ok s then r\<lparr>tb_offset := tb_offset r + of_nat (length block_contents + kBlockTrailerSize)\<rparr>
         else r)
     }
   }"

text \<open>The \<open>switch\<close> of \<open>WriteBlock\<close>: what is stored and under which type.\<close>

definition compress_block :: "Port \<Rightarrow> Options \<Rightarrow> slice \<Rightarrow> slice \<times> byte" where
  "compress_block P options raw =
     (let type = opt_compression options;
          keep = (\<lambda>compressed.
            case compressed of None \<Rightarrow> (raw, kNoCompression)
            | Some c \<Rightarrow> if length c < length raw - length raw div 8 then (c, type) else (raw, kNoCompression))
      in if type = kNoCompression then (raw, type)
         else if type = kSnappyCompression then keep (Snappy_Compress P raw)
         else if type = kZstdCompression then keep (Zstd_Compress P (opt_zstd_compression_level options) raw)
         else ([], type))"

definition WriteBlock :: "Port \<Rightarrow> 'f WritableFile \<Rightarrow> 'f TableBuilder \<Rightarrow> BlockBuilder \<Rightarrow>
    (BlockHandle \<times> BlockBuilder \<times> 'f TableBuilder) option" where
  "WriteBlock P W r block = do {
     let (raw, block) = BlockBuilder_Finish block;
     let (block_contents, type) = compress_block P (tb_options r) raw;
     (handle, r) \<leftarrow> WriteRawBlock W r block_contents type;
     Some (handle, BlockBuilder_Reset block, r)
   }"

definition TableBuilder_Flush :: "Port \<Rightarrow> 'f WritableFile \<Rightarrow> 'f TableBuilder \<Rightarrow> 'f TableBuilder option" where
  "TableBuilder_Flush P W r =
     (if \<not> TableBuilder_ok r then Some r
      else if BlockBuilder_empty (tb_data_block r) then Some r
      else do {
        (handle, block, r) \<leftarrow> WriteBlock P W r (tb_data_block r);
        let r = r\<lparr>tb_pending_handle := handle, tb_data_block := block\<rparr>;
        r \<leftarrow> (if TableBuilder_ok r then do {
                 (s, f) \<leftarrow> wf_Flush W (tb_file r);
                 Some (r\<lparr>tb_pending_index_entry := True, tb_status := s, tb_file := f\<rparr>)
               } else Some r);
        Some (r\<lparr>tb_filter_block :=
          map_option (\<lambda>(policy, b). (policy, StartBlock (fp_CreateFilter policy) b (tb_offset r))) (tb_filter_block r)\<rparr>)
      })"

text \<open>The index entry of the block before, under a key at or after its last one.\<close>

definition add_index_entry :: "'f TableBuilder \<Rightarrow> bytes \<Rightarrow> 'f TableBuilder" where
  "add_index_entry r key =
     r\<lparr>tb_last_key := key,
       tb_index_block := BlockBuilder_Add (tb_index_block r) key (BlockHandle_EncodeTo (tb_pending_handle r) []),
       tb_pending_index_entry := False\<rparr>"

definition TableBuilder_Add :: "Port \<Rightarrow> 'f WritableFile \<Rightarrow> 'f TableBuilder \<Rightarrow> slice \<Rightarrow> slice \<Rightarrow> 'f TableBuilder option" where
  "TableBuilder_Add P W r key val =
     (if \<not> TableBuilder_ok r then Some r
      else
        let r = (if tb_pending_index_entry r
                 then add_index_entry r (cmp_FindShortestSeparator (opt_comparator (tb_options r)) (tb_last_key r) key)
                 else r);
            r = r\<lparr>tb_filter_block := map_option (\<lambda>(policy, b). (policy, FilterBlock_AddKey b key)) (tb_filter_block r),
                  tb_last_key := key,
                  tb_num_entries := tb_num_entries r + 1,
                  tb_data_block := BlockBuilder_Add (tb_data_block r) key val\<rparr>
        in if CurrentSizeEstimate (tb_data_block r) \<ge> opt_block_size (tb_options r)
           then TableBuilder_Flush P W r else Some r)"

definition filter_key :: "FilterPolicy \<Rightarrow> bytes" where
  "filter_key policy = str ''filter.'' @ fp_Name policy"

definition Finish_filter :: "'f WritableFile \<Rightarrow> 'f TableBuilder \<Rightarrow> (BlockHandle \<times> 'f TableBuilder) option" where
  "Finish_filter W r =
     (case tb_filter_block r of
        None \<Rightarrow> Some (BlockHandle_new, r)
      | Some (policy, b) \<Rightarrow>
          if TableBuilder_ok r then do {
            let (contents, b) = FilterBlock_Finish (fp_CreateFilter policy) b;
            WriteRawBlock W (r\<lparr>tb_filter_block := Some (policy, b)\<rparr>) contents kNoCompression
          } else Some (BlockHandle_new, r))"

definition metaindex_block :: "'f TableBuilder \<Rightarrow> BlockHandle \<Rightarrow> BlockBuilder option" where
  "metaindex_block r filter_block_handle =
     (let meta = BlockBuilder_new (opt_block_restart_interval (tb_options r)) in
      case tb_filter_block r of None \<Rightarrow> Some meta
      | Some _ \<Rightarrow> do {
          policy \<leftarrow> opt_filter_policy (tb_options r);
          Some (BlockBuilder_Add meta (filter_key policy) (BlockHandle_EncodeTo filter_block_handle []))
        })"

definition Finish_metaindex :: "Port \<Rightarrow> 'f WritableFile \<Rightarrow> 'f TableBuilder \<Rightarrow> BlockHandle \<Rightarrow> (BlockHandle \<times> 'f TableBuilder) option" where
  "Finish_metaindex P W r filter_block_handle =
     (if TableBuilder_ok r then do {
        meta \<leftarrow> metaindex_block r filter_block_handle;
        (handle, _, r) \<leftarrow> WriteBlock P W r meta;
        Some (handle, r)
      } else Some (BlockHandle_new, r))"

definition last_index_entry :: "'f TableBuilder \<Rightarrow> 'f TableBuilder" where
  "last_index_entry r =
     (if tb_pending_index_entry r
      then add_index_entry r (cmp_FindShortSuccessor (opt_comparator (tb_options r)) (tb_last_key r))
      else r)"

definition Finish_index :: "Port \<Rightarrow> 'f WritableFile \<Rightarrow> 'f TableBuilder \<Rightarrow> (BlockHandle \<times> 'f TableBuilder) option" where
  "Finish_index P W r =
     (if TableBuilder_ok r then do {
        let r = last_index_entry r;
        (handle, block, r) \<leftarrow> WriteBlock P W r (tb_index_block r);
        Some (handle, r\<lparr>tb_index_block := block\<rparr>)
      } else Some (BlockHandle_new, r))"

definition Finish_footer :: "'f WritableFile \<Rightarrow> 'f TableBuilder \<Rightarrow> BlockHandle \<Rightarrow> BlockHandle \<Rightarrow> 'f TableBuilder option" where
  "Finish_footer W r metaindex_handle index_handle =
     (if TableBuilder_ok r then do {
        let footer_encoding =
          Footer_EncodeTo \<lparr>ft_metaindex_handle = metaindex_handle, ft_index_handle = index_handle\<rparr> [];
        (s, f) \<leftarrow> wf_Append W (tb_file r) footer_encoding;
        let r = r\<lparr>tb_status := s, tb_file := f\<rparr>;
        Some (if Status_ok s then r\<lparr>tb_offset := tb_offset r + of_nat (length footer_encoding)\<rparr> else r)
      } else Some r)"

definition TableBuilder_Finish :: "Port \<Rightarrow> 'f WritableFile \<Rightarrow> 'f TableBuilder \<Rightarrow> (Status \<times> 'f TableBuilder) option" where
  "TableBuilder_Finish P W r = do {
     r \<leftarrow> TableBuilder_Flush P W r;
     let r = r\<lparr>tb_closed := True\<rparr>;
     (filter_block_handle, r) \<leftarrow> Finish_filter W r;
     (metaindex_block_handle, r) \<leftarrow> Finish_metaindex P W r filter_block_handle;
     (index_block_handle, r) \<leftarrow> Finish_index P W r;
     r \<leftarrow> Finish_footer W r metaindex_block_handle index_block_handle;
     Some (tb_status r, r)
   }"

definition Abandon :: "'f TableBuilder \<Rightarrow> 'f TableBuilder" where
  "Abandon r = r\<lparr>tb_closed := True\<rparr>"

definition TableBuilder_NumEntries :: "'f TableBuilder \<Rightarrow> u64" where
  "TableBuilder_NumEntries r = of_int (tb_num_entries r)"

definition TableBuilder_FileSize :: "'f TableBuilder \<Rightarrow> u64" where
  "TableBuilder_FileSize r = tb_offset r"

subsection \<open>An ideal file\<close>

text \<open>
  The file that is the string of what was appended to it. The bytes a builder writes to any file are
  those it writes to this one, which gives a name to the image of a table.
\<close>

definition string_file :: "bytes WritableFile" where
  "string_file = \<lparr>wf_Append = \<lambda>f d. Some (OK, f @ d), wf_Close = \<lambda>f. Some (OK, f), wf_Flush = \<lambda>f. Some (OK, f),
     wf_Sync = \<lambda>f. Some (OK, f), wf_delete = Some\<rparr>"

interpretation string_file: writable_file string_file "\<lambda>f. f" "\<lambda>_. True"
  by unfold_locales (simp_all add: string_file_def)

fun add_entries :: "Port \<Rightarrow> 'f WritableFile \<Rightarrow> 'f TableBuilder \<Rightarrow> (slice \<times> slice) list \<Rightarrow> 'f TableBuilder option" where
  "add_entries P W r [] = Some r"
| "add_entries P W r ((k, v) # kvs) = do { r \<leftarrow> TableBuilder_Add P W r k v; add_entries P W r kvs }"

definition build_table :: "Port \<Rightarrow> 'f WritableFile \<Rightarrow> Options \<Rightarrow> 'f \<Rightarrow> (slice \<times> slice) list \<Rightarrow> (Status \<times> 'f TableBuilder) option" where
  "build_table P W options f kvs = do {
     r \<leftarrow> add_entries P W (TableBuilder_new options f) kvs;
     TableBuilder_Finish P W r
   }"

definition table_image :: "Port \<Rightarrow> Options \<Rightarrow> (slice \<times> slice) list \<Rightarrow> bytes" where
  "table_image P options kvs =
     (case build_table P string_file options [] kvs of None \<Rightarrow> [] | Some (s, r) \<Rightarrow> tb_file r)"

subsection \<open>Compression\<close>

text \<open>
  What a compression library promises: an input that is not empty and has fewer than \<open>2 ^ 32\<close> bytes comes back
  from its compressed form.
\<close>

locale compression_port =
  fixes P :: Port
  assumes snappy: "raw \<noteq> [] \<Longrightarrow> length raw < 2 ^ 32 \<Longrightarrow> Snappy_Compress P raw = Some c \<Longrightarrow>
      Snappy_GetUncompressedLength P c = Some (length raw) \<and> Snappy_Uncompress P c = Some raw"
    and zstd: "raw \<noteq> [] \<Longrightarrow> length raw < 2 ^ 32 \<Longrightarrow> Zstd_Compress P level raw = Some c \<Longrightarrow>
      Zstd_GetUncompressedLength P c = Some (length raw) \<and> Zstd_Uncompress P c = Some raw"

interpretation no_compression: compression_port Port_none
  by unfold_locales (simp_all add: Port_none_def)

text \<open>A library that compresses: run lengths, a byte and its number of repetitions up to 255.\<close>

fun rle_push :: "byte \<Rightarrow> (byte \<times> byte) list \<Rightarrow> (byte \<times> byte) list" where
  "rle_push b [] = [(b, 1)]"
| "rle_push b ((b', n) # rs) = (if b = b' \<and> n < 255 then (b, n + 1) # rs else (b, 1) # (b', n) # rs)"

definition rle_compress :: "bytes \<Rightarrow> bytes" where
  "rle_compress raw = concat (map (\<lambda>(b, n). [b, n]) (foldr rle_push raw []))"

fun rle_expand :: "bytes \<Rightarrow> bytes" where
  "rle_expand (b # n # c) = replicate (unat n) b @ rle_expand c"
| "rle_expand c = []"

definition Port_rle :: Port where
  "Port_rle = \<lparr>Snappy_Compress = \<lambda>raw. Some (rle_compress raw),
     Snappy_GetUncompressedLength = \<lambda>c. Some (length (rle_expand c)), Snappy_Uncompress = \<lambda>c. Some (rle_expand c),
     Zstd_Compress = \<lambda>level raw. Some (rle_compress raw),
     Zstd_GetUncompressedLength = \<lambda>c. if rle_expand c = [] then None else Some (length (rle_expand c)),
     Zstd_Uncompress = \<lambda>c. if rle_expand c = [] then None else Some (rle_expand c)\<rparr>"

lemma rle_expand_runs: "rle_expand (concat (map (\<lambda>(b, n). [b, n]) rs)) = concat (map (\<lambda>(b, n). replicate (unat n) b) rs)"
  by (induction rs) auto

lemma rle_push_expand:
  "concat (map (\<lambda>(b, n). replicate (unat n) b) (rle_push b rs)) = b # concat (map (\<lambda>(b, n). replicate (unat n) b) rs)"
proof (cases rs)
  case (Cons r rs')
  obtain b' n where r: "r = (b', n)" by (cases r)
  have "unat (n + 1) = Suc (unat n)" if "n < 255"
    using that by (simp add: word_less_nat_alt unat_word_ariths)
  then show ?thesis by (simp add: Cons r)
qed simp

lemma rle_expand_compress: "rle_expand (rle_compress raw) = raw"
  unfolding rle_compress_def rle_expand_runs by (induction raw) (simp_all add: rle_push_expand)

interpretation rle: compression_port Port_rle
  by unfold_locales (auto simp: Port_rle_def rle_expand_compress)

text \<open>
  The blocks that a table is made of, before compression, have to be below \<open>2 ^ 32\<close> bytes: longer ones do not fit
  the 32-bit lengths and offsets in a block. The predicates follow a run of the builder over the ideal
  file: the data block after each key, then the metaindex and the index block of \<open>Finish\<close>.
\<close>

definition block_fits :: "BlockBuilder \<Rightarrow> bool" where
  "block_fits b \<longleftrightarrow> length (fst (BlockBuilder_Finish b)) < 2 ^ 32"

fun entries_fit :: "Port \<Rightarrow> bytes TableBuilder \<Rightarrow> (slice \<times> slice) list \<Rightarrow> bool" where
  "entries_fit P r [] \<longleftrightarrow> True"
| "entries_fit P r ((k, v) # kvs) \<longleftrightarrow> block_fits (BlockBuilder_Add (tb_data_block r) k v) \<and>
     (case TableBuilder_Add P string_file r k v of None \<Rightarrow> False | Some r \<Rightarrow> entries_fit P r kvs)"

definition Finish_fits :: "Port \<Rightarrow> bytes TableBuilder \<Rightarrow> bool" where
  "Finish_fits P r \<longleftrightarrow> block_fits (tb_data_block r) \<and>
     (case do {
        r \<leftarrow> TableBuilder_Flush P string_file r;
        (fh, r) \<leftarrow> Finish_filter string_file (r\<lparr>tb_closed := True\<rparr>);
        meta \<leftarrow> metaindex_block r fh;
        (mh, r) \<leftarrow> Finish_metaindex P string_file r fh;
        Some (meta, tb_index_block (last_index_entry r))
      } of None \<Rightarrow> False | Some (meta, index) \<Rightarrow> block_fits meta \<and> block_fits index)"

definition table_fits :: "Port \<Rightarrow> Options \<Rightarrow> (slice \<times> slice) list \<Rightarrow> bool" where
  "table_fits P options kvs \<longleftrightarrow> entries_fit P (TableBuilder_new options []) kvs \<and>
     (case add_entries P string_file (TableBuilder_new options []) kvs of None \<Rightarrow> False | Some r \<Rightarrow> Finish_fits P r)"

text \<open>
  On such a run the builder does what it does with the libraries that are used on short blocks only. The
  proofs below are about these.
\<close>

definition small_blocks :: "Port \<Rightarrow> Port" where
  "small_blocks P = P\<lparr>
     Snappy_Compress := \<lambda>raw. if raw \<noteq> [] \<and> length raw < 2 ^ 32 then Snappy_Compress P raw else None,
     Zstd_Compress := \<lambda>level raw. if raw \<noteq> [] \<and> length raw < 2 ^ 32 then Zstd_Compress P level raw else None\<rparr>"

lemma BlockBuilder_Finish_nonempty: "fst (BlockBuilder_Finish b) \<noteq> []"
  by (simp add: BlockBuilder_Finish_def Let_def PutFixed32_def EncodeFixed32_def)

lemma compress_block_small:
  "raw \<noteq> [] \<Longrightarrow> length raw < 2 ^ 32 \<Longrightarrow> compress_block (small_blocks P) options raw = compress_block P options raw"
  by (simp add: compress_block_def small_blocks_def Let_def)

lemma WriteBlock_small: "block_fits b \<Longrightarrow> WriteBlock (small_blocks P) W r b = WriteBlock P W r b"
  using compress_block_small [OF BlockBuilder_Finish_nonempty [of b]]
  by (simp add: WriteBlock_def block_fits_def Let_def split_def)

lemma Flush_small: "block_fits (tb_data_block r) \<Longrightarrow> TableBuilder_Flush (small_blocks P) W r = TableBuilder_Flush P W r"
  by (simp add: TableBuilder_Flush_def WriteBlock_small)

lemma Add_small:
  "block_fits (BlockBuilder_Add (tb_data_block r) k v) \<Longrightarrow> TableBuilder_Add (small_blocks P) W r k v = TableBuilder_Add P W r k v"
  by (simp add: TableBuilder_Add_def Let_def Flush_small add_index_entry_def)

lemma add_entries_small:
  "entries_fit P r kvs \<Longrightarrow> add_entries (small_blocks P) string_file r kvs = add_entries P string_file r kvs"
  by (induction P r kvs rule: entries_fit.induct) (auto simp: Add_small split: option.splits)

lemma Finish_small:
  assumes "Finish_fits P r"
  shows "TableBuilder_Finish (small_blocks P) string_file r = TableBuilder_Finish P string_file r"
proof -
  obtain r1 fh r2 meta mh r3 where r: "TableBuilder_Flush P string_file r = Some r1"
      "Finish_filter string_file (r1\<lparr>tb_closed := True\<rparr>) = Some (fh, r2)" "metaindex_block r2 fh = Some meta"
      "Finish_metaindex P string_file r2 fh = Some (mh, r3)"
    and fits: "block_fits (tb_data_block r)" "block_fits meta" "block_fits (tb_index_block (last_index_entry r3))"
    using assms by (auto simp: Finish_fits_def split: option.splits Option.bind_splits prod.splits)
  have "Finish_metaindex (small_blocks P) string_file r2 fh = Some (mh, r3)"
    using r(3,4) WriteBlock_small [OF fits(2), of P string_file r2] by (simp add: Finish_metaindex_def split: if_splits)
  moreover have "Finish_index (small_blocks P) string_file r3 = Finish_index P string_file r3"
    using WriteBlock_small [OF fits(3), of P string_file "last_index_entry r3"] by (simp add: Finish_index_def Let_def)
  ultimately show ?thesis using r Flush_small [OF fits(1)] by (simp add: TableBuilder_Finish_def)
qed

lemma build_table_small:
  assumes "table_fits P options kvs"
  shows "build_table (small_blocks P) string_file options [] kvs = build_table P string_file options [] kvs"
  using assms add_entries_small [of P "TableBuilder_new options []" kvs] Finish_small [of P]
  by (auto simp: table_fits_def build_table_def split: option.splits)

lemma table_image_small: "table_fits P options kvs \<Longrightarrow> table_image (small_blocks P) options kvs = table_image P options kvs"
  by (simp add: table_image_def build_table_small)

lemma decompresses_small [simp]: "decompresses (small_blocks P) = decompresses P"
  by (simp add: fun_eq_iff decompresses_def small_blocks_def)

locale small_block_port =
  fixes P :: Port
  assumes snappy: "Snappy_Compress P raw = Some c \<Longrightarrow> length raw < 2 ^ 32 \<and>
      Snappy_GetUncompressedLength P c = Some (length raw) \<and> Snappy_Uncompress P c = Some raw"
    and zstd: "Zstd_Compress P level raw = Some c \<Longrightarrow> length raw < 2 ^ 32 \<and>
      Zstd_GetUncompressedLength P c = Some (length raw) \<and> Zstd_Uncompress P c = Some raw"
begin

lemma compress_block_decompresses:
  assumes "opt_compression options \<le> kZstdCompression" "compress_block P options raw = (c, type)"
  shows "decompresses P type c raw" "length c < 2 ^ 32 \<Longrightarrow> length raw < 2 ^ 32"
proof -
  have t: "opt_compression options = kNoCompression \<or> opt_compression options = kSnappyCompression \<or>
      opt_compression options = kZstdCompression"
  proof -
    have "unat (opt_compression options) \<le> 2" using assms(1) by (simp add: kZstdCompression_def word_le_nat_alt)
    then have "unat (opt_compression options) = 0 \<or> unat (opt_compression options) = 1 \<or> unat (opt_compression options) = 2"
      by linarith
    then show ?thesis by (simp add: compression_consts word_unat_eq_iff)
  qed
  show "decompresses P type c raw" "length c < 2 ^ 32 \<Longrightarrow> length raw < 2 ^ 32"
    using t assms(2) snappy [of raw] zstd [of "opt_zstd_compression_level options" raw]
    by (auto simp: compress_block_def decompresses_def Let_def compression_consts new_char_array_throws_def split: option.splits if_splits)
qed

end

sublocale compression_port \<subseteq> small: small_block_port "small_blocks P"
  using snappy zstd by unfold_locales (auto simp: small_blocks_def split: if_splits)

subsection \<open>Blocks in a file\<close>

definition stored :: "Port \<Rightarrow> bytes \<Rightarrow> BlockHandle \<Rightarrow> bytes \<Rightarrow> bool" where
  "stored P c h d \<longleftrightarrow> (\<exists>pre raw type post. c = pre @ raw @ block_trailer raw type @ post \<and>
     unat (bh_offset h) = length pre \<and> unat (bh_size h) = length raw \<and> decompresses P type raw d)"

definition holds_block :: "BlockBuilder \<Rightarrow> (slice \<times> slice) list \<Rightarrow> bool" where
  "holds_block b kvs \<longleftrightarrow> (\<exists>es ris. built b es ris \<and> map snd es = kvs)"

definition block_data :: "bytes \<Rightarrow> (slice \<times> slice) list \<Rightarrow> bool" where
  "block_data d kvs \<longleftrightarrow> (\<exists>es ris. blk es ris \<and> d = block_bytes es ris \<and> map snd es = kvs)"

lemma stored_append: "stored P c h d \<Longrightarrow> stored P (c @ x) h d"
  unfolding stored_def by (metis append.assoc)

lemma stored_here:
  assumes "unat off = length c" "length raw < 2 ^ 64" "decompresses P type raw d"
  shows "stored P (c @ raw @ block_trailer raw type) \<lparr>bh_offset = off, bh_size = of_nat (length raw)\<rparr> d"
  unfolding stored_def using assms
  by (intro exI [of _ c] exI [of _ raw] exI [of _ type] exI [of _ "[]"]) (simp add: unat_of_nat)

lemma holds_block_new: "0 < interval \<Longrightarrow> holds_block (BlockBuilder_new interval) []"
  unfolding holds_block_def using built_new by fastforce

lemma holds_block_Add: "holds_block b kvs \<Longrightarrow> holds_block (BlockBuilder_Add b k v) (kvs @ [(k, v)])"
  unfolding holds_block_def using built_Add by fastforce

lemma holds_block_Reset: "holds_block b kvs \<Longrightarrow> holds_block (BlockBuilder_Reset (snd (BlockBuilder_Finish b))) []"
proof -
  assume "holds_block b kvs"
  then have "0 < bb_block_restart_interval b" by (auto simp: holds_block_def built_def)
  then have "built (BlockBuilder_Reset (snd (BlockBuilder_Finish b))) [] [0]"
    by (intro built_Reset) (simp add: BlockBuilder_Finish_def Let_def)
  then show ?thesis unfolding holds_block_def by (intro exI [of _ "[]"] exI [of _ "[0]"]) simp
qed

lemma holds_block_empty: "holds_block b kvs \<Longrightarrow> BlockBuilder_empty b \<longleftrightarrow> kvs = []"
proof -
  assume "holds_block b kvs"
  then obtain es ris where b: "built b es ris" "map snd es = kvs" by (auto simp: holds_block_def)
  have "entry_bytes e \<noteq> []" for e using entry_bytes_length(1) [of e] by auto
  then show ?thesis using b by (cases es) (auto simp add: BlockBuilder_empty_def built_def)
qed

lemma holds_block_Finish:
  assumes "holds_block b kvs" "length (fst (BlockBuilder_Finish b)) < 2 ^ 32"
  shows "block_data (fst (BlockBuilder_Finish b)) kvs"
proof -
  obtain es ris where b: "built b es ris" "map snd es = kvs" using assms by (auto simp: holds_block_def)
  then have "blk es ris" using assms(2) Finish_block_bytes [OF b(1)] by (simp add: blk_def built_def)
  then show ?thesis using b Finish_block_bytes [OF b(1)] by (auto simp: block_data_def)
qed

subsection \<open>Writing to the ideal file\<close>

definition wrote :: "bytes TableBuilder \<Rightarrow> slice \<Rightarrow> byte \<Rightarrow> bytes TableBuilder" where
  "wrote r c type = r\<lparr>tb_status := OK, tb_file := tb_file r @ c @ block_trailer c type,
     tb_offset := tb_offset r + of_nat (length c + 5)\<rparr>"

abbreviation next_handle :: "'f TableBuilder \<Rightarrow> slice \<Rightarrow> BlockHandle" where
  "next_handle r c \<equiv> \<lparr>bh_offset = tb_offset r, bh_size = of_nat (length c)\<rparr>"

lemma WriteRawBlock_string: "WriteRawBlock string_file r c type = Some (next_handle r c, wrote r c type)"
  by (simp add: WriteRawBlock_def string_file_def Let_def Extend_Value wrote_def block_trailer_def kBlockTrailerSize_def)

lemma wrote_simps [simp]:
  "tb_file (wrote r c type) = tb_file r @ c @ block_trailer c type" "tb_status (wrote r c type) = OK"
  "tb_offset (wrote r c type) = tb_offset r + of_nat (length c + 5)" "tb_options (wrote r c type) = tb_options r"
  "tb_data_block (wrote r c type) = tb_data_block r" "tb_index_block (wrote r c type) = tb_index_block r"
  "tb_last_key (wrote r c type) = tb_last_key r" "tb_filter_block (wrote r c type) = tb_filter_block r"
  "tb_pending_index_entry (wrote r c type) = tb_pending_index_entry r"
  "tb_pending_handle (wrote r c type) = tb_pending_handle r"
  by (simp_all add: wrote_def)

definition block_of :: "Port \<Rightarrow> bytes TableBuilder \<Rightarrow> BlockBuilder \<Rightarrow> slice \<times> byte" where
  "block_of P r b = compress_block P (tb_options r) (fst (BlockBuilder_Finish b))"

definition wrote_block :: "Port \<Rightarrow> bytes TableBuilder \<Rightarrow> BlockBuilder \<Rightarrow> bytes TableBuilder" where
  "wrote_block P r b = wrote r (fst (block_of P r b)) (snd (block_of P r b))"

lemma WriteBlock_string:
  "WriteBlock P string_file r b =
     Some (next_handle r (fst (block_of P r b)), BlockBuilder_Reset (snd (BlockBuilder_Finish b)), wrote_block P r b)"
  by (simp add: WriteBlock_def WriteRawBlock_string Let_def block_of_def wrote_block_def split: prod.splits)

lemma offset_step:
  assumes "unat (off :: u64) = length c" "length (c @ d) < 2 ^ 64"
  shows "unat (off + of_nat (length d)) = length (c @ d)"
  using assms by (simp add: unat_word_ariths unat_of_nat)

lemma wrote_offset:
  assumes "unat (tb_offset r) = length (tb_file r)" "length (tb_file (wrote r c type)) < 2 ^ 32"
  shows "unat (tb_offset (wrote r c type)) = length (tb_file (wrote r c type))"
  using offset_step [OF assms(1), of "c @ block_trailer c type"] assms(2) by simp

context small_block_port
begin

lemma wrote_block_stored:
  assumes o: "unat (tb_offset r) = length (tb_file r)" "opt_compression (tb_options r) \<le> kZstdCompression"
    and b: "holds_block b kvs" and len: "length (tb_file (wrote_block P r b)) < 2 ^ 32"
  shows "\<exists>d. stored P (tb_file (wrote_block P r b)) (next_handle r (fst (block_of P r b))) d \<and> block_data d kvs"
proof -
  obtain c type where c: "block_of P r b = (c, type)" by fastforce
  have f: "tb_file (wrote_block P r b) = tb_file r @ c @ block_trailer c type" by (simp add: wrote_block_def c)
  have cl: "length c < 2 ^ 32" using len f by simp
  note d = compress_block_decompresses [OF o(2) c [unfolded block_of_def]]
  show ?thesis
    using stored_here [OF o(1) _ d(1)] holds_block_Finish [OF b] d(2) [OF cl] cl by (fastforce simp: f c)
qed

end

subsection \<open>What the builder has written\<close>

text \<open>
  \<open>blks\<close> are the data blocks with an index entry: the separator, the handle and the entries; \<open>pend\<close> holds
  the block whose index entry is pending, if there is one; \<open>cur\<close> are the entries of the block being built.
\<close>

type_synonym table_block = "BlockHandle \<times> (slice \<times> slice) list"

definition table_entries :: "(slice \<times> table_block) list \<Rightarrow> table_block list \<Rightarrow> (slice \<times> slice) list \<Rightarrow> (slice \<times> slice) list" where
  "table_entries blks pend cur = concat (map (snd \<circ> snd) blks) @ concat (map snd pend) @ cur"

definition index_entries :: "(slice \<times> table_block) list \<Rightarrow> (slice \<times> slice) list" where
  "index_entries blks = map (\<lambda>(s, h, kvs). (s, BlockHandle_EncodeTo h [])) blks"

definition seps_ok :: "(slice \<Rightarrow> slice \<Rightarrow> int) \<Rightarrow> (slice \<times> table_block) list \<Rightarrow> (slice \<times> slice) list \<Rightarrow> bool" where
  "seps_ok cmp blks rest \<longleftrightarrow> (\<forall>i<length blks.
     (\<forall>kv\<in>set (snd (snd (blks ! i))). cmp (fst kv) (fst (blks ! i)) \<le> 0) \<and>
     (\<forall>kv\<in>set (concat (map (snd \<circ> snd) (drop (Suc i) blks)) @ rest). cmp (fst (blks ! i)) (fst kv) < 0))"

text \<open>Every separator comes from the comparator, from the last key of its block and the key that follows.\<close>

definition seps_made :: "(bytes \<Rightarrow> slice \<Rightarrow> bytes) \<Rightarrow> (slice \<times> table_block) list \<Rightarrow> (slice \<times> slice) list \<Rightarrow> bool" where
  "seps_made sep blks rest \<longleftrightarrow> (\<forall>i<length blks. concat (map (snd \<circ> snd) (drop (Suc i) blks)) @ rest \<noteq> [] \<longrightarrow>
     fst (blks ! i) = sep (fst (last (snd (snd (blks ! i))))) (fst (hd (concat (map (snd \<circ> snd) (drop (Suc i) blks)) @ rest))))"

lemma seps_made_more: "seps_made sep blks rest \<Longrightarrow> rest \<noteq> [] \<or> blks = [] \<Longrightarrow> seps_made sep blks (rest @ ys)"
  by (auto simp: seps_made_def simp flip: append_assoc)

lemma seps_made_snoc:
  assumes "seps_made sep blks (snd b)" "snd b \<noteq> []" "rest \<noteq> [] \<longrightarrow> s = sep (fst (last (snd b))) (fst (hd rest))"
  shows "seps_made sep (blks @ [(s, b)]) rest"
  unfolding seps_made_def
proof (intro allI impI)
  fix i assume i: "i < length (blks @ [(s, b)])" and ne: "concat (map (snd \<circ> snd) (drop (Suc i) (blks @ [(s, b)]))) @ rest \<noteq> []"
  let ?d = "concat (map (snd \<circ> snd) (drop (Suc i) blks))"
  show "fst ((blks @ [(s, b)]) ! i) =
      sep (fst (last (snd (snd ((blks @ [(s, b)]) ! i))))) (fst (hd (concat (map (snd \<circ> snd) (drop (Suc i) (blks @ [(s, b)]))) @ rest)))"
  proof (cases "i < length blks")
    case True
    then have "fst (blks ! i) = sep (fst (last (snd (snd (blks ! i))))) (fst (hd (?d @ snd b)))"
      using assms(1,2) by (simp add: seps_made_def)
    moreover have "hd (?d @ snd b @ rest) = hd (?d @ snd b)" using assms(2) by (simp add: hd_append)
    ultimately show ?thesis using True by (simp add: nth_append)
  next
    case False
    then have "i = length blks" using i by simp
    then show ?thesis using ne assms(3) by simp
  qed
qed

abbreviation opt_Separator :: "Options \<Rightarrow> bytes \<Rightarrow> slice \<Rightarrow> bytes" where
  "opt_Separator options \<equiv> cmp_FindShortestSeparator (opt_comparator options)"

definition block_stored :: "Port \<Rightarrow> bytes \<Rightarrow> table_block \<Rightarrow> bool" where
  "block_stored P c b \<longleftrightarrow> snd b \<noteq> [] \<and> (\<exists>d. stored P c (fst b) d \<and> block_data d (snd b))"

abbreviation opt_Compare :: "Options \<Rightarrow> slice \<Rightarrow> slice \<Rightarrow> int" where
  "opt_Compare options \<equiv> cmp_Compare (opt_comparator options)"

definition pending_ok :: "bool \<Rightarrow> BlockHandle \<Rightarrow> (slice \<times> table_block) list \<Rightarrow> table_block list \<Rightarrow> (slice \<times> slice) list \<Rightarrow> bool" where
  "pending_ok pending h blks pend cur \<longleftrightarrow>
     (if pending then cur = [] \<and> (\<exists>b. pend = [b] \<and> h = fst b) else pend = [] \<and> (cur = [] \<longrightarrow> blks = []))"

definition tb_data :: "Port \<Rightarrow> Options \<Rightarrow> (slice \<Rightarrow> bool) \<Rightarrow> bytes TableBuilder \<Rightarrow>
    (slice \<times> table_block) list \<Rightarrow> table_block list \<Rightarrow> (slice \<times> slice) list \<Rightarrow> bool" where
  "tb_data P options ok r blks pend cur \<longleftrightarrow>
     tb_options r = options \<and> tb_status r = OK \<and> unat (tb_offset r) = length (tb_file r) \<and>
     (\<forall>b \<in> snd ` set blks \<union> set pend. block_stored P (tb_file r) b) \<and>
     holds_block (tb_index_block r) (index_entries blks) \<and> holds_block (tb_data_block r) cur \<and>
     pending_ok (tb_pending_index_entry r) (tb_pending_handle r) blks pend cur \<and>
     sorted_wrt (\<lambda>a b. opt_Compare options (fst a) (fst b) < 0) (table_entries blks pend cur) \<and>
     (\<forall>kv\<in>set (table_entries blks pend cur). ok (fst kv)) \<and>
     (table_entries blks pend cur \<noteq> [] \<longrightarrow> tb_last_key r = fst (last (table_entries blks pend cur))) \<and>
     seps_ok (opt_Compare options) blks (concat (map snd pend) @ cur) \<and> (\<forall>e\<in>set blks. ok (fst e)) \<and>
     seps_made (opt_Separator options) blks (concat (map snd pend) @ cur)"

definition added :: "'f TableBuilder \<Rightarrow> slice \<Rightarrow> slice \<Rightarrow> 'f TableBuilder" where
  "added r key val =
     (let r = (if tb_pending_index_entry r
               then add_index_entry r (cmp_FindShortestSeparator (opt_comparator (tb_options r)) (tb_last_key r) key)
               else r)
      in r\<lparr>tb_filter_block := map_option (\<lambda>(policy, b). (policy, FilterBlock_AddKey b key)) (tb_filter_block r),
           tb_last_key := key, tb_num_entries := tb_num_entries r + 1,
           tb_data_block := BlockBuilder_Add (tb_data_block r) key val\<rparr>)"

definition flushed :: "Port \<Rightarrow> bytes TableBuilder \<Rightarrow> bytes TableBuilder" where
  "flushed P r =
     (let r' = wrote_block P r (tb_data_block r)
      in r'\<lparr>tb_pending_handle := next_handle r (fst (block_of P r (tb_data_block r))),
            tb_data_block := BlockBuilder_Reset (snd (BlockBuilder_Finish (tb_data_block r))),
            tb_pending_index_entry := True,
            tb_filter_block := map_option (\<lambda>(policy, b). (policy, StartBlock (fp_CreateFilter policy) b (tb_offset r')))
              (tb_filter_block r)\<rparr>)"

lemma wrote_block_simps [simp]:
  "tb_status (wrote_block P r b) = OK" "tb_options (wrote_block P r b) = tb_options r"
  "tb_data_block (wrote_block P r b) = tb_data_block r" "tb_index_block (wrote_block P r b) = tb_index_block r"
  "tb_last_key (wrote_block P r b) = tb_last_key r" "tb_filter_block (wrote_block P r b) = tb_filter_block r"
  "tb_pending_index_entry (wrote_block P r b) = tb_pending_index_entry r"
  "tb_pending_handle (wrote_block P r b) = tb_pending_handle r"
  by (simp_all add: wrote_block_def)

lemma Flush_string:
  "tb_status r = OK \<Longrightarrow> TableBuilder_Flush P string_file r =
     Some (if BlockBuilder_empty (tb_data_block r) then r else flushed P r)"
  by (simp add: TableBuilder_Flush_def WriteBlock_string flushed_def Let_def)
    (simp add: string_file_def wrote_block_def wrote_def Let_def)

lemma TableBuilder_Add_eq:
  "tb_status r = OK \<Longrightarrow> TableBuilder_Add P W r k v =
     (if CurrentSizeEstimate (tb_data_block (added r k v)) \<ge> opt_block_size (tb_options (added r k v))
      then TableBuilder_Flush P W (added r k v) else Some (added r k v))"
  by (simp add: TableBuilder_Add_def added_def Let_def)

lemma Add_string:
  "tb_status r = OK \<Longrightarrow> TableBuilder_Add P string_file r k v =
     Some (let r' = added r k v in
       if CurrentSizeEstimate (tb_data_block r') \<ge> opt_block_size (tb_options r) \<and> \<not> BlockBuilder_empty (tb_data_block r')
       then flushed P r' else r')"
proof -
  assume s: "tb_status r = OK"
  then have "tb_status (added r k v) = OK" "tb_options (added r k v) = tb_options r"
    by (simp_all add: added_def add_index_entry_def Let_def)
  then show ?thesis by (simp add: TableBuilder_Add_eq [OF s] Flush_string Let_def)
qed

lemma block_stored_append: "block_stored P c b \<Longrightarrow> block_stored P (c @ x) b"
  unfolding block_stored_def using stored_append by blast

locale builder_options = shortening_comparator "cmp_Compare (opt_comparator options)" ok
    "cmp_FindShortestSeparator (opt_comparator options)" "cmp_FindShortSuccessor (opt_comparator options)"
  for options :: Options and ok +
  assumes compression: "opt_compression options \<le> kZstdCompression"
    and interval: "0 < opt_block_restart_interval options"
    and policy: "opt_filter_policy options = Some policy \<Longrightarrow>
      filter_policy (fp_CreateFilter policy) (fp_KeyMayMatch policy) (\<lambda>keys. length keys < 2 ^ 31)"

locale table_options = compression_port P + builder_options options ok
  for P and options :: Options and ok

locale small_block_table = small_block_port P + builder_options options ok
  for P and options :: Options and ok
begin

lemma data_new: "tb_data P options ok (TableBuilder_new options []) [] [] []"
  using holds_block_new [OF interval] holds_block_new [of 1]
  by (simp add: tb_data_def pending_ok_def TableBuilder_new_def table_entries_def seps_ok_def seps_made_def index_entries_def)

lemma data_flushed:
  assumes r: "tb_data P options ok r blks [] cur" and cur: "cur \<noteq> []" and len: "length (tb_file (flushed P r)) < 2 ^ 32"
  shows "\<exists>b. tb_data P options ok (flushed P r) blks [b] [] \<and> snd b = cur \<and> bh_offset (fst b) = tb_offset r"
proof -
  let ?r = "wrote_block P r (tb_data_block r)" and ?h = "next_handle r (fst (block_of P r (tb_data_block r)))"
  have i: "tb_options r = options" "unat (tb_offset r) = length (tb_file r)" "holds_block (tb_data_block r) cur"
    using r by (simp_all add: tb_data_def pending_ok_def)
  have l: "length (tb_file ?r) < 2 ^ 32" using len by (simp add: flushed_def Let_def)
  have st: "block_stored P (tb_file ?r) (?h, cur)"
    using wrote_block_stored [of r "tb_data_block r" cur] i l compression cur by (simp add: block_stored_def)
  have old: "block_stored P (tb_file ?r) b" if "block_stored P (tb_file r) b" for b
    using block_stored_append [OF that] by (simp add: wrote_block_def)
  have off: "unat (tb_offset ?r) = length (tb_file ?r)"
    using wrote_offset [OF i(2)] l by (simp add: wrote_block_def)
  have "tb_data P options ok (flushed P r) blks [(?h, cur)] []"
    using r st old off holds_block_Reset [OF i(3)]
    by (auto simp: tb_data_def pending_ok_def flushed_def Let_def table_entries_def)
  then show ?thesis by force
qed

lemma last_entry_less:
  assumes "sorted_wrt (\<lambda>a b. opt_Compare options (fst a) (fst b) < 0) kvs" "\<forall>kv\<in>set kvs. ok (fst kv)" "kv \<in> set kvs"
  shows "opt_Compare options (fst kv) (fst (last kvs)) \<le> 0"
proof -
  obtain xs x where kvs: "kvs = xs @ [x]" using assms(3) by (cases kvs rule: rev_cases) auto
  show ?thesis
  proof (cases "kv = x")
    case False
    then have "opt_Compare options (fst kv) (fst x) < 0" using assms kvs by (auto simp: sorted_wrt_append)
    then show ?thesis using kvs by simp
  qed (use assms kvs in simp)
qed

lemma data_added:
  assumes r: "tb_data P options ok r blks pend cur" and k: "ok k"
    and up: "table_entries blks pend cur \<noteq> [] \<longrightarrow> opt_Compare options (fst (last (table_entries blks pend cur))) k < 0"
  shows "\<exists>blks'. tb_data P options ok (added r k v) blks' [] (cur @ [(k, v)]) \<and>
    concat (map (snd \<circ> snd) blks') = concat (map (snd \<circ> snd) blks) @ concat (map snd pend) \<and>
    snd ` set blks' = snd ` set blks \<union> set pend"
proof -
  let ?cmp = "opt_Compare options" and ?all = "table_entries blks pend cur"
  have srt: "sorted_wrt (\<lambda>a b. ?cmp (fst a) (fst b) < 0) ?all" and oks: "\<forall>kv\<in>set ?all. ok (fst kv)"
    using r by (auto simp: tb_data_def pending_ok_def)
  have less: "?cmp (fst kv) k < 0" if "kv \<in> set ?all" for kv
  proof -
    have ne: "?all \<noteq> []" using that by auto
    then have "ok (fst (last ?all))" using oks by simp
    then show ?thesis
      using compare_le_less_trans [of "fst kv" "fst (last ?all)" k] last_entry_less [OF srt oks that] up ne oks that k by blast
  qed
  have srt': "sorted_wrt (\<lambda>a b. ?cmp (fst a) (fst b) < 0) (?all @ [(k, v)])"
    using srt less by (simp add: sorted_wrt_append)
  show ?thesis
  proof (cases "tb_pending_index_entry r")
    case False
    then have p: "pend = []" "cur = [] \<longrightarrow> blks = []" using r by (auto simp: tb_data_def pending_ok_def)
    have sep: "seps_ok ?cmp blks (cur @ [(k, v)])"
      unfolding seps_ok_def
    proof (intro allI impI conjI ballI)
      fix i kv assume i: "i < length blks"
      have old: "seps_ok ?cmp blks cur" using r p by (simp add: tb_data_def pending_ok_def)
      show "?cmp (fst kv) (fst (blks ! i)) \<le> 0" if "kv \<in> set (snd (snd (blks ! i)))"
        using old i that by (simp add: seps_ok_def)
      assume kv: "kv \<in> set (concat (map (snd \<circ> snd) (drop (Suc i) blks)) @ cur @ [(k, v)])"
      show "?cmp (fst (blks ! i)) (fst kv) < 0"
      proof (cases "kv = (k, v)")
        case True
        have c: "cur \<noteq> []" "ok (fst (blks ! i))" using p(2) i r by (auto simp: tb_data_def pending_ok_def)
        then have "?cmp (fst (blks ! i)) (fst (last cur)) < 0" using old i by (auto simp: seps_ok_def)
        moreover have "last cur \<in> set ?all" using c(1) by (simp add: table_entries_def)
        ultimately show ?thesis using compare_trans [OF c(2) _ k, of "fst (last cur)"] less [of "last cur"] oks True by simp
      qed (use old i kv in \<open>auto simp: seps_ok_def\<close>)
    qed
    have made: "seps_made (opt_Separator options) blks (cur @ [(k, v)])"
      using r p by (intro seps_made_more) (auto simp: tb_data_def)
    have "tb_data P options ok (added r k v) blks [] (cur @ [(k, v)])"
      using r False p sep made srt' k holds_block_Add [of "tb_data_block r" cur k v]
      by (simp add: tb_data_def pending_ok_def added_def table_entries_def Let_def)
    then show ?thesis using p by (intro exI [of _ blks]) auto
  next
    case True
    then obtain b where p: "pend = [b]" "cur = []" "tb_pending_handle r = fst b" using r by (auto simp: tb_data_def pending_ok_def)
    have all: "?all = concat (map (snd \<circ> snd) blks) @ snd b" by (simp add: table_entries_def p)
    have b: "snd b \<noteq> []" using r p by (simp add: tb_data_def pending_ok_def block_stored_def)
    define s where "s = cmp_FindShortestSeparator (opt_comparator options) (tb_last_key r) k"
    have last: "tb_last_key r = fst (last ?all)" using r b by (simp add: tb_data_def pending_ok_def all)
    have lk: "ok (tb_last_key r)" "?cmp (tb_last_key r) k < 0"
      using less [of "last ?all"] oks last b all by auto
    have s: "ok s" "?cmp (tb_last_key r) s \<le> 0" "?cmp s k < 0"
      using separator_ok [OF lk(1) k] separator_ge [OF lk(1) k lk(2)] separator_less [OF lk(1) k lk(2)] by (auto simp: s_def)
    have le_s: "?cmp (fst kv) s \<le> 0" if "kv \<in> set ?all" for kv
      using compare_le_trans [OF _ lk(1) s(1)] last_entry_less [OF srt oks that] last s(2) oks that by simp
    have old: "seps_ok ?cmp blks (snd b)" using r p by (simp add: tb_data_def pending_ok_def)
    have sep: "seps_ok ?cmp (blks @ [(s, b)]) [(k, v)]"
      unfolding seps_ok_def
    proof (intro allI impI conjI ballI)
      fix i kv assume i: "i < length (blks @ [(s, b)])"
      show "?cmp (fst kv) (fst ((blks @ [(s, b)]) ! i)) \<le> 0" if "kv \<in> set (snd (snd ((blks @ [(s, b)]) ! i)))"
        using old i that le_s [of kv] by (cases "i < length blks") (auto simp: seps_ok_def nth_append all less_Suc_eq)
      assume kv: "kv \<in> set (concat (map (snd \<circ> snd) (drop (Suc i) (blks @ [(s, b)]))) @ [(k, v)])"
      show "?cmp (fst ((blks @ [(s, b)]) ! i)) (fst kv) < 0"
      proof (cases "i < length blks")
        case True
        have c: "ok (fst (blks ! i))" using True r by (auto simp: tb_data_def pending_ok_def)
        have "?cmp (fst (blks ! i)) (fst (last (snd b))) < 0" using old True b by (auto simp: seps_ok_def)
        moreover have "last (snd b) \<in> set ?all" using b by (simp add: all)
        ultimately have "?cmp (fst (blks ! i)) k < 0" using compare_trans [OF c _ k, of "fst (last (snd b))"] less [of "last (snd b)"] oks by simp
        then show ?thesis using old True kv by (auto simp: seps_ok_def nth_append)
      next
        case False
        then have "i = length blks" using i by simp
        then show ?thesis using kv s(3) by simp
      qed
    qed
    have made: "seps_made (opt_Separator options) (blks @ [(s, b)]) [(k, v)]"
      using r p b last by (intro seps_made_snoc) (auto simp: tb_data_def all s_def table_entries_def)
    have ix: "index_entries (blks @ [(s, b)]) = index_entries blks @ [(s, BlockHandle_EncodeTo (fst b) [])]"
      by (cases b) (simp add: index_entries_def)
    have opt: "tb_options r = options" using r by (simp add: tb_data_def pending_ok_def)
    have fld: "tb_options (added r k v) = options" "tb_status (added r k v) = tb_status r" "tb_offset (added r k v) = tb_offset r"
      "tb_file (added r k v) = tb_file r" "tb_data_block (added r k v) = BlockBuilder_Add (tb_data_block r) k v"
      "tb_index_block (added r k v) = BlockBuilder_Add (tb_index_block r) s (BlockHandle_EncodeTo (fst b) [])"
      "tb_last_key (added r k v) = k" "\<not> tb_pending_index_entry (added r k v)"
      using True opt p(3) by (simp_all add: added_def add_index_entry_def Let_def s_def)
    have "holds_block (tb_index_block (added r k v)) (index_entries (blks @ [(s, b)]))"
      "holds_block (tb_data_block (added r k v)) [(k, v)]"
      using r p(2) holds_block_Add [of "tb_index_block r"] holds_block_Add [of "tb_data_block r" "[]"]
      unfolding ix fld by (auto simp: tb_data_def pending_ok_def)
    moreover have "table_entries (blks @ [(s, b)]) [] [(k, v)] = ?all @ [(k, v)]" by (simp add: table_entries_def p)
    moreover have "\<forall>x \<in> snd ` set (blks @ [(s, b)]) \<union> set []. block_stored P (tb_file r) x"
      using r p by (auto simp: tb_data_def pending_ok_def)
    ultimately have "tb_data P options ok (added r k v) (blks @ [(s, b)]) [] ([] @ [(k, v)])"
      using r sep made srt' oks k s(1) fld(8) unfolding tb_data_def pending_ok_def fld(1-7) by auto
    then show ?thesis unfolding p by (intro exI [of _ "blks @ [(s, b)]"]) auto
  qed
qed

end

subsection \<open>The filter of the builder\<close>

text \<open>
  \<open>blocks\<close> are the data blocks that were flushed, \<open>cur\<close> the entries of the current one and \<open>n\<close> a bound on
  the number of keys of a filter.
\<close>

definition tb_filt :: "Options \<Rightarrow> bytes TableBuilder \<Rightarrow> table_block set \<Rightarrow> (slice \<times> slice) list \<Rightarrow> nat \<Rightarrow> bool" where
  "tb_filt options r blocks cur n \<longleftrightarrow>
     (case tb_filter_block r of None \<Rightarrow> opt_filter_policy options = None
      | Some (policy, b) \<Rightarrow> opt_filter_policy options = Some policy \<and>
          (\<exists>made curk. holds (fp_CreateFilter policy) b made curk \<and> length made = unat (tb_offset r) div 2048 \<and>
             (\<forall>x\<in>blocks. \<forall>kv\<in>set (snd x). fst kv \<in> set (keys_at made curk (unat (bh_offset (fst x)) div 2048))) \<and>
             (\<forall>kv\<in>set cur. fst kv \<in> set curk) \<and> (\<forall>i. length (keys_at made curk i) \<le> n)))"

lemma filt_added:
  assumes "tb_filt options r blocks cur n"
  shows "tb_filt options (added r k v) blocks (cur @ [(k, v)]) (Suc n)"
proof (cases "tb_filter_block r")
  case None
  then show ?thesis using assms by (simp add: tb_filt_def added_def add_index_entry_def Let_def)
next
  case (Some pb)
  obtain policy b where pb: "pb = (policy, b)" by (cases pb)
  obtain made curk where m: "opt_filter_policy options = Some policy" "holds (fp_CreateFilter policy) b made curk"
    "length made = unat (tb_offset r) div 2048"
    "\<forall>x\<in>blocks. \<forall>kv\<in>set (snd x). fst kv \<in> set (keys_at made curk (unat (bh_offset (fst x)) div 2048))"
    "\<forall>kv\<in>set cur. fst kv \<in> set curk" "\<forall>i. length (keys_at made curk i) \<le> n"
    using assms by (auto simp: tb_filt_def Some pb)
  have sub: "set (keys_at made curk i) \<subseteq> set (keys_at made (curk @ [k]) i)" for i by (auto simp: keys_at_def)
  have len: "length (keys_at made (curk @ [k]) i) \<le> Suc n" for i
    using m(6) [rule_format, of i] by (auto simp: keys_at_def split: if_splits)
  have fld: "tb_filter_block (added r k v) = Some (policy, FilterBlock_AddKey b k)" "tb_offset (added r k v) = tb_offset r"
    by (simp_all add: added_def add_index_entry_def Let_def Some pb)
  show ?thesis
    unfolding tb_filt_def fld option.case prod.case
  proof (intro conjI exI [of _ made] exI [of _ "curk @ [k]"])
    show "\<forall>x\<in>blocks. \<forall>kv\<in>set (snd x). fst kv \<in> set (keys_at made (curk @ [k]) (unat (bh_offset (fst x)) div 2048))"
      using m(4) sub by blast
  qed (use m len holds_AddKey in auto)
qed

definition tb_run :: "Port \<Rightarrow> Options \<Rightarrow> (slice \<Rightarrow> bool) \<Rightarrow> bytes TableBuilder \<Rightarrow>
    (slice \<times> table_block) list \<Rightarrow> table_block list \<Rightarrow> (slice \<times> slice) list \<Rightarrow> bool" where
  "tb_run P options ok r blks pend cur \<longleftrightarrow> tb_data P options ok r blks pend cur \<and>
     tb_filt options r (snd ` set blks \<union> set pend) cur (length (table_entries blks pend cur))"

lemma file_added [simp]: "tb_file (added r k v) = tb_file r" "tb_status (added r k v) = tb_status r"
  by (simp_all add: added_def add_index_entry_def Let_def)

lemma file_flushed: "length (tb_file r) \<le> length (tb_file (flushed P r))" "tb_status (flushed P r) = OK"
  by (simp_all add: flushed_def Let_def wrote_block_def)

lemma add_entries_grows:
  "tb_status r = OK \<Longrightarrow> \<exists>r'. add_entries P string_file r kvs = Some r' \<and> tb_status r' = OK \<and> length (tb_file r) \<le> length (tb_file r')"
proof (induction kvs arbitrary: r)
  case (Cons kv kvs)
  obtain k v where kv: "kv = (k, v)" by (cases kv)
  obtain r' where r': "TableBuilder_Add P string_file r k v = Some r'" "tb_status r' = OK" "length (tb_file r) \<le> length (tb_file r')"
    using Add_string [OF Cons.prems, of P k v] file_flushed [where r = "added r k v" and P = P] Cons.prems
    by (cases "CurrentSizeEstimate (tb_data_block (added r k v)) \<ge> opt_block_size (tb_options r) \<and> \<not> BlockBuilder_empty (tb_data_block (added r k v))")
      (auto simp: Let_def)
  then show ?case using Cons.IH [OF r'(2)] by (auto simp: kv)
qed simp

context small_block_table
begin

lemma filt_new: "tb_filt options (TableBuilder_new options []) {} [] 0"
proof (cases "opt_filter_policy options")
  case (Some p)
  have "StartBlock (fp_CreateFilter p) FilterBlockBuilder_new 0 = FilterBlockBuilder_new"
    by (simp add: StartBlock_def StartBlock_loop.simps FilterBlockBuilder_new_def)
  then show ?thesis
    using Some holds_new [of "fp_CreateFilter p"]
    by (auto simp: tb_filt_def TableBuilder_new_def keys_at_def intro!: exI [of _ "[]"])
qed (simp add: tb_filt_def TableBuilder_new_def)

lemma filt_flushed:
  assumes f: "tb_filt options r blocks cur n" and h: "bh_offset (fst x) = tb_offset r" "snd x = cur"
    and le: "unat (tb_offset r) \<le> unat (tb_offset (flushed P r))"
  shows "tb_filt options (flushed P r) (insert x blocks) [] n"
proof (cases "tb_filter_block r")
  case None
  then show ?thesis using f by (simp add: tb_filt_def flushed_def Let_def)
next
  case (Some pb)
  obtain p b where pb: "pb = (p, b)" by (cases pb)
  obtain made curk where m: "opt_filter_policy options = Some p" "holds (fp_CreateFilter p) b made curk"
    "length made = unat (tb_offset r) div 2048"
    "\<forall>x\<in>blocks. \<forall>kv\<in>set (snd x). fst kv \<in> set (keys_at made curk (unat (bh_offset (fst x)) div 2048))"
    "\<forall>kv\<in>set cur. fst kv \<in> set curk" "\<forall>i. length (keys_at made curk i) \<le> n"
    using f by (auto simp: tb_filt_def Some pb)
  let ?o = "tb_offset (flushed P r)"
  have "length made \<le> unat ?o div 2048" using m(3) le by (simp add: div_le_mono)
  then obtain made' curk' where m': "holds (fp_CreateFilter p) (StartBlock (fp_CreateFilter p) b ?o) made' curk'"
    "length made' = unat ?o div 2048" "keys_at made' curk' = keys_at made curk"
    using filter_policy.holds_StartBlock [OF policy [OF m(1)] m(2)] by blast
  have "fst kv \<in> set (keys_at made curk (unat (bh_offset (fst x)) div 2048))" if "kv \<in> set (snd x)" for kv
    using m(3,5) that h by (simp add: keys_at_def)
  moreover have "tb_filter_block (flushed P r) = Some (p, StartBlock (fp_CreateFilter p) b ?o)"
    by (simp add: flushed_def Let_def Some pb)
  ultimately show ?thesis
    using m m' unfolding tb_filt_def by (simp, intro exI [of _ made'] exI [of _ curk']) simp
qed

lemma run_flushed:
  assumes r: "tb_run P options ok r blks [] cur" and cur: "cur \<noteq> []" and len: "length (tb_file (flushed P r)) < 2 ^ 32"
  shows "\<exists>b. tb_run P options ok (flushed P r) blks [b] [] \<and> snd b = cur"
proof -
  obtain b where b: "tb_data P options ok (flushed P r) blks [b] []" "snd b = cur" "bh_offset (fst b) = tb_offset r"
    using data_flushed [OF _ cur len] r unfolding tb_run_def by blast
  have "unat (tb_offset r) \<le> unat (tb_offset (flushed P r))"
    using r b(1) by (simp add: tb_run_def tb_data_def flushed_def Let_def wrote_block_def)
  then have "tb_filt options (flushed P r) (insert b (snd ` set blks \<union> set [])) [] (length (table_entries blks [] cur))"
    using r b by (intro filt_flushed [where cur = cur]) (auto simp: tb_run_def)
  then show ?thesis using b by (intro exI [of _ b]) (simp add: tb_run_def table_entries_def)
qed

lemma run_Add:
  assumes r: "tb_run P options ok r blks pend cur" and k: "ok k"
    and up: "table_entries blks pend cur \<noteq> [] \<longrightarrow> opt_Compare options (fst (last (table_entries blks pend cur))) k < 0"
  shows "\<exists>r'. TableBuilder_Add P string_file r k v = Some r' \<and> tb_status r' = OK \<and> length (tb_file r) \<le> length (tb_file r') \<and>
    (length (tb_file r') < 2 ^ 32 \<longrightarrow> (\<exists>blks' pend' cur'. tb_run P options ok r' blks' pend' cur' \<and>
       table_entries blks' pend' cur' = table_entries blks pend cur @ [(k, v)]))"
proof -
  obtain blks' where b: "tb_data P options ok (added r k v) blks' [] (cur @ [(k, v)])"
    "concat (map (snd \<circ> snd) blks') = concat (map (snd \<circ> snd) blks) @ concat (map snd pend)"
    "snd ` set blks' = snd ` set blks \<union> set pend"
    using data_added [OF _ k up, of r v] r unfolding tb_run_def by blast
  have e: "table_entries blks' [] (cur @ [(k, v)]) = table_entries blks pend cur @ [(k, v)]"
    using b(2) by (simp add: table_entries_def)
  have "tb_filt options (added r k v) (snd ` set blks' \<union> set []) (cur @ [(k, v)]) (length (table_entries blks' [] (cur @ [(k, v)])))"
    using filt_added [of options r _ cur] r b(3) e by (simp add: tb_run_def)
  then have run: "tb_run P options ok (added r k v) blks' [] (cur @ [(k, v)])" using b(1) by (simp add: tb_run_def)
  have s: "tb_status r = OK" using r by (simp add: tb_run_def tb_data_def)
  let ?r = "added r k v"
  let ?c = "CurrentSizeEstimate (tb_data_block ?r) \<ge> opt_block_size (tb_options r) \<and> \<not> BlockBuilder_empty (tb_data_block ?r)"
  show ?thesis
  proof (cases ?c)
    case True
    then have "TableBuilder_Add P string_file r k v = Some (flushed P ?r)" by (simp add: Add_string [OF s] Let_def)
    moreover have "\<exists>blks' pend' cur'. tb_run P options ok (flushed P ?r) blks' pend' cur' \<and>
       table_entries blks' pend' cur' = table_entries blks pend cur @ [(k, v)]" if l: "length (tb_file (flushed P ?r)) < 2 ^ 32"
    proof -
      obtain x where "tb_run P options ok (flushed P ?r) blks' [x] []" "snd x = cur @ [(k, v)]" using run_flushed [OF run _ l] by auto
      then show ?thesis using e by (intro exI [of _ blks'] exI [of _ "[x]"] exI [of _ "[]"]) (simp add: table_entries_def)
    qed
    ultimately show ?thesis using file_flushed [where r = ?r and P = P] by auto
  next
    case False
    then have "TableBuilder_Add P string_file r k v = Some ?r" by (auto simp: Add_string [OF s] Let_def)
    then show ?thesis using run e s by auto
  qed
qed

lemma run_entries:
  "tb_run P options ok r blks pend cur \<Longrightarrow> sorted_wrt (\<lambda>a b. opt_Compare options (fst a) (fst b) < 0) (table_entries blks pend cur @ kvs) \<Longrightarrow>
   \<forall>kv\<in>set kvs. ok (fst kv) \<Longrightarrow> add_entries P string_file r kvs = Some r' \<Longrightarrow> length (tb_file r') < 2 ^ 32 \<Longrightarrow>
   \<exists>blks' pend' cur'. tb_run P options ok r' blks' pend' cur' \<and> table_entries blks' pend' cur' = table_entries blks pend cur @ kvs"
proof (induction kvs arbitrary: r blks pend cur)
  case (Cons kv kvs)
  obtain k v where kv: "kv = (k, v)" by (cases kv)
  have up: "table_entries blks pend cur \<noteq> [] \<longrightarrow> opt_Compare options (fst (last (table_entries blks pend cur))) k < 0"
    using Cons.prems(2) by (auto simp: kv sorted_wrt_append)
  have "ok k" using Cons.prems(3) by (simp add: kv)
  from run_Add [OF Cons.prems(1) this up, of v] obtain r1 where r1: "TableBuilder_Add P string_file r k v = Some r1" "tb_status r1 = OK"
    and run: "length (tb_file r1) < 2 ^ 32 \<Longrightarrow> \<exists>blks' pend' cur'. tb_run P options ok r1 blks' pend' cur' \<and>
       table_entries blks' pend' cur' = table_entries blks pend cur @ [(k, v)]"
    by blast
  have add: "add_entries P string_file r1 kvs = Some r'" using Cons.prems(4) r1(1) by (simp add: kv)
  then have "length (tb_file r1) \<le> length (tb_file r')" using add_entries_grows [OF r1(2), of P kvs] by auto
  then obtain blks' pend' cur' where n: "tb_run P options ok r1 blks' pend' cur'"
      "table_entries blks' pend' cur' = table_entries blks pend cur @ [(k, v)]"
    using run Cons.prems(5) by fastforce
  show ?case
    using Cons.IH [OF n(1) _ _ add Cons.prems(5)] Cons.prems(2,3) n(2) by (auto simp: kv)
qed auto

end

subsection \<open>The finished table\<close>

definition filter_stored :: "Port \<Rightarrow> FilterPolicy \<Rightarrow> bytes \<Rightarrow> BlockHandle \<Rightarrow> table_block set \<Rightarrow> bool" where
  "filter_stored P policy c fh blocks \<longleftrightarrow> (\<exists>fd. stored P c fh fd \<and>
     (\<forall>b\<in>blocks. \<forall>kv\<in>set (snd b).
        FilterBlock_KeyMayMatch (fp_KeyMayMatch policy) (FilterBlockReader_new fd) (bh_offset (fst b)) (fst kv) = Some True))"

definition meta_stored :: "Port \<Rightarrow> Options \<Rightarrow> bytes \<Rightarrow> BlockHandle \<Rightarrow> table_block set \<Rightarrow> bool" where
  "meta_stored P options c mh blocks \<longleftrightarrow> (\<forall>policy. opt_filter_policy options = Some policy \<longrightarrow>
     (\<exists>dm fh. stored P c mh dm \<and> block_data dm [(filter_key policy, BlockHandle_EncodeTo fh [])] \<and>
        filter_stored P policy c fh blocks))"

definition table_layout :: "Port \<Rightarrow> Options \<Rightarrow> (slice \<Rightarrow> bool) \<Rightarrow> bytes \<Rightarrow> (slice \<times> table_block) list \<Rightarrow> bool" where
  "table_layout P options ok c blks \<longleftrightarrow>
     (\<exists>ft pre di. c = pre @ Footer_EncodeTo ft [] \<and> stored P c (ft_index_handle ft) di \<and>
        block_data di (index_entries blks) \<and> meta_stored P options c (ft_metaindex_handle ft) (snd ` set blks)) \<and>
     (\<forall>b \<in> snd ` set blks. block_stored P c b) \<and>
     sorted_wrt (\<lambda>a b. opt_Compare options (fst a) (fst b) < 0) (concat (map (snd \<circ> snd) blks)) \<and>
     (\<forall>kv\<in>set (concat (map (snd \<circ> snd) blks)). ok (fst kv)) \<and>
     seps_ok (opt_Compare options) blks [] \<and> (\<forall>e\<in>set blks. ok (fst e)) \<and> seps_made (opt_Separator options) blks []"

lemma filter_stored_append: "filter_stored P policy c fh blocks \<Longrightarrow> filter_stored P policy (c @ x) fh blocks"
  unfolding filter_stored_def using stored_append by blast

lemma meta_stored_append: "meta_stored P options c mh blocks \<Longrightarrow> meta_stored P options (c @ x) mh blocks"
  unfolding meta_stored_def using stored_append filter_stored_append by blast

lemma tb_data_same:
  assumes "tb_data P options ok r blks pend cur" "tb_options r' = tb_options r" "tb_status r' = OK"
    "unat (tb_offset r') = length (tb_file r')" "tb_file r' = tb_file r @ x"
    "tb_index_block r' = tb_index_block r" "tb_data_block r' = tb_data_block r" "tb_last_key r' = tb_last_key r"
    "tb_pending_index_entry r' = tb_pending_index_entry r" "tb_pending_handle r' = tb_pending_handle r"
  shows "tb_data P options ok r' blks pend cur"
  using assms block_stored_append [of P "tb_file r" _ x] by (simp add: tb_data_def)

lemma data_wrote:
  assumes "tb_data P options ok r blks pend cur" "length (tb_file (wrote r c type)) < 2 ^ 32"
  shows "tb_data P options ok (wrote r c type) blks pend cur"
  using assms(1) by (rule tb_data_same [where x = "c @ block_trailer c type"])
    (use wrote_offset [OF _ assms(2)] assms(1) in \<open>simp_all add: tb_data_def\<close>)

lemma grow_filter:
  assumes "tb_status r = OK"
  shows "\<exists>fh r' x. Finish_filter string_file r = Some (fh, r') \<and> tb_file r' = tb_file r @ x \<and> tb_status r' = OK \<and>
    tb_options r' = tb_options r \<and> (tb_filter_block r' = None \<longleftrightarrow> tb_filter_block r = None)"
  using assms by (cases "tb_filter_block r") (auto simp: Finish_filter_def WriteRawBlock_string Let_def split: prod.splits)

definition tb_good :: "Options \<Rightarrow> bytes TableBuilder \<Rightarrow> bool" where
  "tb_good options r \<longleftrightarrow> tb_status r = OK \<and> tb_options r = options \<and>
     (tb_filter_block r = None \<longleftrightarrow> opt_filter_policy options = None)"

lemma add_entries_good: "tb_good options r \<Longrightarrow> \<exists>r'. add_entries P string_file r kvs = Some r' \<and> tb_good options r'"
proof (induction kvs arbitrary: r)
  case (Cons kv kvs)
  obtain k v where kv: "kv = (k, v)" by (cases kv)
  have good: "tb_good options (added r k v)" "tb_good options (flushed P (added r k v))"
    using Cons.prems by (auto simp: tb_good_def added_def flushed_def add_index_entry_def Let_def)
  obtain r' where "TableBuilder_Add P string_file r k v = Some r'" "tb_good options r'"
    using Add_string [of r P k v] Cons.prems good by (auto simp: tb_good_def Let_def split: if_splits)
  then show ?case using Cons.IH by (simp add: kv)
qed simp

context small_block_table
begin

lemma run_Flush:
  assumes r: "tb_run P options ok r blks pend cur"
  shows "\<exists>r' x. TableBuilder_Flush P string_file r = Some r' \<and> tb_file r' = tb_file r @ x \<and> tb_status r' = OK \<and>
    tb_options r' = options \<and> (tb_filter_block r' = None \<longleftrightarrow> opt_filter_policy options = None) \<and>
    (length (tb_file r') < 2 ^ 32 \<longrightarrow> (\<exists>pend'. tb_run P options ok r' blks pend' [] \<and> table_entries blks pend' [] = table_entries blks pend cur))"
proof (cases "cur = []")
  case True
  have "BlockBuilder_empty (tb_data_block r)" "tb_status r = OK"
    using r holds_block_empty True by (auto simp: tb_run_def tb_data_def)
  then have "TableBuilder_Flush P string_file r = Some r" using Flush_string [of r P] by simp
  moreover have "tb_options r = options" using r by (simp add: tb_run_def tb_data_def)
  moreover have "tb_filter_block r = None \<longleftrightarrow> opt_filter_policy options = None"
    using r by (auto simp: tb_run_def tb_filt_def split: option.splits)
  ultimately show ?thesis using r True \<open>tb_status r = OK\<close> by (intro exI [of _ r] exI [of _ "[]"]) auto
next
  case False
  then have p: "pend = []" "\<not> BlockBuilder_empty (tb_data_block r)" "tb_status r = OK"
    using r holds_block_empty [of "tb_data_block r" cur] by (auto simp: tb_run_def tb_data_def pending_ok_def split: if_splits)
  have "tb_file (flushed P r) = tb_file r @ (let (c, t) = block_of P r (tb_data_block r) in c @ block_trailer c t)"
    by (simp add: flushed_def Let_def wrote_block_def split: prod.splits)
  moreover have "\<exists>pend'. tb_run P options ok (flushed P r) blks pend' [] \<and> table_entries blks pend' [] = table_entries blks pend cur"
    if l: "length (tb_file (flushed P r)) < 2 ^ 32"
  proof -
    obtain b where "tb_run P options ok (flushed P r) blks [b] []" "snd b = cur"
      using run_flushed [OF _ False l] r p by blast
    then show ?thesis by (intro exI [of _ "[b]"]) (simp add: table_entries_def p)
  qed
  moreover have "tb_options (flushed P r) = options" "tb_filter_block (flushed P r) = None \<longleftrightarrow> opt_filter_policy options = None"
    using r by (auto simp: tb_run_def tb_data_def tb_filt_def flushed_def Let_def split: option.splits)
  ultimately show ?thesis using Flush_string [OF p(3), of P] p(2) file_flushed(2) [where r = r and P = P] by auto
qed

lemma run_filter:
  assumes r: "tb_run P options ok r blks pend []" and n: "length (table_entries blks pend []) < 2 ^ 31"
  shows "\<exists>fh r'. Finish_filter string_file r = Some (fh, r') \<and>
    (length (tb_file r') < 2 ^ 32 \<longrightarrow> tb_data P options ok r' blks pend [] \<and>
       (\<forall>policy. opt_filter_policy options = Some policy \<longrightarrow> filter_stored P policy (tb_file r') fh (snd ` set blks \<union> set pend)))"
proof (cases "tb_filter_block r")
  case None
  then show ?thesis using r by (auto simp: Finish_filter_def tb_run_def tb_filt_def tb_data_def)
next
  case (Some pb)
  obtain p b where pb: "pb = (p, b)" by (cases pb)
  have d: "tb_data P options ok r blks pend []" using r by (simp add: tb_run_def)
  obtain made curk where m: "opt_filter_policy options = Some p" "holds (fp_CreateFilter p) b made curk"
    "\<forall>x\<in>snd ` set blks \<union> set pend. \<forall>kv\<in>set (snd x). fst kv \<in> set (keys_at made curk (unat (bh_offset (fst x)) div 2048))"
    "\<forall>i. length (keys_at made curk i) \<le> length (table_entries blks pend [])"
    using r by (auto simp: tb_run_def tb_filt_def Some pb)
  let ?fd = "fst (FilterBlock_Finish (fp_CreateFilter p) b)"
  let ?r = "r\<lparr>tb_filter_block := Some (p, snd (FilterBlock_Finish (fp_CreateFilter p) b))\<rparr>"
  have eq: "Finish_filter string_file r = Some (next_handle r ?fd, wrote ?r ?fd kNoCompression)"
    using d by (simp add: Finish_filter_def Some pb Let_def WriteRawBlock_string tb_data_def split: prod.splits)
  have dr: "tb_data P options ok ?r blks pend []" using d by (simp add: tb_data_def)
  have "filter_stored P p (tb_file (wrote ?r ?fd kNoCompression)) (next_handle r ?fd) (snd ` set blks \<union> set pend)"
    if l: "length (tb_file (wrote ?r ?fd kNoCompression)) < 2 ^ 32"
  proof -
    have fl: "length ?fd < 2 ^ 32" using l by simp
    have "unat (tb_offset r) = length (tb_file r)" using d by (simp add: tb_data_def)
    then have "stored P (tb_file r @ ?fd @ block_trailer ?fd kNoCompression) (next_handle r ?fd) ?fd"
      by (rule stored_here) (use fl in \<open>simp_all add: decompresses_def\<close>)
    moreover have "FilterBlock_KeyMayMatch (fp_KeyMayMatch p) (FilterBlockReader_new ?fd) (bh_offset (fst x)) (fst kv) = Some True"
      if x: "x \<in> snd ` set blks \<union> set pend" "kv \<in> set (snd x)" for x kv
    proof (rule filter_policy.finished_match [OF policy [OF m(1)] m(2) fl])
      show "fst kv \<in> set (keys_at made curk (unat (bh_offset (fst x)) div 2048))" using m(3) x by blast
      show "length (keys_at made curk (unat (bh_offset (fst x)) div 2048)) < 2 ^ 31"
        using m(4) n by (meson le_less_trans)
    qed
    ultimately show ?thesis unfolding filter_stored_def by (intro exI [of _ ?fd]) simp
  qed
  then show ?thesis
    using eq data_wrote [OF dr] m(1) d by (intro exI [of _ "next_handle r ?fd"] exI [of _ "wrote ?r ?fd kNoCompression"]) (auto simp: tb_data_def)
qed

lemma file_wrote_block: "\<exists>x. tb_file (wrote_block P r b) = tb_file r @ x"
  by (simp add: wrote_block_def)

lemma run_metaindex:
  assumes d: "tb_status r = OK" "tb_options r = options" "tb_filter_block r = None \<longleftrightarrow> opt_filter_policy options = None"
  shows "\<exists>mh r' x. Finish_metaindex P string_file r fh = Some (mh, r') \<and> tb_file r' = tb_file r @ x \<and> tb_status r' = OK \<and> tb_options r' = options \<and>
    (length (tb_file r') < 2 ^ 32 \<longrightarrow> tb_data P options ok r blks pend [] \<longrightarrow>
       (\<forall>policy. opt_filter_policy options = Some policy \<longrightarrow> filter_stored P policy (tb_file r) fh blocks) \<longrightarrow>
       tb_data P options ok r' blks pend [] \<and> meta_stored P options (tb_file r') mh blocks)"
proof -
  let ?m0 = "BlockBuilder_new (opt_block_restart_interval options)"
  let ?m = "case opt_filter_policy options of None \<Rightarrow> ?m0 | Some p \<Rightarrow> BlockBuilder_Add ?m0 (filter_key p) (BlockHandle_EncodeTo fh [])"
  let ?mh = "next_handle r (fst (block_of P r ?m))"
  have eq: "Finish_metaindex P string_file r fh = Some (?mh, wrote_block P r ?m)"
    using d by (auto simp: Finish_metaindex_def metaindex_block_def WriteBlock_string Let_def split: option.splits)
  obtain x where x: "tb_file (wrote_block P r ?m) = tb_file r @ x" using file_wrote_block by blast
  have "tb_data P options ok (wrote_block P r ?m) blks pend [] \<and> meta_stored P options (tb_file (wrote_block P r ?m)) ?mh blocks"
    if l: "length (tb_file (wrote_block P r ?m)) < 2 ^ 32" and t: "tb_data P options ok r blks pend []"
      and f: "\<forall>policy. opt_filter_policy options = Some policy \<longrightarrow> filter_stored P policy (tb_file r) fh blocks"
  proof
    show "tb_data P options ok (wrote_block P r ?m) blks pend []"
      using data_wrote [OF t] l by (simp add: wrote_block_def)
    show "meta_stored P options (tb_file (wrote_block P r ?m)) ?mh blocks"
      unfolding meta_stored_def
    proof (intro allI impI)
      fix p assume p: "opt_filter_policy options = Some p"
      have "holds_block ?m [(filter_key p, BlockHandle_EncodeTo fh [])]"
        using holds_block_Add [OF holds_block_new [OF interval]] by (simp add: p)
      moreover have "unat (tb_offset r) = length (tb_file r)" "opt_compression (tb_options r) \<le> kZstdCompression"
        using t compression d(2) by (simp_all add: tb_data_def)
      ultimately obtain dm where "stored P (tb_file (wrote_block P r ?m)) ?mh dm" "block_data dm [(filter_key p, BlockHandle_EncodeTo fh [])]"
        using wrote_block_stored [OF _ _ _ l] by blast
      moreover have "filter_stored P p (tb_file (wrote_block P r ?m)) fh blocks"
        using f p x filter_stored_append by metis
      ultimately show "\<exists>dm fh. stored P (tb_file (wrote_block P r ?m)) ?mh dm \<and>
          block_data dm [(filter_key p, BlockHandle_EncodeTo fh [])] \<and> filter_stored P p (tb_file (wrote_block P r ?m)) fh blocks"
        by blast
    qed
  qed
  moreover have "tb_status (wrote_block P r ?m) = OK" "tb_options (wrote_block P r ?m) = options" using d by simp_all
  ultimately show ?thesis using eq x by blast
qed

lemma data_index_entry:
  assumes d: "tb_data P options ok r blks [b] []" and p: "tb_pending_index_entry r"
  defines "s \<equiv> cmp_FindShortSuccessor (opt_comparator options) (tb_last_key r)"
  shows "holds_block (tb_index_block (add_index_entry r s)) (index_entries (blks @ [(s, b)]))"
    "seps_ok (opt_Compare options) (blks @ [(s, b)]) []" "ok s"
    "seps_made (opt_Separator options) (blks @ [(s, b)]) []"
proof -
  show "seps_made (opt_Separator options) (blks @ [(s, b)]) []"
    using d by (intro seps_made_snoc) (auto simp: tb_data_def block_stored_def)
  let ?cmp = "opt_Compare options" and ?all = "table_entries blks [b] []"
  have h: "tb_pending_handle r = fst b" using d p by (simp add: tb_data_def pending_ok_def)
  have ix: "index_entries (blks @ [(s, b)]) = index_entries blks @ [(s, BlockHandle_EncodeTo (fst b) [])]"
    by (cases b) (simp add: index_entries_def)
  show "holds_block (tb_index_block (add_index_entry r s)) (index_entries (blks @ [(s, b)]))"
    using holds_block_Add [of "tb_index_block r"] d by (simp add: add_index_entry_def h ix tb_data_def)
  have srt: "sorted_wrt (\<lambda>a b. ?cmp (fst a) (fst b) < 0) ?all" and oks: "\<forall>kv\<in>set ?all. ok (fst kv)"
    and b: "snd b \<noteq> []"
    using d by (auto simp: tb_data_def block_stored_def)
  have last: "tb_last_key r = fst (last ?all)" "last ?all \<in> set ?all" using d b by (auto simp: tb_data_def table_entries_def)
  then have lk: "ok (tb_last_key r)" using oks by auto
  show sok: "ok s" using successor_ok [OF lk] by (simp add: s_def)
  have le_s: "?cmp (fst kv) s \<le> 0" if "kv \<in> set ?all" for kv
    using compare_le_trans [OF _ lk sok] last_entry_less [OF srt oks that] last successor_ge [OF lk] oks that by (simp add: s_def)
  have old: "seps_ok ?cmp blks (snd b)" using d by (simp add: tb_data_def)
  show "seps_ok ?cmp (blks @ [(s, b)]) []"
    unfolding seps_ok_def
  proof (intro allI impI conjI ballI)
    fix i kv assume i: "i < length (blks @ [(s, b)])"
    show "?cmp (fst kv) (fst ((blks @ [(s, b)]) ! i)) \<le> 0" if "kv \<in> set (snd (snd ((blks @ [(s, b)]) ! i)))"
      using old i that le_s [of kv]
      by (cases "i < length blks") (auto simp: seps_ok_def nth_append table_entries_def less_Suc_eq)
    assume "kv \<in> set (concat (map (snd \<circ> snd) (drop (Suc i) (blks @ [(s, b)]))) @ [])"
    then show "?cmp (fst ((blks @ [(s, b)]) ! i)) (fst kv) < 0"
      using old by (cases "i < length blks") (auto simp: seps_ok_def nth_append)
  qed
qed

lemma run_index:
  assumes d: "tb_status r = OK" "tb_options r = options"
  shows "\<exists>ih r' x. Finish_index P string_file r = Some (ih, r') \<and> tb_file r' = tb_file r @ x \<and> tb_status r' = OK \<and>
    (length (tb_file r') < 2 ^ 32 \<longrightarrow> tb_data P options ok r blks pend [] \<longrightarrow>
       (\<exists>blks' di. stored P (tb_file r') ih di \<and> block_data di (index_entries blks') \<and>
          (\<forall>b \<in> snd ` set blks'. block_stored P (tb_file r') b) \<and> snd ` set blks' = snd ` set blks \<union> set pend \<and>
          concat (map (snd \<circ> snd) blks') = table_entries blks pend [] \<and>
          seps_ok (opt_Compare options) blks' [] \<and> (\<forall>e\<in>set blks'. ok (fst e)) \<and>
          seps_made (opt_Separator options) blks' [] \<and> unat (tb_offset r') = length (tb_file r')))"
proof -
  define s where "s = cmp_FindShortSuccessor (opt_comparator options) (tb_last_key r)"
  define r1 where "r1 = (if tb_pending_index_entry r then add_index_entry r s else r)"
  let ?b = "tb_index_block r1"
  let ?r = "wrote_block P r1 ?b\<lparr>tb_index_block := BlockBuilder_Reset (snd (BlockBuilder_Finish ?b))\<rparr>"
  have r1: "tb_file r1 = tb_file r" "tb_offset r1 = tb_offset r" "tb_options r1 = options"
    using d by (simp_all add: r1_def add_index_entry_def)
  let ?ih = "next_handle r1 (fst (block_of P r1 ?b))"
  have eq: "Finish_index P string_file r = Some (?ih, ?r)"
    using d by (simp add: Finish_index_def last_index_entry_def WriteBlock_string Let_def r1_def s_def)
  obtain x where x: "tb_file ?r = tb_file r @ x" using file_wrote_block [of r1 ?b] by (auto simp: r1)
  have "\<exists>blks' di. stored P (tb_file ?r) ?ih di \<and> block_data di (index_entries blks') \<and>
          (\<forall>b \<in> snd ` set blks'. block_stored P (tb_file ?r) b) \<and> snd ` set blks' = snd ` set blks \<union> set pend \<and>
          concat (map (snd \<circ> snd) blks') = table_entries blks pend [] \<and>
          seps_ok (opt_Compare options) blks' [] \<and> (\<forall>e\<in>set blks'. ok (fst e)) \<and>
          seps_made (opt_Separator options) blks' [] \<and> unat (tb_offset ?r) = length (tb_file ?r)"
    if l: "length (tb_file ?r) < 2 ^ 32" and t: "tb_data P options ok r blks pend []"
  proof -
    obtain blks' where b': "holds_block ?b (index_entries blks')" "snd ` set blks' = snd ` set blks \<union> set pend"
      "concat (map (snd \<circ> snd) blks') = table_entries blks pend []" "seps_ok (opt_Compare options) blks' []" "\<forall>e\<in>set blks'. ok (fst e)"
      "seps_made (opt_Separator options) blks' []"
    proof (cases "tb_pending_index_entry r")
      case True
      then obtain b where b: "pend = [b]" using t by (auto simp: tb_data_def pending_ok_def)
      show ?thesis
        using data_index_entry [of r blks b, OF _ True] t b True
        by (intro that [of "blks @ [(s, b)]"]) (auto simp: r1_def s_def table_entries_def tb_data_def)
    next
      case False
      then show ?thesis
        using t by (intro that [of blks]) (auto simp: r1_def tb_data_def pending_ok_def table_entries_def)
    qed
    have o: "unat (tb_offset r1) = length (tb_file r1)" "opt_compression (tb_options r1) \<le> kZstdCompression"
      using t compression by (simp_all add: tb_data_def r1)
    have "unat (tb_offset (wrote_block P r1 ?b)) = length (tb_file (wrote_block P r1 ?b))"
      using wrote_offset [OF o(1)] l by (simp add: wrote_block_def)
    moreover from o obtain di where "stored P (tb_file (wrote_block P r1 ?b)) ?ih di" "block_data di (index_entries blks')"
      using wrote_block_stored [OF _ _ b'(1)] l by auto
    moreover have "\<forall>b \<in> snd ` set blks'. block_stored P (tb_file ?r) b"
      using t block_stored_append [of P "tb_file r"] b'(2) unfolding x by (auto simp: tb_data_def)
    ultimately show ?thesis using b'(2-6) by (intro exI [of _ blks'] exI [of _ di]) simp
  qed
  note main = this
  have st: "tb_status ?r = OK" by simp
  define r' ih where o: "r' = ?r" "ih = ?ih"
  note facts = eq [folded o] x [folded o] st [folded o] main [folded o]
  show ?thesis
    by (rule exI [of _ ih], rule exI [of _ r'], rule exI [of _ x]) (intro conjI impI; rule facts; assumption?)
qed

lemma run_closed:
  assumes "tb_run P options ok r blks pend cur"
  shows "tb_run P options ok (r\<lparr>tb_closed := True\<rparr>) blks pend cur"
proof -
  have d: "tb_data P options ok r blks pend cur" using assms by (simp add: tb_run_def)
  have "tb_data P options ok (r\<lparr>tb_closed := True\<rparr>) blks pend cur"
    by (rule tb_data_same [OF d, where x = "[]"]) (use d in \<open>simp_all add: tb_data_def\<close>)
  moreover have "tb_filt options (r\<lparr>tb_closed := True\<rparr>) X cur n = tb_filt options r X cur n" for X n
    by (cases "tb_filter_block r") (simp_all add: tb_filt_def)
  ultimately show ?thesis using assms by (simp add: tb_run_def)
qed

lemma run_Finish:
  assumes r: "tb_run P options ok r blks pend cur" and n: "length (table_entries blks pend cur) < 2 ^ 31"
  shows "\<exists>r' x. TableBuilder_Finish P string_file r = Some (OK, r') \<and> tb_file r' = tb_file r @ x \<and>
    (length (tb_file r') < 2 ^ 32 \<longrightarrow> (\<exists>blks'. table_layout P options ok (tb_file r') blks' \<and>
       concat (map (snd \<circ> snd) blks') = table_entries blks pend cur \<and> unat (tb_offset r') = length (tb_file r')))"
proof -
  from run_Flush [OF r] obtain r1 x1 where r1: "TableBuilder_Flush P string_file r = Some r1" "tb_file r1 = tb_file r @ x1"
      "tb_status r1 = OK" "tb_options r1 = options" "tb_filter_block r1 = None \<longleftrightarrow> opt_filter_policy options = None"
    and run1: "length (tb_file r1) < 2 ^ 32 \<longrightarrow> (\<exists>pend'. tb_run P options ok r1 blks pend' [] \<and> table_entries blks pend' [] = table_entries blks pend cur)"
    by (elim exE conjE) (rule that; assumption)
  let ?r = "r1\<lparr>tb_closed := True\<rparr>"
  obtain fh r2 x2 where r2: "Finish_filter string_file ?r = Some (fh, r2)" "tb_file r2 = tb_file r1 @ x2" "tb_status r2 = OK"
      "tb_options r2 = options" "tb_filter_block r2 = None \<longleftrightarrow> opt_filter_policy options = None"
    using grow_filter [of ?r] r1 by auto
  obtain mh r3 x3 where r3: "Finish_metaindex P string_file r2 fh = Some (mh, r3)" "tb_file r3 = tb_file r2 @ x3" "tb_status r3 = OK"
      "tb_options r3 = options"
    using run_metaindex [OF r2(3-5), of fh "[]" "[]" "{}"] by (elim exE conjE) (rule that; assumption)
  obtain ih r4 x4 where r4: "Finish_index P string_file r3 = Some (ih, r4)" "tb_file r4 = tb_file r3 @ x4" "tb_status r4 = OK"
    using run_index [OF r3(3,4), of "[]" "[]"] by (elim exE conjE) (rule that; assumption)
  let ?ft = "\<lparr>ft_metaindex_handle = mh, ft_index_handle = ih\<rparr>"
  let ?e = "Footer_EncodeTo ?ft []"
  let ?r5 = "r4\<lparr>tb_status := OK, tb_file := tb_file r4 @ ?e, tb_offset := tb_offset r4 + of_nat (length ?e)\<rparr>"
  have "Finish_footer string_file r4 mh ih = Some ?r5"
    using r4(3) by (simp add: Finish_footer_def string_file_def Let_def)
  then have fin: "TableBuilder_Finish P string_file r = Some (OK, ?r5)"
    using r1(1) r2(1) r3(1) r4(1) by (simp add: TableBuilder_Finish_def)
  have fl: "tb_file ?r5 = tb_file r @ x1 @ x2 @ x3 @ x4 @ ?e" using r1(2) r2(2) r3(2) r4(2) by simp
  have "\<exists>blks'. table_layout P options ok (tb_file ?r5) blks' \<and>
       concat (map (snd \<circ> snd) blks') = table_entries blks pend cur \<and> unat (tb_offset ?r5) = length (tb_file ?r5)"
    if l: "length (tb_file ?r5) < 2 ^ 32"
  proof -
    have ls: "length (tb_file r1) < 2 ^ 32" "length (tb_file r2) < 2 ^ 32" "length (tb_file r3) < 2 ^ 32" "length (tb_file r4) < 2 ^ 32"
      using l r2(2) r3(2) r4(2) by simp_all
    obtain pend' where p: "tb_run P options ok ?r blks pend' []" "table_entries blks pend' [] = table_entries blks pend cur"
      using run1 ls(1) run_closed by blast
    let ?B = "snd ` set blks \<union> set pend'"
    have f: "tb_data P options ok r2 blks pend' []"
      "\<forall>policy. opt_filter_policy options = Some policy \<longrightarrow> filter_stored P policy (tb_file r2) fh ?B"
      using run_filter [OF p(1)] n p(2) r2(1) ls(2) by auto
    have m: "tb_data P options ok r3 blks pend' []" "meta_stored P options (tb_file r3) mh ?B"
      using run_metaindex [OF r2(3-5), of fh blks pend' ?B] r3(1) ls(3) f by auto
    have "\<exists>blks' di. stored P (tb_file r4) ih di \<and> block_data di (index_entries blks') \<and>
          (\<forall>b \<in> snd ` set blks'. block_stored P (tb_file r4) b) \<and> snd ` set blks' = ?B \<and>
          concat (map (snd \<circ> snd) blks') = table_entries blks pend' [] \<and>
          seps_ok (opt_Compare options) blks' [] \<and> (\<forall>e\<in>set blks'. ok (fst e)) \<and>
          seps_made (opt_Separator options) blks' [] \<and> unat (tb_offset r4) = length (tb_file r4)"
      using run_index [OF r3(3,4), of blks pend'] unfolding r4(1) option.inject prod.inject
      by (elim exE conjE) (use ls(4) m(1) in simp)
    then obtain blks' di where i: "stored P (tb_file r4) ih di" "block_data di (index_entries blks')"
        "\<forall>b \<in> snd ` set blks'. block_stored P (tb_file r4) b" "snd ` set blks' = ?B"
        "concat (map (snd \<circ> snd) blks') = table_entries blks pend' []"
        "seps_ok (opt_Compare options) blks' []" "\<forall>e\<in>set blks'. ok (fst e)" "seps_made (opt_Separator options) blks' []"
        "unat (tb_offset r4) = length (tb_file r4)"
      by (elim exE conjE) (rule that; assumption)
    have "meta_stored P options (tb_file r4 @ ?e) mh (snd ` set blks')"
      using meta_stored_append [OF m(2), of "x4 @ ?e"] r4(2) i(4) by simp
    moreover have "\<forall>b \<in> snd ` set blks'. block_stored P (tb_file r4 @ ?e) b" using i(3) block_stored_append by blast
    moreover have "unat (tb_offset ?r5) = length (tb_file ?r5)" using offset_step [OF i(9), of ?e] l by simp
    ultimately show ?thesis
      using stored_append [OF i(1), of ?e] i(2,5-8) m(1) p(2)
      by (intro exI [of _ blks']) (simp add: table_layout_def tb_data_def, intro exI [of _ ?ft], auto)
  qed
  then show ?thesis using fin fl by blast
qed

lemma grow_Finish:
  assumes r: "tb_good options r"
  shows "\<exists>r' x. TableBuilder_Finish P string_file r = Some (OK, r') \<and> tb_file r' = tb_file r @ x"
proof -
  define r1 where "r1 = (if BlockBuilder_empty (tb_data_block r) then r else flushed P r)"
  have r1: "TableBuilder_Flush P string_file r = Some r1" using r Flush_string [of r P] by (simp add: r1_def tb_good_def)
  have "\<exists>x. tb_file (flushed P r) = tb_file r @ x" by (simp add: flushed_def Let_def wrote_block_def)
  then have "\<exists>x. tb_file r1 = tb_file r @ x" by (simp add: r1_def)
  then obtain x1 where x1: "tb_file r1 = tb_file r @ x1" ..
  let ?r = "r1\<lparr>tb_closed := True\<rparr>"
  have g: "tb_good options ?r" using r by (auto simp: r1_def tb_good_def flushed_def Let_def)
  then obtain fh r2 x2 where r2: "Finish_filter string_file ?r = Some (fh, r2)" "tb_file r2 = tb_file r1 @ x2" "tb_status r2 = OK"
      "tb_options r2 = options" "tb_filter_block r2 = None \<longleftrightarrow> opt_filter_policy options = None"
    using grow_filter [of ?r] by (auto simp: tb_good_def)
  obtain mh r3 x3 where r3: "Finish_metaindex P string_file r2 fh = Some (mh, r3)" "tb_file r3 = tb_file r2 @ x3" "tb_status r3 = OK"
      "tb_options r3 = options"
    using run_metaindex [OF r2(3-5), of fh "[]" "[]" "{}"] by (elim exE conjE) (rule that; assumption)
  obtain ih r4 x4 where r4: "Finish_index P string_file r3 = Some (ih, r4)" "tb_file r4 = tb_file r3 @ x4" "tb_status r4 = OK"
    using run_index [OF r3(3,4), of "[]" "[]"] by (elim exE conjE) (rule that; assumption)
  have "TableBuilder_Finish P string_file r = (do { r \<leftarrow> Finish_footer string_file r4 mh ih; Some (tb_status r, r) })"
    using r1 r2(1) r3(1) r4(1) by (simp add: TableBuilder_Finish_def)
  then show ?thesis
    using r4(3) x1 r2(2) r3(2) r4(2) by (simp add: Finish_footer_def string_file_def Let_def)
qed

theorem small_table_image_layout:
  assumes kvs: "sorted_wrt (\<lambda>a b. opt_Compare options (fst a) (fst b) < 0) kvs" "\<forall>kv\<in>set kvs. ok (fst kv)"
    and n: "length kvs < 2 ^ 31" and len: "length (table_image P options kvs) < 2 ^ 32"
  shows "\<exists>r blks. build_table P string_file options [] kvs = Some (OK, r) \<and> tb_file r = table_image P options kvs \<and>
    table_layout P options ok (table_image P options kvs) blks \<and> concat (map (snd \<circ> snd) blks) = kvs \<and>
    unat (tb_offset r) = length (table_image P options kvs)"
proof -
  let ?r0 = "TableBuilder_new options [] :: bytes TableBuilder"
  have run0: "tb_run P options ok ?r0 [] [] []" using data_new filt_new by (simp add: tb_run_def table_entries_def)
  have "tb_good options ?r0" by (simp add: tb_good_def TableBuilder_new_def)
  then obtain r where r: "add_entries P string_file ?r0 kvs = Some r" "tb_good options r"
    using add_entries_good by blast
  then obtain r' x where r': "TableBuilder_Finish P string_file r = Some (OK, r')" "tb_file r' = tb_file r @ x"
    using grow_Finish by blast
  have b: "build_table P string_file options [] kvs = Some (OK, r')" using r(1) r'(1) by (simp add: build_table_def)
  then have img: "table_image P options kvs = tb_file r'" by (simp add: table_image_def)
  then have l: "length (tb_file r') < 2 ^ 32" "length (tb_file r) < 2 ^ 32" using len r'(2) by simp_all
  obtain blks pend cur where run: "tb_run P options ok r blks pend cur" "table_entries blks pend cur = kvs"
    using run_entries [OF run0 _ kvs(2) r(1) l(2)] kvs(1) by (auto simp: table_entries_def)
  have n': "length (table_entries blks pend cur) < 2 ^ 31" using n run(2) by simp
  have "\<exists>blks'. table_layout P options ok (tb_file r') blks' \<and>
       concat (map (snd \<circ> snd) blks') = table_entries blks pend cur \<and> unat (tb_offset r') = length (tb_file r')"
    using run_Finish [OF run(1) n'] unfolding r'(1) option.inject prod.inject by (elim exE conjE) (use l(1) in simp_all)
  then show ?thesis using b img run(2) by auto
qed

end

sublocale table_options \<subseteq> small: small_block_table "small_blocks P" options ok
  by unfold_locales

lemma stored_small [simp]: "stored (small_blocks P) = stored P"
  by (simp add: fun_eq_iff stored_def)

lemma table_layout_small [simp]: "table_layout (small_blocks P) = table_layout P"
  by (simp add: fun_eq_iff table_layout_def block_stored_def meta_stored_def filter_stored_def cong: option.case_cong)

context table_options
begin

theorem table_image_layout:
  assumes "sorted_wrt (\<lambda>a b. opt_Compare options (fst a) (fst b) < 0) kvs" "\<forall>kv\<in>set kvs. ok (fst kv)"
    and "length kvs < 2 ^ 31" "length (table_image P options kvs) < 2 ^ 32" "table_fits P options kvs"
  shows "\<exists>r blks. build_table P string_file options [] kvs = Some (OK, r) \<and> tb_file r = table_image P options kvs \<and>
    table_layout P options ok (table_image P options kvs) blks \<and> concat (map (snd \<circ> snd) blks) = kvs \<and>
    unat (tb_offset r) = length (table_image P options kvs)"
  using small.small_table_image_layout [OF assms(1-3)] assms(4) build_table_small [OF assms(5)] table_image_small [OF assms(5)]
  by simp

end

subsection \<open>Any file gets the bytes of the ideal one\<close>

definition with_file :: "bytes TableBuilder \<Rightarrow> 'f \<Rightarrow> 'f TableBuilder" where
  "with_file r f =
     \<lparr>tb_options = tb_options r, tb_file = f, tb_offset = tb_offset r, tb_status = tb_status r,
      tb_data_block = tb_data_block r, tb_index_block = tb_index_block r, tb_last_key = tb_last_key r,
      tb_num_entries = tb_num_entries r, tb_closed = tb_closed r, tb_filter_block = tb_filter_block r,
      tb_pending_index_entry = tb_pending_index_entry r, tb_pending_handle = tb_pending_handle r\<rparr>"

lemma with_file_simps [simp]:
  "tb_options (with_file r f) = tb_options r" "tb_file (with_file r f) = f" "tb_offset (with_file r f) = tb_offset r"
  "tb_status (with_file r f) = tb_status r" "tb_data_block (with_file r f) = tb_data_block r"
  "tb_index_block (with_file r f) = tb_index_block r" "tb_last_key (with_file r f) = tb_last_key r"
  "tb_num_entries (with_file r f) = tb_num_entries r" "tb_filter_block (with_file r f) = tb_filter_block r"
  "tb_pending_index_entry (with_file r f) = tb_pending_index_entry r" "tb_pending_handle (with_file r f) = tb_pending_handle r"
  by (simp_all add: with_file_def)

lemma with_file_update:
  "(with_file r f)\<lparr>tb_status := s\<rparr> = with_file (r\<lparr>tb_status := s\<rparr>) f"
  "(with_file r f)\<lparr>tb_offset := o'\<rparr> = with_file (r\<lparr>tb_offset := o'\<rparr>) f"
  "(with_file r f)\<lparr>tb_file := f'\<rparr> = with_file r f'"
  "with_file (r\<lparr>tb_file := d\<rparr>) f = with_file r f"
  "(with_file r f)\<lparr>tb_data_block := b\<rparr> = with_file (r\<lparr>tb_data_block := b\<rparr>) f"
  "(with_file r f)\<lparr>tb_index_block := b\<rparr> = with_file (r\<lparr>tb_index_block := b\<rparr>) f"
  "(with_file r f)\<lparr>tb_last_key := k\<rparr> = with_file (r\<lparr>tb_last_key := k\<rparr>) f"
  "(with_file r f)\<lparr>tb_num_entries := n\<rparr> = with_file (r\<lparr>tb_num_entries := n\<rparr>) f"
  "(with_file r f)\<lparr>tb_closed := c\<rparr> = with_file (r\<lparr>tb_closed := c\<rparr>) f"
  "(with_file r f)\<lparr>tb_filter_block := fb\<rparr> = with_file (r\<lparr>tb_filter_block := fb\<rparr>) f"
  "(with_file r f)\<lparr>tb_pending_index_entry := p\<rparr> = with_file (r\<lparr>tb_pending_index_entry := p\<rparr>) f"
  "(with_file r f)\<lparr>tb_pending_handle := h\<rparr> = with_file (r\<lparr>tb_pending_handle := h\<rparr>) f"
  by (simp_all add: with_file_def)

lemma with_file_added: "added (with_file r f) k v = with_file (added r k v) f"
  by (simp add: added_def add_index_entry_def Let_def with_file_def)

lemma grow_metaindex:
  "tb_status r = OK \<Longrightarrow> Finish_metaindex P string_file r fh = Some (mh, r') \<Longrightarrow>
   tb_status r' = OK \<and> length (tb_file r) \<le> length (tb_file r')"
  by (auto simp: Finish_metaindex_def WriteBlock_string wrote_block_def split: Option.bind_splits)

lemma grow_index:
  "tb_status r = OK \<Longrightarrow> Finish_index P string_file r = Some (ih, r') \<Longrightarrow>
   tb_status r' = OK \<and> length (tb_file r) \<le> length (tb_file r')"
  by (auto simp: Finish_index_def WriteBlock_string wrote_block_def last_index_entry_def add_index_entry_def Let_def
      split: Option.bind_splits if_splits)

lemma Finish_grows:
  assumes s: "tb_status r = OK" and f: "TableBuilder_Finish P string_file r = Some (s, r')"
  shows "length (tb_file r) \<le> length (tb_file r')"
proof -
  obtain r1 r2 r3 r4 fh mh ih where
    r1: "TableBuilder_Flush P string_file r = Some r1" and
    r2: "Finish_filter string_file (r1\<lparr>tb_closed := True\<rparr>) = Some (fh, r2)" and
    r3: "Finish_metaindex P string_file r2 fh = Some (mh, r3)" and
    r4: "Finish_index P string_file r3 = Some (ih, r4)" and
    r5: "Finish_footer string_file r4 mh ih = Some r'"
    using f by (auto simp: TableBuilder_Finish_def split: Option.bind_splits)
  have s1: "tb_status (r1\<lparr>tb_closed := True\<rparr>) = OK" "length (tb_file r) \<le> length (tb_file r1)"
    using r1 s Flush_string [OF s, of P] by (auto simp: file_flushed)
  have s2: "tb_status r2 = OK" "length (tb_file r1) \<le> length (tb_file r2)" using grow_filter [OF s1(1)] r2 by auto
  have s3: "tb_status r3 = OK" "length (tb_file r2) \<le> length (tb_file r3)" using grow_metaindex [OF s2(1) r3] by auto
  have s4: "tb_status r4 = OK" "length (tb_file r3) \<le> length (tb_file r4)" using grow_index [OF s3(1) r4] by auto
  have "length (tb_file r4) \<le> length (tb_file r')"
    using r5 s4(1) by (simp add: Finish_footer_def string_file_def Let_def) auto
  then show ?thesis using s1 s2 s3 s4 by linarith
qed

context writable_file
begin

lemma WriteRawBlock_sim:
  assumes f: "wok f" "contents f = tb_file r" and len: "length (tb_file (wrote r c type)) < 2 ^ 64"
  shows "\<exists>f'. WriteRawBlock W (with_file r f) c type = Some (next_handle r c, with_file (wrote r c type) f') \<and>
    wok f' \<and> contents f' = tb_file (wrote r c type)"
proof -
  obtain f1 where f1: "wf_Append W f c = Some (OK, f1)" "wok f1" "contents f1 = tb_file r @ c"
    using append [of f c] f len by auto
  obtain f2 where f2: "wf_Append W f1 (block_trailer c type) = Some (OK, f2)" "wok f2" "contents f2 = tb_file r @ c @ block_trailer c type"
    using append [of f1 "block_trailer c type"] f1 len by auto
  have "WriteRawBlock W (with_file r f) c type = Some (next_handle r c, with_file (wrote r c type) f2)"
    using f1(1) f2(1) by (simp add: WriteRawBlock_def Let_def Extend_Value block_trailer_def kBlockTrailerSize_def wrote_def)
      (simp add: with_file_def)
  then show ?thesis using f2 by auto
qed

lemma WriteBlock_sim:
  assumes f: "wok f" "contents f = tb_file r" and len: "length (tb_file (wrote_block P r b)) < 2 ^ 64"
  shows "\<exists>f'. WriteBlock P W (with_file r f) b =
      Some (next_handle r (fst (block_of P r b)), BlockBuilder_Reset (snd (BlockBuilder_Finish b)), with_file (wrote_block P r b) f') \<and>
    wok f' \<and> contents f' = tb_file (wrote_block P r b)"
  using WriteRawBlock_sim [OF f, of "fst (block_of P r b)" "snd (block_of P r b)"] len
  by (auto simp: WriteBlock_def Let_def block_of_def wrote_block_def split: prod.splits)

lemma Flush_sim:
  assumes f: "wok f" "contents f = tb_file r" "tb_status r = OK" and r': "TableBuilder_Flush P string_file r = Some r'"
    and len: "length (tb_file r') < 2 ^ 64"
  shows "\<exists>f'. TableBuilder_Flush P W (with_file r f) = Some (with_file r' f') \<and> wok f' \<and> contents f' = tb_file r'"
proof (cases "BlockBuilder_empty (tb_data_block r)")
  case True
  then show ?thesis using f r' by (auto simp: TableBuilder_Flush_def)
next
  case False
  then have r'': "r' = flushed P r" using r' Flush_string [OF f(3), of P] by simp
  have "length (tb_file (wrote_block P r (tb_data_block r))) < 2 ^ 64" using len by (simp add: r'' flushed_def Let_def)
  then obtain f1 where f1: "WriteBlock P W (with_file r f) (tb_data_block r) =
      Some (next_handle r (fst (block_of P r (tb_data_block r))), BlockBuilder_Reset (snd (BlockBuilder_Finish (tb_data_block r))),
        with_file (wrote_block P r (tb_data_block r)) f1)" "wok f1" "contents f1 = tb_file (wrote_block P r (tb_data_block r))"
    using WriteBlock_sim [OF f(1,2)] by blast
  obtain f2 where f2: "wf_Flush W f1 = Some (OK, f2)" "wok f2" "contents f2 = contents f1" using flush [OF f1(2)] by blast
  have "TableBuilder_Flush P W (with_file r f) = Some (with_file r' f2)"
    using False f(3) f1(1) f2(1)
    by (simp add: TableBuilder_Flush_def r'' flushed_def Let_def with_file_update) (simp add: with_file_def wrote_block_def wrote_def)
  then show ?thesis using f1 f2 by (auto simp: r'' flushed_def Let_def)
qed

lemma Add_sim:
  assumes f: "wok f" "contents f = tb_file r" "tb_status r = OK" and r': "TableBuilder_Add P string_file r k v = Some r'"
    and len: "length (tb_file r') < 2 ^ 64"
  shows "\<exists>f'. TableBuilder_Add P W (with_file r f) k v = Some (with_file r' f') \<and> wok f' \<and> contents f' = tb_file r'"
proof -
  let ?a = "added r k v" and ?b = "CurrentSizeEstimate (tb_data_block (added r k v)) \<ge> opt_block_size (tb_options (added r k v))"
  have a: "tb_file ?a = tb_file r" "tb_status ?a = OK" using f(3) by (simp_all add: added_def add_index_entry_def Let_def)
  have "tb_status (with_file r f) = OK" using f(3) by simp
  note eq = TableBuilder_Add_eq [OF this, of P W k v, unfolded with_file_added]
  show ?thesis
  proof (cases ?b)
    case True
    then have "TableBuilder_Flush P string_file ?a = Some r'" using r' by (simp add: TableBuilder_Add_eq [OF f(3)])
    then show ?thesis using Flush_sim [of f ?a P r'] f a len True by (simp add: eq)
  next
    case False
    then show ?thesis using r' f a by (auto simp: eq TableBuilder_Add_eq [OF f(3)])
  qed
qed

lemma add_entries_sim:
  "wok f \<Longrightarrow> contents f = tb_file r \<Longrightarrow> tb_status r = OK \<Longrightarrow> add_entries P string_file r kvs = Some r' \<Longrightarrow>
   length (tb_file r') < 2 ^ 64 \<Longrightarrow>
   \<exists>f'. add_entries P W (with_file r f) kvs = Some (with_file r' f') \<and> wok f' \<and> contents f' = tb_file r'"
proof (induction kvs arbitrary: r f)
  case (Cons kv kvs)
  obtain k v where kv: "kv = (k, v)" by (cases kv)
  obtain r1 where r1: "TableBuilder_Add P string_file r k v = Some r1" "add_entries P string_file r1 kvs = Some r'"
    using Cons.prems(4) by (auto simp: kv split: Option.bind_splits)
  have s: "tb_status r1 = OK" using Add_string [OF Cons.prems(3), of P k v] r1(1) Cons.prems(3)
    by (auto simp: Let_def file_flushed split: if_splits)
  then have "length (tb_file r1) \<le> length (tb_file r')" using add_entries_grows [OF s, of P kvs] r1(2) by auto
  then obtain f1 where f1: "TableBuilder_Add P W (with_file r f) k v = Some (with_file r1 f1)" "wok f1" "contents f1 = tb_file r1"
    using Add_sim [OF Cons.prems(1-3) r1(1)] Cons.prems(5) by auto
  show ?case using Cons.IH [OF f1(2,3) s r1(2) Cons.prems(5)] f1(1) by (simp add: kv)
qed auto

lemma Finish_filter_sim:
  assumes f: "wok f" "contents f = tb_file r" "tb_status r = OK" and r': "Finish_filter string_file r = Some (fh, r')"
    and len: "length (tb_file r') < 2 ^ 64"
  shows "\<exists>f'. Finish_filter W (with_file r f) = Some (fh, with_file r' f') \<and> wok f' \<and> contents f' = tb_file r'"
proof (cases "tb_filter_block r")
  case None
  then show ?thesis using f r' by (auto simp: Finish_filter_def)
next
  case (Some pb)
  obtain p b where pb: "pb = (p, b)" by (cases pb)
  obtain c b' where c: "FilterBlock_Finish (fp_CreateFilter p) b = (c, b')" by fastforce
  let ?r = "r\<lparr>tb_filter_block := Some (p, b')\<rparr>"
  have "r' = wrote ?r c kNoCompression" "fh = next_handle ?r c"
    using r' f(3) by (auto simp: Finish_filter_def Some pb c WriteRawBlock_string)
  then show ?thesis
    using WriteRawBlock_sim [of f ?r c kNoCompression] f len by (simp add: Finish_filter_def Some pb c with_file_update)
qed

lemma Finish_metaindex_sim:
  assumes f: "wok f" "contents f = tb_file r" "tb_status r = OK" and r': "Finish_metaindex P string_file r fh = Some (mh, r')"
    and len: "length (tb_file r') < 2 ^ 64"
  shows "\<exists>f'. Finish_metaindex P W (with_file r f) fh = Some (mh, with_file r' f') \<and> wok f' \<and> contents f' = tb_file r'"
proof -
  obtain m where m: "metaindex_block r fh = Some m"
    using r' f(3) by (auto simp: Finish_metaindex_def split: Option.bind_splits)
  have r'': "r' = wrote_block P r m" "mh = next_handle r (fst (block_of P r m))"
    using r' f(3) by (auto simp: Finish_metaindex_def m WriteBlock_string)
  have "metaindex_block (with_file r f) fh = Some m" using m unfolding metaindex_block_def with_file_simps .
  then show ?thesis
    using WriteBlock_sim [OF f(1,2), of P m] f(3) len by (auto simp: Finish_metaindex_def r'')
qed

lemma Finish_index_sim:
  assumes f: "wok f" "contents f = tb_file r" "tb_status r = OK" and r': "Finish_index P string_file r = Some (ih, r')"
    and len: "length (tb_file r') < 2 ^ 64"
  shows "\<exists>f'. Finish_index P W (with_file r f) = Some (ih, with_file r' f') \<and> wok f' \<and> contents f' = tb_file r'"
proof -
  let ?r = "last_index_entry r"
  let ?b = "tb_index_block ?r"
  have r'': "r' = wrote_block P ?r ?b\<lparr>tb_index_block := BlockBuilder_Reset (snd (BlockBuilder_Finish ?b))\<rparr>"
    "ih = next_handle ?r (fst (block_of P ?r ?b))"
    using r' f(3) by (auto simp: Finish_index_def WriteBlock_string Let_def)
  have w: "last_index_entry (with_file r f) = with_file ?r f"
    by (simp add: last_index_entry_def add_index_entry_def with_file_def)
  have "contents f = tb_file ?r" using f(2) by (simp add: last_index_entry_def add_index_entry_def)
  from WriteBlock_sim [OF f(1) this, of P ?b] obtain f1 where "WriteBlock P W (with_file ?r f) ?b =
      Some (ih, BlockBuilder_Reset (snd (BlockBuilder_Finish ?b)), with_file (wrote_block P ?r ?b) f1)"
    "wok f1" "contents f1 = tb_file (wrote_block P ?r ?b)"
    using len by (auto simp: r'')
  then show ?thesis using f(3) by (auto simp: Finish_index_def w Let_def r'' with_file_update)
qed

lemma Finish_sim:
  assumes f: "wok f" "contents f = tb_file r" "tb_good options r" and r': "TableBuilder_Finish P string_file r = Some (OK, r')"
    and len: "length (tb_file r') < 2 ^ 64"
  shows "\<exists>f'. TableBuilder_Finish P W (with_file r f) = Some (OK, with_file r' f') \<and> wok f' \<and> contents f' = tb_file r'"
proof -
  obtain r1 r2 r3 r4 fh mh ih where
    r1: "TableBuilder_Flush P string_file r = Some r1" and
    r2: "Finish_filter string_file (r1\<lparr>tb_closed := True\<rparr>) = Some (fh, r2)" and
    r3: "Finish_metaindex P string_file r2 fh = Some (mh, r3)" and
    r4: "Finish_index P string_file r3 = Some (ih, r4)" and
    r5: "Finish_footer string_file r4 mh ih = Some r'"
    using r' by (auto simp: TableBuilder_Finish_def split: Option.bind_splits)
  let ?c = "r1\<lparr>tb_closed := True\<rparr>" and ?e = "Footer_EncodeTo \<lparr>ft_metaindex_handle = mh, ft_index_handle = ih\<rparr> []"
  have s: "tb_status r = OK" using f(3) by (simp add: tb_good_def)
  have s1: "tb_status ?c = OK" using r1 s Flush_string [OF s, of P] by (auto simp: file_flushed)
  then have s2: "tb_status r2 = OK" "length (tb_file ?c) \<le> length (tb_file r2)" using grow_filter [OF s1] r2 by auto
  have s3: "tb_status r3 = OK" "length (tb_file r2) \<le> length (tb_file r3)" using grow_metaindex [OF s2(1) r3] by auto
  have s4: "tb_status r4 = OK" "length (tb_file r3) \<le> length (tb_file r4)" using grow_index [OF s3(1) r4] by auto
  have r'': "r' = r4\<lparr>tb_status := OK, tb_file := tb_file r4 @ ?e, tb_offset := tb_offset r4 + of_nat (length ?e)\<rparr>"
    using r5 s4(1) by (simp add: Finish_footer_def string_file_def Let_def)
  have ls: "length (tb_file r4) < 2 ^ 64" "length (tb_file r3) < 2 ^ 64" "length (tb_file r2) < 2 ^ 64" "length (tb_file r1) < 2 ^ 64"
    using len s2(2) s3(2) s4(2) by (simp_all add: r'')
  obtain f1 where f1: "TableBuilder_Flush P W (with_file r f) = Some (with_file r1 f1)" "wok f1" "contents f1 = tb_file ?c"
    using Flush_sim [OF f(1,2) s r1 ls(4)] by auto
  obtain f2 where f2: "Finish_filter W (with_file ?c f1) = Some (fh, with_file r2 f2)" "wok f2" "contents f2 = tb_file r2"
    using Finish_filter_sim [OF f1(2,3) s1 r2 ls(3)] by blast
  obtain f3 where f3: "Finish_metaindex P W (with_file r2 f2) fh = Some (mh, with_file r3 f3)" "wok f3" "contents f3 = tb_file r3"
    using Finish_metaindex_sim [OF f2(2,3) s2(1) r3 ls(2)] by blast
  obtain f4 where f4: "Finish_index P W (with_file r3 f3) = Some (ih, with_file r4 f4)" "wok f4" "contents f4 = tb_file r4"
    using Finish_index_sim [OF f3(2,3) s3(1) r4 ls(1)] by blast
  obtain f5 where f5: "wf_Append W f4 ?e = Some (OK, f5)" "wok f5" "contents f5 = tb_file r4 @ ?e"
    using append [OF f4(2), of ?e] f4(3) len by (auto simp: r'')
  have "Finish_footer W (with_file r4 f4) mh ih = Some (with_file r' f5)"
    using s4(1) f5(1) by (simp add: Finish_footer_def Let_def r'' with_file_update) (simp add: with_file_def)
  then have "TableBuilder_Finish P W (with_file r f) = Some (OK, with_file r' f5)"
    using f1(1) f2(1) f3(1) f4(1) by (simp add: TableBuilder_Finish_def with_file_update r'')
  then show ?thesis using f5 by (auto simp: r'')
qed

lemma build_table_sim:
  assumes f: "wok f" "contents f = []" and r: "build_table P string_file options [] kvs = Some (OK, r)"
    and len: "length (tb_file r) < 2 ^ 64"
  shows "\<exists>f'. build_table P W options f kvs = Some (OK, with_file r f') \<and> wok f' \<and> contents f' = tb_file r"
proof -
  let ?n = "TableBuilder_new options [] :: bytes TableBuilder"
  obtain r0 where r0: "add_entries P string_file ?n kvs = Some r0" "TableBuilder_Finish P string_file r0 = Some (OK, r)"
    using r by (auto simp: build_table_def split: Option.bind_splits)
  have "tb_good options ?n" by (simp add: tb_good_def TableBuilder_new_def)
  then have good: "tb_good options r0" using add_entries_good [of options ?n P kvs] r0(1) by auto
  then have "length (tb_file r0) \<le> length (tb_file r)" using Finish_grows [OF _ r0(2)] by (simp add: tb_good_def)
  then have "length (tb_file r0) < 2 ^ 64" using len by simp
  moreover have "contents f = tb_file ?n" "tb_status ?n = OK" using f(2) by (simp_all add: TableBuilder_new_def)
  ultimately obtain f1 where f1: "add_entries P W (with_file ?n f) kvs = Some (with_file r0 f1)" "wok f1" "contents f1 = tb_file r0"
    using add_entries_sim [OF f(1) _ _ r0(1)] by blast
  have "with_file ?n f = TableBuilder_new options f" by (simp add: with_file_def TableBuilder_new_def)
  then show ?thesis using f1(1) Finish_sim [OF f1(2,3) good r0(2) len] by (auto simp: build_table_def)
qed

end

end
