(* ===== verification/Table.thy ===== *)
theory Table
  imports TableBuilder
begin

text \<open>
  \<open>Table\<close> (\<open>table/table.cc\<close>) over any class \<open>R\<close> of random-access files. The block cache is seen through
  \<open>cached\<close>, what \<open>Lookup\<close> finds under a key; \<open>None\<close> when the options name no cache. \<open>BlockReader\<close> also returns
  what it inserts. \<open>direct\<close> says that the file hands out pointers to memory of its own.
\<close>

record 'f Table =
  tr_options :: Options
  tr_file :: 'f
  tr_cache_id :: u64
  tr_filter :: "(FilterPolicy \<times> FilterBlockReader) option"
  tr_metaindex_handle :: BlockHandle
  tr_index_block :: Block

definition table_read_options :: "Options \<Rightarrow> ReadOptions" where
  "table_read_options options =
     (if opt_paranoid_checks options then ReadOptions_default\<lparr>ro_verify_checksums := True\<rparr> else ReadOptions_default)"

definition ReadFilter :: "Port \<Rightarrow> 'f RandomAccessFile \<Rightarrow> bool \<Rightarrow> 'f Table \<Rightarrow> FilterPolicy \<Rightarrow> slice \<Rightarrow> 'f Table option" where
  "ReadFilter P R direct t policy filter_handle_value = do {
     let (s, filter_handle, v) = BlockHandle_DecodeFrom BlockHandle_new filter_handle_value;
     if \<not> Status_ok s then Some t
     else do {
       (s, block) \<leftarrow> ReadBlock P R direct (tr_file t) (table_read_options (tr_options t)) filter_handle;
       Some (if \<not> Status_ok s then t
             else t\<lparr>tr_filter := Some (policy, FilterBlockReader_new (bc_data block))\<rparr>)
     }
   }"

definition ReadMeta :: "Port \<Rightarrow> 'f RandomAccessFile \<Rightarrow> bool \<Rightarrow> 'f Table \<Rightarrow> Footer \<Rightarrow> 'f Table option" where
  "ReadMeta P R direct t footer =
     (case opt_filter_policy (tr_options t) of
        None \<Rightarrow> Some t
      | Some policy \<Rightarrow> do {
          (s, contents) \<leftarrow> ReadBlock P R direct (tr_file t) (table_read_options (tr_options t)) (ft_metaindex_handle footer);
          if \<not> Status_ok s then Some t
          else do {
            let I = BlockIterator BytewiseComparator_Compare;
            iter \<leftarrow> it_Seek I (Block_NewIterator (Block_new (bc_data contents))) (filter_key policy);
            if it_Valid I iter \<and> it_key I iter = filter_key policy
            then ReadFilter P R direct t policy (it_value I iter)
            else Some t
          }
        })"

definition Table_Open :: "Port \<Rightarrow> 'f RandomAccessFile \<Rightarrow> bool \<Rightarrow> Options \<Rightarrow> 'f \<Rightarrow> u64 \<Rightarrow> u64 \<Rightarrow>
    (Status \<times> 'f Table option) option" where
  "Table_Open P R direct options f sz cache_id =
     (if unat sz < kEncodedLength
      then Some (Corruption (str ''file is too short to be an sstable'') [], None)
      else do {
        (s, footer_input) \<leftarrow> rf_Read R f (sz - of_nat kEncodedLength) kEncodedLength [];
        if \<not> Status_ok s then Some (s, None)
        else do {
          let (s, footer, _) = Footer_DecodeFrom Footer_new footer_input;
          if \<not> Status_ok s then Some (s, None)
          else do {
            (s, index_block_contents) \<leftarrow> ReadBlock P R direct f (table_read_options options) (ft_index_handle footer);
            if \<not> Status_ok s then Some (s, None)
            else do {
              t \<leftarrow> ReadMeta P R direct
                \<lparr>tr_options = options, tr_file = f, tr_cache_id = cache_id, tr_filter = None,
                 tr_metaindex_handle = ft_metaindex_handle footer,
                 tr_index_block = Block_new (bc_data index_block_contents)\<rparr> footer;
              Some (s, Some t)
            }
          }
        }
      })"

text \<open>The cleanup a block iterator gets: the block is its own, or it is held in the cache.\<close>

datatype BlockCleanup = DeleteBlock | ReleaseBlock

definition cache_key :: "'f Table \<Rightarrow> BlockHandle \<Rightarrow> slice" where
  "cache_key t h = EncodeFixed64 (tr_cache_id t) @ EncodeFixed64 (bh_offset h)"

definition BlockReader :: "Port \<Rightarrow> 'f RandomAccessFile \<Rightarrow> bool \<Rightarrow> (slice \<Rightarrow> Block option) option \<Rightarrow>
    'f Table \<Rightarrow> ReadOptions \<Rightarrow> slice \<Rightarrow>
    ((Status + BlockIter) \<times> BlockCleanup option \<times> (slice \<times> Block) option) option" where
  "BlockReader P R direct block_cache t options index_value = do {
     let (s, handle, input) = BlockHandle_DecodeFrom BlockHandle_new index_value;
     if \<not> Status_ok s then Some (Inl (NewErrorIterator s), None, None)
     else case block_cache of
       Some cached \<Rightarrow>
         (case cached (cache_key t handle) of
            Some block \<Rightarrow> Some (Block_NewIterator block, Some ReleaseBlock, None)
          | None \<Rightarrow> do {
              (s, contents) \<leftarrow> ReadBlock P R direct (tr_file t) options handle;
              if \<not> Status_ok s then Some (Inl (NewErrorIterator s), None, None)
              else do {
                let block = Block_new (bc_data contents);
                Some (if bc_cachable contents \<and> ro_fill_cache options
                      then (Block_NewIterator block, Some ReleaseBlock, Some (cache_key t handle, block))
                      else (Block_NewIterator block, Some DeleteBlock, None))
              }
            })
     | None \<Rightarrow> do {
         (s, contents) \<leftarrow> ReadBlock P R direct (tr_file t) options handle;
         Some (if \<not> Status_ok s then (Inl (NewErrorIterator s), None, None)
               else (Block_NewIterator (Block_new (bc_data contents)), Some DeleteBlock, None))
       }
   }"

definition block_function :: "Port \<Rightarrow> 'f RandomAccessFile \<Rightarrow> bool \<Rightarrow> (slice \<Rightarrow> Block option) option \<Rightarrow>
    'f Table \<Rightarrow> ReadOptions \<Rightarrow> slice \<Rightarrow> (Status + BlockIter) option" where
  "block_function P R direct block_cache t options index_value =
     map_option fst (BlockReader P R direct block_cache t options index_value)"

abbreviation table_cmp :: "'f Table \<Rightarrow> slice \<Rightarrow> slice \<Rightarrow> int" where
  "table_cmp t \<equiv> cmp_Compare (opt_comparator (tr_options t))"

definition TableIterator_class :: "Port \<Rightarrow> 'f RandomAccessFile \<Rightarrow> bool \<Rightarrow> (slice \<Rightarrow> Block option) option \<Rightarrow>
    'f Table \<Rightarrow> ReadOptions \<Rightarrow> (Status + BlockIter, Status + BlockIter) TwoLevelIterator Iterator" where
  "TableIterator_class P R direct block_cache t options =
     TwoLevelIterator_class (BlockIterator (table_cmp t)) (BlockIterator (table_cmp t))
       (block_function P R direct block_cache t options)"

definition Table_NewIterator :: "'f Table \<Rightarrow> (Status + BlockIter, Status + BlockIter) TwoLevelIterator" where
  "Table_NewIterator t = NewTwoLevelIterator (BlockIterator (table_cmp t)) (Block_NewIterator (tr_index_block t))"

text \<open>The filter rules the key out of the block with this handle.\<close>

definition filter_rejects :: "'f Table \<Rightarrow> slice \<Rightarrow> slice \<Rightarrow> bool option" where
  "filter_rejects t handle_value k =
     (case tr_filter t of
        None \<Rightarrow> Some False
      | Some (policy, reader) \<Rightarrow>
          let (s, handle, _) = BlockHandle_DecodeFrom BlockHandle_new handle_value
          in if \<not> Status_ok s then Some False
             else map_option Not (FilterBlock_KeyMayMatch (fp_KeyMayMatch policy) reader (bh_offset handle) k))"

text \<open>\<open>handle_result\<close> is called on \<open>arg\<close>, the key and the value; the state it leaves is returned.\<close>

definition InternalGet :: "Port \<Rightarrow> 'f RandomAccessFile \<Rightarrow> bool \<Rightarrow> (slice \<Rightarrow> Block option) option \<Rightarrow>
    'f Table \<Rightarrow> ReadOptions \<Rightarrow> slice \<Rightarrow> 'a \<Rightarrow> ('a \<Rightarrow> slice \<Rightarrow> slice \<Rightarrow> 'a) \<Rightarrow> (Status \<times> 'a) option" where
  "InternalGet P R direct block_cache t options k arg handle_result = do {
     let I = BlockIterator (table_cmp t);
     iiter \<leftarrow> it_Seek I (Block_NewIterator (tr_index_block t)) k;
     (s, arg) \<leftarrow>
       (if \<not> it_Valid I iiter then Some (OK, arg)
        else do {
          skip \<leftarrow> filter_rejects t (it_value I iiter) k;
          if skip then Some (OK, arg)
          else do {
            block_iter \<leftarrow> block_function P R direct block_cache t options (it_value I iiter);
            block_iter \<leftarrow> it_Seek I block_iter k;
            let arg = (if it_Valid I block_iter then handle_result arg (it_key I block_iter) (it_value I block_iter) else arg);
            Some (it_status I block_iter, arg)
          }
        });
     Some (if Status_ok s then it_status I iiter else s, arg)
   }"

definition Table_ApproximateOffsetOf :: "'f Table \<Rightarrow> slice \<Rightarrow> u64 option" where
  "Table_ApproximateOffsetOf t key = do {
     let I = BlockIterator (table_cmp t);
     index_iter \<leftarrow> it_Seek I (Block_NewIterator (tr_index_block t)) key;
     Some (if it_Valid I index_iter
           then
             let (s, handle, input) = BlockHandle_DecodeFrom BlockHandle_new (it_value I index_iter)
             in if Status_ok s then bh_offset handle else bh_offset (tr_metaindex_handle t)
           else bh_offset (tr_metaindex_handle t))
   }"

subsection \<open>Iterators over block data\<close>

definition blk_inv :: "(slice \<times> slice) list \<Rightarrow> Status + BlockIter \<Rightarrow> bool" where
  "blk_inv kvs x \<longleftrightarrow> (\<exists>es ris. blk es ris \<and> map snd es = kvs \<and> case_sum (\<lambda>_. False) (\<lambda>it. \<exists>i. standing es ris it i) x)"

definition blk_at :: "(slice \<times> slice) list \<Rightarrow> Status + BlockIter \<Rightarrow> nat \<Rightarrow> bool" where
  "blk_at kvs x i \<longleftrightarrow> (\<exists>es ris. blk es ris \<and> map snd es = kvs \<and> case_sum (\<lambda>_ _. False) (standing es ris) x i)"

context comparator
begin

lemma block_entries_iterator:
  assumes kvs: "sorted_wrt (\<lambda>a b. Compare (fst a) (fst b) < 0) kvs" "\<forall>kv\<in>set kvs. ok (fst kv)"
  shows "sorted_iterator (BlockIterator Compare) Compare ok kvs (blk_inv kvs) (blk_at kvs)"
proof -
  have si: "sorted_iterator (BlockIterator Compare) Compare ok kvs (case_sum (\<lambda>_. False) (\<lambda>it. \<exists>i. standing es ris it i))
      (case_sum (\<lambda>_ _. False) (standing es ris))" if "blk es ris" "map snd es = kvs" for es ris
    unfolding BlockIterator_def using block_iterator [OF that(1) that(2) [symmetric] kvs] by (rule either_Iterator_sorted)
  show ?thesis
  proof
    fix x i assume "blk_at kvs x i"
    then obtain es ris where e: "blk es ris" "map snd es = kvs" and a: "case_sum (\<lambda>_ _. False) (standing es ris) x i"
      by (auto simp: blk_at_def)
    note l = si [OF e]
    show "blk_inv kvs x \<and> i \<le> length kvs" using sorted_iterator.at_inv [OF l a] e by (auto simp: blk_inv_def)
    show "it_Valid (BlockIterator Compare) x \<longleftrightarrow> i < length kvs" by (rule sorted_iterator.at_valid [OF l a])
    assume i: "i < length kvs"
    show "it_key (BlockIterator Compare) x = fst (kvs ! i)" "it_value (BlockIterator Compare) x = snd (kvs ! i)"
      by (rule sorted_iterator.at_key [OF l a i] sorted_iterator.at_value [OF l a i])+
    show "\<exists>s'. it_Next (BlockIterator Compare) x = Some s' \<and> blk_at kvs s' (i + 1)"
      using sorted_iterator.at_next [OF l a i] e by (auto simp: blk_at_def)
    show "\<exists>s'. it_Prev (BlockIterator Compare) x = Some s' \<and> blk_at kvs s' (if i = 0 then length kvs else i - 1)"
      using sorted_iterator.at_prev [OF l a i] e unfolding blk_at_def by blast
  next
    fix x t assume "blk_inv kvs x"
    then obtain es ris where e: "blk es ris" "map snd es = kvs" and a: "case_sum (\<lambda>_. False) (\<lambda>it. \<exists>i. standing es ris it i) x"
      by (auto simp: blk_inv_def)
    note l = si [OF e]
    show "it_status (BlockIterator Compare) x = OK" by (rule sorted_iterator.at_status [OF l a])
    show "\<exists>s'. it_SeekToFirst (BlockIterator Compare) x = Some s' \<and> blk_at kvs s' 0"
      using sorted_iterator.at_first [OF l a] e unfolding blk_at_def by blast
    show "\<exists>s'. it_SeekToLast (BlockIterator Compare) x = Some s' \<and> blk_at kvs s' (length kvs - 1)"
      using sorted_iterator.at_last [OF l a] e unfolding blk_at_def by blast
    assume "ok t"
    then show "\<exists>s'. it_Seek (BlockIterator Compare) x t = Some s' \<and> blk_at kvs s' (length (takeWhile (\<lambda>kv. Compare (fst kv) t < 0) kvs))"
      using sorted_iterator.at_seek [OF l a] e unfolding blk_at_def by blast
  qed (use kvs in auto)
qed

end

lemma block_data_inv: "block_data d kvs \<Longrightarrow> blk_inv kvs (Block_NewIterator (Block_new d))"
  using Block_NewIterator_built by (fastforce simp: block_data_def blk_inv_def)

subsection \<open>Reading a table\<close>

context random_access_file
begin

lemma ReadBlock_stored:
  assumes "rok f" "stored P (contents f) h d" "length (contents f) < 2 ^ 63"
  shows "\<exists>b. ReadBlock P R direct f ro h = Some (OK, b) \<and> bc_data b = d"
  using assms(2) ReadBlock_trailer [OF assms(1) _ assms(3)] unfolding stored_def by metis

lemma stored_unique:
  assumes "rok f" "stored P (contents f) h d" "stored P (contents f) h d'" "length (contents f) < 2 ^ 63"
  shows "d = d'"
  using ReadBlock_stored [OF assms(1,2,4), of True ReadOptions_default] ReadBlock_stored [OF assms(1,3,4), of True ReadOptions_default]
  by auto

end

definition table_of :: "Port \<Rightarrow> Options \<Rightarrow> (slice \<Rightarrow> bool) \<Rightarrow> bytes \<Rightarrow> (slice \<times> table_block) list \<Rightarrow> 'f Table \<Rightarrow> bool" where
  "table_of P options ok c blks t \<longleftrightarrow> table_layout P options ok c blks \<and> tr_options t = options \<and>
     (\<exists>di. tr_index_block t = Block_new di \<and> block_data di (index_entries blks)) \<and>
     (\<forall>policy reader. tr_filter t = Some (policy, reader) \<longrightarrow> opt_filter_policy options = Some policy \<and>
        (\<forall>b \<in> snd ` set blks. \<forall>kv\<in>set (snd b).
           FilterBlock_KeyMayMatch (fp_KeyMayMatch policy) reader (bh_offset (fst b)) (fst kv) = Some True))"

definition cache_ok :: "Port \<Rightarrow> bytes \<Rightarrow> 'f Table \<Rightarrow> (slice \<Rightarrow> Block option) option \<Rightarrow> bool" where
  "cache_ok P c t block_cache \<longleftrightarrow> (\<forall>cached h b d. block_cache = Some cached \<longrightarrow> cached (cache_key t h) = Some b \<longrightarrow>
     stored P c h d \<longrightarrow> b = Block_new d)"

lemma cache_ok_None [simp]: "cache_ok P c t None"
  by (simp add: cache_ok_def)

context random_access_file
begin

lemma block_function_stored:
  assumes f: "rok (tr_file t)" and s: "stored P (contents (tr_file t)) h d" and len: "length (contents (tr_file t)) < 2 ^ 63"
    and c: "cache_ok P (contents (tr_file t)) t block_cache"
  shows "block_function P R direct block_cache t ro (BlockHandle_EncodeTo h []) = Some (Block_NewIterator (Block_new d))"
proof -
  obtain b where b: "ReadBlock P R direct (tr_file t) ro h = Some (OK, b)" "bc_data b = d"
    using ReadBlock_stored [OF f s len] by blast
  show ?thesis
  proof (cases block_cache)
    case None
    then show ?thesis using b by (simp add: block_function_def BlockReader_def)
  next
    case (Some cached)
    then show ?thesis
      using b c s by (cases "cached (cache_key t h)") (auto simp: block_function_def BlockReader_def cache_ok_def Let_def)
  qed
qed

lemma ReadMeta_stored:
  assumes f: "rok (tr_file t)" and len: "length (contents (tr_file t)) < 2 ^ 63" and none: "tr_filter t = None"
    and m: "meta_stored P options (contents (tr_file t)) (ft_metaindex_handle ft) blocks" and o: "tr_options t = options"
  shows "\<exists>fl. ReadMeta P R direct t ft = Some (t\<lparr>tr_filter := fl\<rparr>) \<and>
    (case opt_filter_policy options of None \<Rightarrow> fl = None
     | Some policy \<Rightarrow> \<exists>fr. fl = Some (policy, fr) \<and> (\<forall>b \<in> blocks. \<forall>kv\<in>set (snd b).
           FilterBlock_KeyMayMatch (fp_KeyMayMatch policy) fr (bh_offset (fst b)) (fst kv) = Some True))"
proof (cases "opt_filter_policy options")
  case None
  have "t\<lparr>tr_filter := None\<rparr> = t" using none by (cases t) simp
  then show ?thesis using None by (auto simp: ReadMeta_def o)
next
  case (Some p)
  obtain dm fh fd where d: "stored P (contents (tr_file t)) (ft_metaindex_handle ft) dm"
      "block_data dm [(filter_key p, BlockHandle_EncodeTo fh [])]" "stored P (contents (tr_file t)) fh fd"
      "\<forall>b\<in>blocks. \<forall>kv\<in>set (snd b).
        FilterBlock_KeyMayMatch (fp_KeyMayMatch p) (FilterBlockReader_new fd) (bh_offset (fst b)) (fst kv) = Some True"
    using m Some by (auto simp: meta_stored_def filter_stored_def)
  let ?ro = "table_read_options (tr_options t)" and ?I = "BlockIterator BytewiseComparator_Compare"
  obtain b where b: "ReadBlock P R direct (tr_file t) ?ro (ft_metaindex_handle ft) = Some (OK, b)" "bc_data b = dm"
    using ReadBlock_stored [OF f d(1) len] by blast
  obtain b' where b': "ReadBlock P R direct (tr_file t) ?ro fh = Some (OK, b')" "bc_data b' = fd"
    using ReadBlock_stored [OF f d(3) len] by blast
  let ?kvs = "[(filter_key p, BlockHandle_EncodeTo fh [])]"
  have si: "sorted_iterator ?I BytewiseComparator_Compare (\<lambda>_. True) ?kvs (blk_inv ?kvs) (blk_at ?kvs)"
    by (rule bytewise.block_entries_iterator) simp_all
  obtain it where it: "it_Seek ?I (Block_NewIterator (Block_new dm)) (filter_key p) = Some it" "blk_at ?kvs it 0"
    using sorted_iterator.at_seek [OF si block_data_inv [OF d(2)], of "filter_key p"] by auto
  have v: "it_Valid ?I it" "it_key ?I it = filter_key p" "it_value ?I it = BlockHandle_EncodeTo fh []"
    using sorted_iterator.at_valid [OF si it(2)] sorted_iterator.at_key [OF si it(2)] sorted_iterator.at_value [OF si it(2)] by auto
  have "ReadMeta P R direct t ft = Some (t\<lparr>tr_filter := Some (p, FilterBlockReader_new fd)\<rparr>)"
    using b b' it(1) v by (simp add: ReadMeta_def o Some ReadFilter_def)
  then show ?thesis using Some d(4) by auto
qed

lemma Open_layout:
  assumes f: "rok f" and lay: "table_layout P options ok (contents f) blks" and len: "length (contents f) < 2 ^ 63"
    and sz: "unat sz = length (contents f)"
  shows "\<exists>t. Table_Open P R direct options f sz cache_id = Some (OK, Some t) \<and> tr_file t = f \<and>
    table_of P options ok (contents f) blks t \<and> (opt_filter_policy options \<noteq> None \<longrightarrow> tr_filter t \<noteq> None)"
proof -
  obtain ft pre di where c: "contents f = pre @ Footer_EncodeTo ft []" "stored P (contents f) (ft_index_handle ft) di"
    "block_data di (index_entries blks)" "meta_stored P options (contents f) (ft_metaindex_handle ft) (snd ` set blks)"
    using lay by (auto simp: table_layout_def)
  have le: "48 \<le> unat sz" using sz c(1) length_Footer_EncodeTo [of ft] by simp
  then have o: "unat (sz - 48) = length pre"
    using sz c(1) length_Footer_EncodeTo [of ft] by (simp add: unat_sub word_le_nat_alt)
  have foot: "rf_Read R f (sz - 48) 48 [] = Some (OK, Footer_EncodeTo ft [])"
    using read [OF f, of "sz - 48" 48 "[]"] o c(1) length_Footer_EncodeTo [of ft] by simp
  have dec: "Footer_DecodeFrom Footer_new (Footer_EncodeTo ft []) = (OK, ft, [])"
    using Footer_Decode_Encode [of Footer_new ft "[]"] by simp
  obtain b where b: "ReadBlock P R direct f (table_read_options options) (ft_index_handle ft) = Some (OK, b)" "bc_data b = di"
    using ReadBlock_stored [OF f c(2) len] by blast
  let ?t = "\<lparr>tr_options = options, tr_file = f, tr_cache_id = cache_id, tr_filter = None,
     tr_metaindex_handle = ft_metaindex_handle ft, tr_index_block = Block_new di\<rparr>"
  obtain fl where fl: "ReadMeta P R direct ?t ft = Some (?t\<lparr>tr_filter := fl\<rparr>)"
    "case opt_filter_policy options of None \<Rightarrow> fl = None
     | Some policy \<Rightarrow> \<exists>fr. fl = Some (policy, fr) \<and> (\<forall>b \<in> snd ` set blks. \<forall>kv\<in>set (snd b).
           FilterBlock_KeyMayMatch (fp_KeyMayMatch policy) fr (bh_offset (fst b)) (fst kv) = Some True)"
    using ReadMeta_stored [of ?t P options ft] f len c(4) by auto
  have "Table_Open P R direct options f sz cache_id = Some (OK, Some (?t\<lparr>tr_filter := fl\<rparr>))"
    using le foot dec b fl(1) by (simp add: Table_Open_def kEncodedLength_def kMaxEncodedLength_def)
  moreover have "table_of P options ok (contents f) blks (?t\<lparr>tr_filter := fl\<rparr>)"
    using lay c(3) fl(2) by (auto simp: table_of_def split: option.splits)
  ultimately show ?thesis using fl(2) by (auto split: option.splits)
qed

end

subsection \<open>The iterator of a table\<close>

definition entries_of :: "(slice \<times> table_block) list \<Rightarrow> slice \<Rightarrow> (slice \<times> slice) list" where
  "entries_of blks h =
     (case map_of (map (\<lambda>(s, h, kvs). (BlockHandle_EncodeTo h [], kvs)) blks) h of None \<Rightarrow> [] | Some kvs \<Rightarrow> kvs)"

lemma index_entries_nth:
  "i < length blks \<Longrightarrow> index_entries blks ! i = (fst (blks ! i), BlockHandle_EncodeTo (fst (snd (blks ! i))) [])"
  by (simp add: index_entries_def split: prod.splits)

lemma length_index_entries [simp]: "length (index_entries blks) = length blks"
  by (simp add: index_entries_def)

lemma layout_block:
  "table_layout P options ok c blks \<Longrightarrow> b \<in> snd ` set blks \<Longrightarrow> snd b \<noteq> [] \<and> (\<exists>d. stored P c (fst b) d \<and> block_data d (snd b))"
  unfolding table_layout_def block_stored_def by blast

lemma layout_seps:
  assumes "table_layout P options ok c blks"
  shows "j < length blks \<Longrightarrow> kv \<in> set (snd (snd (blks ! j))) \<Longrightarrow> opt_Compare options (fst kv) (fst (blks ! j)) \<le> 0"
    "i < j \<Longrightarrow> j < length blks \<Longrightarrow> kv \<in> set (snd (snd (blks ! j))) \<Longrightarrow> opt_Compare options (fst (blks ! i)) (fst kv) < 0"
proof -
  have s: "seps_ok (opt_Compare options) blks []" using assms by (simp add: table_layout_def)
  show "j < length blks \<Longrightarrow> kv \<in> set (snd (snd (blks ! j))) \<Longrightarrow> opt_Compare options (fst kv) (fst (blks ! j)) \<le> 0"
    using s by (simp add: seps_ok_def)
  assume ij: "i < j" "j < length blks" and kv: "kv \<in> set (snd (snd (blks ! j)))"
  have "blks ! j = drop (Suc i) blks ! (j - Suc i)" "j - Suc i < length (drop (Suc i) blks)" using ij by simp_all
  then have "blks ! j \<in> set (drop (Suc i) blks)" by (metis nth_mem)
  then have "kv \<in> set (concat (map (snd \<circ> snd) (drop (Suc i) blks)) @ [])" using kv by auto
  moreover have "i < length blks" using ij by simp
  ultimately show "opt_Compare options (fst (blks ! i)) (fst kv) < 0" using s unfolding seps_ok_def by blast
qed

lemma block_entries_ok:
  assumes "table_layout P options ok c blks" "b \<in> snd ` set blks"
  shows "sorted_wrt (\<lambda>a b. opt_Compare options (fst a) (fst b) < 0) (snd b)" "\<forall>kv\<in>set (snd b). ok (fst kv)"
proof -
  obtain e where e: "e \<in> set blks" "snd e = b" using assms(2) by auto
  then obtain xs ys where "blks = xs @ e # ys" by (meson split_list)
  then show "sorted_wrt (\<lambda>a b. opt_Compare options (fst a) (fst b) < 0) (snd b)" "\<forall>kv\<in>set (snd b). ok (fst kv)"
    using assms(1) e(2) by (auto simp: table_layout_def sorted_wrt_append)
qed

lemma index_entries_sorted:
  assumes c: "comparator (opt_Compare options) ok" and lay: "table_layout P options ok c' blks"
  shows "sorted_wrt (\<lambda>a b. opt_Compare options (fst a) (fst b) < 0) (index_entries blks)"
    "\<forall>kv\<in>set (index_entries blks). ok (fst kv)"
proof -
  show "\<forall>kv\<in>set (index_entries blks). ok (fst kv)" using lay by (auto simp: table_layout_def index_entries_def)
  show "sorted_wrt (\<lambda>a b. opt_Compare options (fst a) (fst b) < 0) (index_entries blks)"
    unfolding sorted_wrt_iff_nth_less
  proof (intro allI impI)
    fix i j assume ij: "i < j" "j < length (index_entries blks)"
    then have j: "j < length blks" "i < length blks" by simp_all
    have "snd (snd (blks ! j)) \<noteq> []" using layout_block [OF lay] j by simp
    then obtain kv where kv: "kv \<in> set (snd (snd (blks ! j)))" by (meson last_in_set)
    have s: "\<forall>e\<in>set blks. ok (fst e)" "\<forall>kv\<in>set (concat (map (snd \<circ> snd) blks)). ok (fst kv)"
      using lay by (simp_all add: table_layout_def)
    have "opt_Compare options (fst (blks ! i)) (fst kv) < 0" "opt_Compare options (fst kv) (fst (blks ! j)) \<le> 0"
      using layout_seps [OF lay] ij j kv by simp_all
    moreover have "ok (fst (blks ! i))" "ok (fst (blks ! j))" using s(1) j by auto
    moreover have "ok (fst kv)" using s(2) kv j by fastforce
    ultimately have "opt_Compare options (fst (blks ! i)) (fst (blks ! j)) < 0"
      using comparator.compare_less_le_trans [OF c] by blast
    then show "opt_Compare options (fst (index_entries blks ! i)) (fst (index_entries blks ! j)) < 0"
      using j by (simp add: index_entries_nth)
  qed
qed

context random_access_file
begin

lemma entries_of_block:
  assumes c: "comparator (opt_Compare options) ok" and lay: "table_layout P options ok (contents f) blks" and f: "rok f"
    and len: "length (contents f) < 2 ^ 63" and b: "b \<in> snd ` set blks"
  shows "entries_of blks (BlockHandle_EncodeTo (fst b) []) = snd b"
proof -
  let ?l = "map (\<lambda>(s, h, kvs). (BlockHandle_EncodeTo h [], kvs)) blks"
  have "(BlockHandle_EncodeTo (fst b) [], snd b) \<in> set ?l" using b by force
  then obtain kvs where kvs: "map_of ?l (BlockHandle_EncodeTo (fst b) []) = Some kvs" by (blast dest: weak_map_of_SomeI)
  then have "(BlockHandle_EncodeTo (fst b) [], kvs) \<in> set ?l" by (rule map_of_SomeD)
  then have b': "(fst b, kvs) \<in> snd ` set blks" by (force dest: BlockHandle_EncodeTo_inj)
  obtain d d' where d: "stored P (contents f) (fst b) d" "block_data d (snd b)" "stored P (contents f) (fst b) d'" "block_data d' kvs"
    using layout_block [OF lay b] layout_block [OF lay b'] by auto
  have "d' = d" using d stored_unique [OF f] len by blast
  have sc: "scan (BlockIterator (opt_Compare options)) (Block_NewIterator (Block_new d)) = Some (snd x)"
    if "x \<in> snd ` set blks" "block_data d (snd x)" for x
    using sorted_iterator.scan_all [OF comparator.block_entries_iterator [OF c block_entries_ok [OF lay that(1)]] block_data_inv [OF that(2)]] .
  have "snd b = kvs" using sc [OF b d(2)] sc [OF b'] d(4) \<open>d' = d\<close> by simp
  then show ?thesis using kvs by (simp add: entries_of_def)
qed

lemma table_two_level:
  assumes c: "comparator (opt_Compare options) ok" and t: "table_of P options ok (contents (tr_file t)) blks t"
    and f: "rok (tr_file t)" and len: "length (contents (tr_file t)) < 2 ^ 63" and cache: "cache_ok P (contents (tr_file t)) t block_cache"
  shows "two_level (opt_Compare options) ok (BlockIterator (opt_Compare options)) (index_entries blks)
     (blk_inv (index_entries blks)) (blk_at (index_entries blks)) (BlockIterator (opt_Compare options))
     (block_function P R direct block_cache t ro) (entries_of blks) (\<lambda>h. blk_inv (entries_of blks h)) (\<lambda>h. blk_at (entries_of blks h))"
proof -
  have lay: "table_layout P options ok (contents (tr_file t)) blks" using t by (simp add: table_of_def)
  have e: "entries_of blks (BlockHandle_EncodeTo (fst b) []) = snd b" if "b \<in> snd ` set blks" for b
    using entries_of_block [OF c lay f len that] .
  show ?thesis
  proof (rule two_level.intro [OF c _ two_level_axioms.intro])
  show "sorted_iterator (BlockIterator (opt_Compare options)) (opt_Compare options) ok (index_entries blks)
      (blk_inv (index_entries blks)) (blk_at (index_entries blks))"
    by (rule comparator.block_entries_iterator [OF c index_entries_sorted [OF c lay]])
next
    fix h assume "h \<in> snd ` set (index_entries blks)"
    then obtain b where b: "b \<in> snd ` set blks" "h = BlockHandle_EncodeTo (fst b) []" by (force simp: index_entries_def)
    show "sorted_iterator (BlockIterator (opt_Compare options)) (opt_Compare options) ok (entries_of blks h)
        (blk_inv (entries_of blks h)) (blk_at (entries_of blks h))"
      using comparator.block_entries_iterator [OF c block_entries_ok [OF lay b(1)]] by (simp add: e [OF b(1)] b(2))
    obtain d where "stored P (contents (tr_file t)) (fst b) d" "block_data d (snd b)"
      using layout_block [OF lay b(1)] by blast
    then show "\<exists>x. block_function P R direct block_cache t ro h = Some x \<and> blk_inv (entries_of blks h) x"
      using block_function_stored [OF f _ len cache] block_data_inv e [OF b(1)] b(2) by auto
  next
    fix j kv assume j: "j < length (index_entries blks)" and kv: "kv \<in> set (entries_of blks (snd (index_entries blks ! j)))"
    then have "kv \<in> set (snd (snd (blks ! j)))" using e [of "snd (blks ! j)"] by (simp add: index_entries_nth)
    then show "opt_Compare options (fst kv) (fst (index_entries blks ! j)) \<le> 0"
      using layout_seps(1) [OF lay] j by (simp add: index_entries_nth)
  next
    fix i j kv assume ij: "i < j" "j < length (index_entries blks)" and kv: "kv \<in> set (entries_of blks (snd (index_entries blks ! j)))"
    then have k: "kv \<in> set (snd (snd (blks ! j)))" using e [of "snd (blks ! j)"] by (simp add: index_entries_nth)
    show "opt_Compare options (fst (index_entries blks ! i)) (fst kv) < 0"
      using layout_seps(2) [OF lay ij(1) _ k] ij by (simp add: index_entries_nth)
  qed
qed

lemma table_entries_map:
  assumes "comparator (opt_Compare options) ok" "table_layout P options ok (contents f) blks" "rok f" "length (contents f) < 2 ^ 63"
  shows "map (entries_of blks \<circ> snd) (index_entries blks) = map (snd \<circ> snd) blks"
proof -
  have "entries_of blks (BlockHandle_EncodeTo (fst (snd e)) []) = snd (snd e)" if "e \<in> set blks" for e
    using entries_of_block [OF assms, of "snd e"] that by simp
  then show ?thesis by (auto simp: index_entries_def)
qed

end

subsection \<open>Lookups\<close>

text \<open>
  A key finds an entry's key when the filter does not tell them apart and a separator below the entry's
  key, made from a smaller key, is below the key, too.
\<close>

definition finds :: "Options \<Rightarrow> (slice \<Rightarrow> bool) \<Rightarrow> slice \<Rightarrow> slice \<Rightarrow> bool" where
  "finds options ok k k' \<longleftrightarrow>
     (\<forall>policy f. opt_filter_policy options = Some policy \<longrightarrow> fp_KeyMayMatch policy k f = fp_KeyMayMatch policy k' f) \<and>
     (\<forall>start. ok start \<longrightarrow> opt_Compare options start k < 0 \<longrightarrow> opt_Compare options (opt_Separator options start k') k < 0)"

lemma FilterBlock_KeyMayMatch_same:
  "(\<And>f. m k f = m k' f) \<Longrightarrow> FilterBlock_KeyMayMatch m r p k = FilterBlock_KeyMayMatch m r p k'"
  by (simp add: FilterBlock_KeyMayMatch_def Let_def)

lemma FilterBlock_KeyMayMatch_defined:
  "FilterBlock_KeyMayMatch m r p k = Some x \<Longrightarrow> \<exists>y. FilterBlock_KeyMayMatch m r p k' = Some y"
  by (auto simp: FilterBlock_KeyMayMatch_def Let_def split: if_splits)

lemma table_of_filter:
  assumes "table_of P options ok c blks t" "tr_filter t = Some (policy, reader)"
  shows "opt_filter_policy options = Some policy"
    "\<forall>b\<in>snd ` set blks. \<forall>kv\<in>set (snd b). FilterBlock_KeyMayMatch (fp_KeyMayMatch policy) reader (bh_offset (fst b)) (fst kv) = Some True"
  using assms by (simp_all add: table_of_def)

context random_access_file
begin

lemma InternalGet_block:
  assumes c: "comparator (opt_Compare options) ok" and t: "table_of P options ok (contents (tr_file t)) blks t"
    and f: "rok (tr_file t)" and len: "length (contents (tr_file t)) < 2 ^ 63" and cache: "cache_ok P (contents (tr_file t)) t block_cache"
    and k: "ok k"
  defines "j \<equiv> length (takeWhile (\<lambda>kv. opt_Compare options (fst kv) k < 0) (index_entries blks))"
  defines "kvs \<equiv> snd (snd (blks ! j))"
  defines "i \<equiv> length (takeWhile (\<lambda>kv. opt_Compare options (fst kv) k < 0) kvs)"
  shows "if j < length blks
    then \<exists>skip. InternalGet P R direct block_cache t ro k arg h =
        Some (OK, if skip \<or> length kvs \<le> i then arg else h arg (fst (kvs ! i)) (snd (kvs ! i))) \<and>
        (skip \<longrightarrow> (\<forall>kv\<in>set kvs. \<not> finds options ok k (fst kv)))
    else InternalGet P R direct block_cache t ro k arg h = Some (OK, arg)"
proof -
  let ?I = "BlockIterator (opt_Compare options)" and ?x = "index_entries blks"
  have lay: "table_layout P options ok (contents (tr_file t)) blks" and o: "tr_options t = options" using t by (simp_all add: table_of_def)
  have si: "sorted_iterator ?I (opt_Compare options) ok ?x (blk_inv ?x) (blk_at ?x)"
    by (rule comparator.block_entries_iterator [OF c index_entries_sorted [OF c lay]])
  obtain di where di: "tr_index_block t = Block_new di" "block_data di ?x" using t by (auto simp: table_of_def)
  obtain it where it: "it_Seek ?I (Block_NewIterator (tr_index_block t)) k = Some it" "blk_at ?x it j"
    using sorted_iterator.at_seek [OF si block_data_inv [OF di(2)] k] di(1) by (auto simp: j_def)
  note v = sorted_iterator.at_valid [OF si it(2)] sorted_iterator.at_value [OF si it(2)]
  have st: "it_status ?I it = OK" using sorted_iterator.at_inv [OF si it(2)] sorted_iterator.at_status [OF si] by blast
  show ?thesis
  proof (cases "j < length blks")
    case False
    then show ?thesis using it(1) v st by (simp add: InternalGet_def o)
  next
    case True
    let ?h = "fst (snd (blks ! j))"
    have b: "snd (blks ! j) \<in> snd ` set blks" using True by simp
    have val: "it_Valid ?I it" "it_value ?I it = BlockHandle_EncodeTo ?h []" using v True by (simp_all add: index_entries_nth)
    obtain d where d: "stored P (contents (tr_file t)) ?h d" "block_data d kvs" and ne: "kvs \<noteq> []"
      using layout_block [OF lay b] by (auto simp: kvs_def)
    have bs: "sorted_iterator ?I (opt_Compare options) ok kvs (blk_inv kvs) (blk_at kvs)"
      unfolding kvs_def by (rule comparator.block_entries_iterator [OF c block_entries_ok [OF lay b]])
    have fn: "block_function P R direct block_cache t ro (it_value ?I it) = Some (Block_NewIterator (Block_new d))"
      using block_function_stored [OF f d(1) len cache] val(2) by simp
    obtain bi where bi: "it_Seek ?I (Block_NewIterator (Block_new d)) k = Some bi" "blk_at kvs bi i"
      using sorted_iterator.at_seek [OF bs block_data_inv [OF d(2)] k] by (auto simp: i_def)
    note w = sorted_iterator.at_valid [OF bs bi(2)] sorted_iterator.at_key [OF bs bi(2)] sorted_iterator.at_value [OF bs bi(2)]
    have bst: "it_status ?I bi = OK" using sorted_iterator.at_inv [OF bs bi(2)] sorted_iterator.at_status [OF bs] by blast
    define skip where "skip = (case tr_filter t of None \<Rightarrow> False
      | Some (policy, reader) \<Rightarrow> \<not> the (FilterBlock_KeyMayMatch (fp_KeyMayMatch policy) reader (bh_offset ?h) k))"
    have filt: "opt_filter_policy options = Some policy \<and>
        (\<forall>kv\<in>set kvs. FilterBlock_KeyMayMatch (fp_KeyMayMatch policy) reader (bh_offset ?h) (fst kv) = Some True)"
      if "tr_filter t = Some (policy, reader)" for policy reader
      using table_of_filter(1) [OF t that] bspec [OF table_of_filter(2) [OF t that] b] by (simp add: kvs_def)
    have def: "\<exists>y. FilterBlock_KeyMayMatch (fp_KeyMayMatch policy) reader (bh_offset ?h) k = Some y"
      if "tr_filter t = Some (policy, reader)" for policy reader
      using filt [OF that] ne last_in_set [OF ne] FilterBlock_KeyMayMatch_defined by blast
    have sk: "filter_rejects t (it_value ?I it) k = Some skip"
      using def by (cases "tr_filter t") (force simp: filter_rejects_def skip_def val(2))+
    have "InternalGet P R direct block_cache t ro k arg h =
        Some (OK, if skip \<or> length kvs \<le> i then arg else h arg (fst (kvs ! i)) (snd (kvs ! i)))"
      using it(1) val(1) st fn bi(1) bst w sk by (simp add: InternalGet_def o Let_def)
    moreover have "\<not> finds options ok k (fst kv)" if s: "skip" and kv: "kv \<in> set kvs" for kv
    proof
      assume fd: "finds options ok k (fst kv)"
      obtain policy reader where fl: "tr_filter t = Some (policy, reader)"
          "\<not> the (FilterBlock_KeyMayMatch (fp_KeyMayMatch policy) reader (bh_offset ?h) k)"
        using s by (cases "tr_filter t") (auto simp: skip_def)
      have "FilterBlock_KeyMayMatch (fp_KeyMayMatch policy) reader (bh_offset ?h) k =
          FilterBlock_KeyMayMatch (fp_KeyMayMatch policy) reader (bh_offset ?h) (fst kv)"
        using fd filt [OF fl(1)] by (intro FilterBlock_KeyMayMatch_same) (simp add: finds_def)
      then show False using fl filt [OF fl(1)] kv by simp
    qed
    ultimately show ?thesis using True by auto
  qed
qed


lemma InternalGet_first:
  assumes c: "comparator (opt_Compare options) ok" and t: "table_of P options ok (contents (tr_file t)) blks t"
    and f: "rok (tr_file t)" and len: "length (contents (tr_file t)) < 2 ^ 63" and cache: "cache_ok P (contents (tr_file t)) t block_cache"
    and k: "ok k"
  defines "below \<equiv> \<lambda>kv. opt_Compare options (fst kv) k < 0"
  shows "\<exists>arg'. InternalGet P R direct block_cache t ro k arg h = Some (OK, arg') \<and>
    (case dropWhile below (concat (map (snd \<circ> snd) blks)) of
       [] \<Rightarrow> arg' = arg
     | e # _ \<Rightarrow> arg' = h arg (fst e) (snd e) \<or> arg' = arg \<and> \<not> finds options ok k (fst e))"
proof -
  let ?K = "concat (map (snd \<circ> snd) blks)" and ?x = "index_entries blks"
  have lay: "table_layout P options ok (contents (tr_file t)) blks" using t by (simp add: table_of_def)
  define j where "j = length (takeWhile below ?x)"
  define kvs where "kvs = snd (snd (blks ! j))"
  define i where "i = length (takeWhile below kvs)"
  note tl = table_two_level [OF c t f len cache]
  have ents: "map (entries_of blks \<circ> snd) ?x = map (snd \<circ> snd) blks" by (rule table_entries_map [OF c lay f len])
  then have conc: "concat (map (entries_of blks \<circ> snd) ?x) = ?K" by simp
  have pos: "block_start (entries_of blks) ?x j + (if j < length blks then i else 0) = length (takeWhile below ?K)"
    using two_level.seek_position [OF tl k] entries_of_block [OF c lay f len, of "snd (blks ! j)"]
    by (simp add: conc j_def i_def kvs_def below_def index_entries_nth split: if_splits)
  note get = InternalGet_block [OF c t f len cache k, folded below_def, folded j_def, folded kvs_def, folded i_def, of direct ro arg h]
  show ?thesis
  proof (cases "j < length blks")
    case False
    then have "length (takeWhile below ?K) = length ?K" using pos block_start_all [where idx = ?x] by (simp add: conc)
    then have "dropWhile below ?K = []" by (simp add: dropWhile_eq_drop)
    then show ?thesis using get False by (simp del: dropWhile_eq_Nil_conv)
  next
    case True
    have en: "entries_of blks (snd (?x ! j)) = kvs"
      using entries_of_block [OF c lay f len, of "snd (blks ! j)"] True by (simp add: index_entries_nth kvs_def)
    let ?A = "concat (map (snd \<circ> snd) (take j blks))" and ?C = "concat (map (snd \<circ> snd) (drop (Suc j) blks))"
    have split: "?K = ?A @ kvs @ ?C" using concat_split [OF True, of snd] by (simp add: kvs_def)
    have "map (entries_of blks \<circ> snd) (take j ?x) = map (snd \<circ> snd) (take j blks)" using ents by (metis take_map)
    then have "length (takeWhile below ?K) = length ?A + i" using pos True by (simp add: block_start_def)
    moreover have "i \<le> length kvs" by (simp add: i_def length_takeWhile_le)
    ultimately have drop: "dropWhile below ?K = drop i kvs @ ?C" by (simp add: dropWhile_eq_drop split)
    obtain skip where sk: "InternalGet P R direct block_cache t ro k arg h =
        Some (OK, if skip \<or> length kvs \<le> i then arg else h arg (fst (kvs ! i)) (snd (kvs ! i)))"
        "skip \<longrightarrow> (\<forall>kv\<in>set kvs. \<not> finds options ok k (fst kv))" using get True by auto
    show ?thesis
    proof (cases "i < length kvs")
      case inside: True
      then have "dropWhile below ?K = kvs ! i # drop (Suc i) kvs @ ?C" by (simp add: drop Cons_nth_drop_Suc)
      then show ?thesis using sk inside by auto
    next
      case False
      have nf: "\<not> finds options ok k (fst (hd ?C))" if ne: "?C \<noteq> []"
      proof
        assume fd: "finds options ok k (fst (hd ?C))"
        have kvne: "kvs \<noteq> []" using layout_block [OF lay] True by (simp add: kvs_def)
        have lt: "takeWhile below kvs = kvs" using takeWhile_eq_take [of below kvs] False by (simp add: i_def)
        have "below (last kvs)" using lt kvne by (metis last_in_set set_takeWhileD)
        moreover have "ok (fst (last kvs))" using block_entries_ok(2) [OF lay, of "snd (blks ! j)"] True kvne by (simp add: kvs_def)
        ultimately have "opt_Compare options (opt_Separator options (fst (last kvs)) (fst (hd ?C))) k < 0"
          using fd by (simp add: finds_def below_def)
        moreover have "fst (blks ! j) = opt_Separator options (fst (last kvs)) (fst (hd ?C))"
          using lay ne True by (simp add: table_layout_def seps_made_def kvs_def)
        ultimately have "below (?x ! j)" using True by (simp add: index_entries_nth below_def)
        then show False using nth_length_takeWhile [of below ?x] True by (simp add: j_def)
      qed
      show ?thesis
      proof (cases ?C)
        case Nil
        show ?thesis using sk(1) False unfolding drop Nil by simp
      next
        case (Cons e es)
        have "\<not> finds options ok k (fst e)" using nf unfolding Cons by simp
        then show ?thesis using sk(1) False unfolding drop Cons by simp
      qed
    qed
  qed
qed

end

subsection \<open>Internal keys\<close>

context user_comparator
begin

lemma internal_separator_below:
  assumes ok: "internal_ok ok start" "internal_ok ok k" "internal_ok ok k'"
    and less: "InternalKeyComparator_Compare Compare start k < 0" and same: "ExtractUserKey k' = ExtractUserKey k"
  shows "InternalKeyComparator_Compare Compare (InternalKeyComparator_FindShortestSeparator Compare FindShortestSeparator start k') k < 0"
proof (cases rule: internal_separator_cases [of start k'])
  case same
  then show ?thesis using less by simp
next
  case (short tmp)
  let ?us = "ExtractUserKey start" and ?uk = "ExtractUserKey k"
  have "?us \<noteq> ?uk" using short(2,3) ok(2) same by (auto simp: separator_same)
  then have us: "Compare ?us ?uk < 0" using less ok by (simp add: internal_compare_less)
  have "ok tmp" "Compare tmp ?uk < 0" using short(2) ok same us separator_less by (simp_all add: separator_ok)
  then show ?thesis using short(1) ok by (simp add: internal_compare_less)
qed

end

text \<open>The options a database passes to its tables.\<close>

definition internal_options :: "Comparator \<Rightarrow> Options \<Rightarrow> bool" where
  "internal_options user options \<longleftrightarrow> opt_comparator options = InternalKeyComparator user \<and>
     (\<forall>policy. opt_filter_policy options = Some policy \<longrightarrow> (\<exists>p. policy = InternalFilterPolicy p))"

lemma finds_internal:
  assumes u: "user_comparator (cmp_Compare user) ok (cmp_FindShortestSeparator user) (cmp_FindShortSuccessor user)"
    and o: "internal_options user options" and k: "internal_ok ok k" "internal_ok ok k'" "ExtractUserKey k' = ExtractUserKey k"
  shows "finds options (internal_ok ok) k k'"
  using o k user_comparator.internal_separator_below [OF u]
  by (auto simp: finds_def internal_options_def InternalKeyComparator_def InternalFilterPolicy_def InternalFilterPolicy_KeyMayMatch_def)

subsection \<open>Tables of the in-memory environment\<close>

definition opened_index :: "Options \<Rightarrow> (slice \<Rightarrow> bool) \<Rightarrow> (slice \<times> table_block) list \<Rightarrow> (MemEnv \<times> nat option) Table \<Rightarrow> (slice \<times> slice) list" where
  "opened_index options ok blks t =
     (if comparator (opt_Compare options) ok \<and> table_of Port_none options ok (the (bytes_at (fst (tr_file t)) (snd (tr_file t)))) blks t \<and>
         good_ptr (fst (tr_file t)) (snd (tr_file t)) \<and> length (the (bytes_at (fst (tr_file t)) (snd (tr_file t)))) < 2 ^ 63
      then index_entries blks else [])"

interpretation mem_table: two_level BytewiseComparator_Compare "\<lambda>_. True" "BlockIterator BytewiseComparator_Compare"
  "opened_index Options_default (\<lambda>_. True) blks t" "blk_inv (opened_index Options_default (\<lambda>_. True) blks t)"
  "blk_at (opened_index Options_default (\<lambda>_. True) blks t)" "BlockIterator BytewiseComparator_Compare"
  "block_function Port_none RandomAccessFileImpl_class direct None t ro"
  "entries_of blks" "\<lambda>h. blk_inv (entries_of blks h)" "\<lambda>h. blk_at (entries_of blks h)" for blks t direct ro
proof -
  let ?idx = "opened_index Options_default (\<lambda>_. True) blks t"
  have c: "opt_Compare Options_default = BytewiseComparator_Compare" by (simp add: Options_default_def BytewiseComparator_def)
  have e: "sorted_iterator (BlockIterator BytewiseComparator_Compare) BytewiseComparator_Compare (\<lambda>_. True) [] (blk_inv []) (blk_at [])"
    by (rule bytewise.block_entries_iterator) simp_all
  show "two_level BytewiseComparator_Compare (\<lambda>_. True) (BlockIterator BytewiseComparator_Compare) ?idx (blk_inv ?idx) (blk_at ?idx)
    (BlockIterator BytewiseComparator_Compare) (block_function Port_none RandomAccessFileImpl_class direct None t ro)
    (entries_of blks) (\<lambda>h. blk_inv (entries_of blks h)) (\<lambda>h. blk_at (entries_of blks h))"
  proof (cases "?idx = []")
    case True
    show ?thesis unfolding True by (intro two_level.intro two_level_axioms.intro e bytewise.comparator_axioms) simp_all
  next
    case False
    then have t: "table_of Port_none Options_default (\<lambda>_. True) (the (bytes_at (fst (tr_file t)) (snd (tr_file t)))) blks t"
      "good_ptr (fst (tr_file t)) (snd (tr_file t))" "length (the (bytes_at (fst (tr_file t)) (snd (tr_file t)))) < 2 ^ 63"
      and i: "?idx = index_entries blks" by (auto simp: opened_index_def split: if_splits)
    show ?thesis unfolding i
      using mem_random.table_two_level [of Options_default "\<lambda>_. True" Port_none t blks None direct ro] t bytewise.comparator_axioms
      by (simp add: c case_prod_unfold)
  qed
qed

interpretation bytewise_table: table_options Port_none Options_default "\<lambda>_. True"
proof -
  have s: "shortening_comparator (opt_Compare Options_default) (\<lambda>_. True) (opt_Separator Options_default) (cmp_FindShortSuccessor (opt_comparator Options_default))"
    using bytewise.shortening_comparator_axioms by (simp add: Options_default_def BytewiseComparator_def)
  show "table_options Port_none Options_default (\<lambda>_. True)"
    by (intro table_options.intro builder_options.intro builder_options_axioms.intro s no_compression.compression_port_axioms)
      (simp_all add: Options_default_def compression_consts)
qed

text \<open>A database with Bloom filters.\<close>

definition bloom_db_options :: Options where
  "bloom_db_options = Options_default\<lparr>opt_comparator := InternalKeyComparator BytewiseComparator,
     opt_filter_policy := Some (InternalFilterPolicy (BloomFilterPolicy_class 10))\<rparr>"

interpretation db_table: table_options Port_none bloom_db_options "internal_ok (\<lambda>_. True)"
proof -
  have s: "shortening_comparator (opt_Compare bloom_db_options) (internal_ok (\<lambda>_. True)) (opt_Separator bloom_db_options)
      (cmp_FindShortSuccessor (opt_comparator bloom_db_options))"
    using bytewise_internal.internal.shortening_comparator_axioms
    by (simp add: bloom_db_options_def Options_default_def BytewiseComparator_def InternalKeyComparator_def)
  have b: "filter_policy (InternalFilterPolicy_CreateFilter (CreateFilter (NewBloomFilterPolicy 10))) (InternalFilterPolicy_KeyMayMatch KeyMayMatch)
      (\<lambda>keys. length keys < 2 ^ 31)"
  proof
    fix keys key assume "length (keys :: slice list) < 2 ^ 31" "key \<in> set keys"
    moreover have "bloom_ok (NewBloomFilterPolicy 10) (length keys)" using calculation(1)
      by (simp add: bloom_ok_def NewBloomFilterPolicy_def)
    ultimately show "InternalFilterPolicy_KeyMayMatch KeyMayMatch key (InternalFilterPolicy_CreateFilter (CreateFilter (NewBloomFilterPolicy 10)) keys [])"
      using internal_bloom.may_match_create by simp
  qed (rule internal_bloom.create_append)
  show "table_options Port_none bloom_db_options (internal_ok (\<lambda>_. True))"
    using b by (intro table_options.intro builder_options.intro builder_options_axioms.intro s no_compression.compression_port_axioms)
      (auto simp: bloom_db_options_def Options_default_def compression_consts InternalFilterPolicy_def BloomFilterPolicy_class_def)
qed

subsection \<open>Properties\<close>

context random_access_file
begin

lemma table_scan:
  assumes c: "comparator (opt_Compare options) ok" and t: "table_of P options ok (contents (tr_file t)) blks t"
    and f: "rok (tr_file t)" and len: "length (contents (tr_file t)) < 2 ^ 63" and cache: "cache_ok P (contents (tr_file t)) t block_cache"
  shows "scan (TableIterator_class P R direct block_cache t ro) (Table_NewIterator t) = Some (concat (map (snd \<circ> snd) blks))"
    "ok k \<Longrightarrow> \<exists>s. it_Seek (TableIterator_class P R direct block_cache t ro) (Table_NewIterator t) k = Some s \<and>
      scan_from (TableIterator_class P R direct block_cache t ro) s =
        Some (dropWhile (\<lambda>kv. opt_Compare options (fst kv) k < 0) (concat (map (snd \<circ> snd) blks)))"
proof -
  let ?x = "index_entries blks"
  note tl = table_two_level [OF c t f len cache, of direct ro]
  have o: "tr_options t = options" and lay: "table_layout P options ok (contents (tr_file t)) blks" using t by (simp_all add: table_of_def)
  obtain di where "tr_index_block t = Block_new di" "block_data di ?x" using t by (auto simp: table_of_def)
  then have inv: "tl_inv (BlockIterator (opt_Compare options)) (blk_inv ?x) ?x (BlockIterator (opt_Compare options))
      (\<lambda>h. blk_inv (entries_of blks h)) (Table_NewIterator t)"
    using two_level.NewTwoLevelIterator_inv [OF tl] block_data_inv by (simp add: Table_NewIterator_def o)
  note si = two_level.two_level_iterator [OF tl, unfolded table_entries_map [OF c lay f len]]
  show "scan (TableIterator_class P R direct block_cache t ro) (Table_NewIterator t) = Some (concat (map (snd \<circ> snd) blks))"
    using sorted_iterator.scan_all [OF si inv] by (simp add: TableIterator_class_def o)
  assume "ok k"
  then show "\<exists>s. it_Seek (TableIterator_class P R direct block_cache t ro) (Table_NewIterator t) k = Some s \<and>
      scan_from (TableIterator_class P R direct block_cache t ro) s =
        Some (dropWhile (\<lambda>kv. opt_Compare options (fst kv) k < 0) (concat (map (snd \<circ> snd) blks)))"
    using sorted_iterator.seek_scan [OF si inv] by (simp add: TableIterator_class_def o)
qed

end

lemma table_image_written:
  assumes "table_options P options ok" "writable_file W wcontents wok"
    and "sorted_wrt (\<lambda>a b. opt_Compare options (fst a) (fst b) < 0) kvs" "\<forall>kv\<in>set kvs. ok (fst kv)"
    and "length kvs < 2 ^ 31" "length (table_image P options kvs) < 2 ^ 32" "table_fits P options kvs"
    and "wok f" "wcontents f = []"
  shows "\<exists>r. build_table P W options f kvs = Some (OK, r) \<and> wok (tb_file r) \<and> wcontents (tb_file r) = table_image P options kvs \<and>
    unat (TableBuilder_FileSize r) = length (table_image P options kvs)"
proof -
  obtain r blks where r: "build_table P string_file options [] kvs = Some (OK, r)" "tb_file r = table_image P options kvs"
      "unat (tb_offset r) = length (table_image P options kvs)"
    using table_options.table_image_layout [OF assms(1,3-7)] by blast
  obtain f' where "build_table P W options f kvs = Some (OK, with_file r f')" "wok f'" "wcontents f' = tb_file r"
    using writable_file.build_table_sim [OF assms(2,8,9) r(1)] r(2) assms(6) by auto
  then show ?thesis using r(2,3) by (auto simp: TableBuilder_FileSize_def with_file_def)
qed

lemma table_image_opens:
  assumes "table_options P options ok" "random_access_file R contents rok"
    and "sorted_wrt (\<lambda>a b. opt_Compare options (fst a) (fst b) < 0) kvs" "\<forall>kv\<in>set kvs. ok (fst kv)"
    and "length kvs < 2 ^ 31" "length (table_image P options kvs) < 2 ^ 32" "table_fits P options kvs"
    and "rok g" "contents g = table_image P options kvs" "unat sz = length (table_image P options kvs)"
  obtains t blks where "Table_Open P R direct options g sz cache_id = Some (OK, Some t)" "tr_file t = g"
    "comparator (opt_Compare options) ok" "table_of P options ok (contents (tr_file t)) blks t" "concat (map (snd \<circ> snd) blks) = kvs"
    "rok (tr_file t)" "length (contents (tr_file t)) < 2 ^ 63"
proof -
  obtain blks where b: "table_layout P options ok (table_image P options kvs) blks" "concat (map (snd \<circ> snd) blks) = kvs"
    using table_options.table_image_layout [OF assms(1,3-7)] by blast
  have c: "comparator (opt_Compare options) ok" using assms(1) by (simp add: table_options_def builder_options_def shortening_comparator_def)
  obtain t where "Table_Open P R direct options g sz cache_id = Some (OK, Some t)" "tr_file t = g" "table_of P options ok (contents g) blks t"
    using random_access_file.Open_layout [OF assms(2,8), of P options ok blks sz direct cache_id] b(1) assms(6,9,10) by auto
  then show ?thesis using that c b(2) assms(6,8,9) by auto
qed

text \<open>
  C3: A table is read back as it was written. Let the builder be given sorted entries, and write to any
  writable file and with any compression that meets its contract; every block it makes is below \<open>2 ^ 32\<close> bytes
  before compression, and so is the file. It succeeds, and \<open>Open\<close> on any random-access file with the bytes
  written opens the table: with any block cache that returns what was inserted, a scan
  yields the entries and a seek the first entry not below the target with those after it.
\<close>

theorem table_roundtrip:
  assumes "table_options P options ok" "writable_file W wcontents wok" "random_access_file R rcontents rok"
    and "sorted_wrt (\<lambda>a b. opt_Compare options (fst a) (fst b) < 0) kvs" "\<forall>kv\<in>set kvs. ok (fst kv)"
    and "length kvs < 2 ^ 31" "length (table_image P options kvs) < 2 ^ 32" "table_fits P options kvs"
    and "wok f" "wcontents f = []"
  shows "\<exists>r. build_table P W options f kvs = Some (OK, r) \<and> wok (tb_file r) \<and>
    (\<forall>g. rok g \<longrightarrow> rcontents g = wcontents (tb_file r) \<longrightarrow>
      (\<exists>t. Table_Open P R direct options g (TableBuilder_FileSize r) cache_id = Some (OK, Some t) \<and>
        (\<forall>block_cache. cache_ok P (rcontents g) t block_cache \<longrightarrow>
          scan (TableIterator_class P R direct block_cache t ro) (Table_NewIterator t) = Some kvs \<and>
          (\<forall>k. ok k \<longrightarrow> (\<exists>s. it_Seek (TableIterator_class P R direct block_cache t ro) (Table_NewIterator t) k = Some s \<and>
             scan_from (TableIterator_class P R direct block_cache t ro) s = Some (dropWhile (\<lambda>kv. opt_Compare options (fst kv) k < 0) kvs))))))"
proof -
  obtain r where r: "build_table P W options f kvs = Some (OK, r)" "wok (tb_file r)" "wcontents (tb_file r) = table_image P options kvs"
      "unat (TableBuilder_FileSize r) = length (table_image P options kvs)"
    using table_image_written [OF assms(1,2,4-10)] by blast
  show ?thesis
  proof (rule exI [of _ r], intro conjI allI impI r(1,2))
    fix g assume g: "rok g" "rcontents g = wcontents (tb_file r)"
    obtain t blks where t: "Table_Open P R direct options g (TableBuilder_FileSize r) cache_id = Some (OK, Some t)" "tr_file t = g"
        "comparator (opt_Compare options) ok" "table_of P options ok (rcontents (tr_file t)) blks t" "concat (map (snd \<circ> snd) blks) = kvs"
        "rok (tr_file t)" "length (rcontents (tr_file t)) < 2 ^ 63"
      using table_image_opens [OF assms(1,3-8) g(1) g(2) [unfolded r(3)] r(4)] .
    show "\<exists>t. Table_Open P R direct options g (TableBuilder_FileSize r) cache_id = Some (OK, Some t) \<and>
        (\<forall>block_cache. cache_ok P (rcontents g) t block_cache \<longrightarrow>
          scan (TableIterator_class P R direct block_cache t ro) (Table_NewIterator t) = Some kvs \<and>
          (\<forall>k. ok k \<longrightarrow> (\<exists>s. it_Seek (TableIterator_class P R direct block_cache t ro) (Table_NewIterator t) k = Some s \<and>
             scan_from (TableIterator_class P R direct block_cache t ro) s = Some (dropWhile (\<lambda>kv. opt_Compare options (fst kv) k < 0) kvs))))"
      using t(1,2) random_access_file.table_scan [OF assms(3) t(3,4,6,7)] by (intro exI [of _ t]) (auto simp: t(5))
  qed
qed

text \<open>
  C2: A point lookup in a table of a database. The table holds sorted internal keys, with any filter policy
  the database wraps, and its file and its blocks before compression are below \<open>2 ^ 32\<close> bytes. \<open>InternalGet\<close>
  looks for the first entry at or after the key it is given. The callback is run on that entry when it has
  the key's user key; otherwise it is run on it or, when the filter or the index rules the key out, not at
  all.
\<close>

theorem table_get:
  assumes "user_comparator (cmp_Compare user) ok (cmp_FindShortestSeparator user) (cmp_FindShortSuccessor user)"
    and "internal_options user options" "table_options P options (internal_ok ok)" "random_access_file R contents rok"
    and "sorted_wrt (\<lambda>a b. opt_Compare options (fst a) (fst b) < 0) kvs" "\<forall>kv\<in>set kvs. internal_ok ok (fst kv)"
    and "length kvs < 2 ^ 31" "length (table_image P options kvs) < 2 ^ 32" "table_fits P options kvs"
    and "rok g" "contents g = table_image P options kvs" "unat sz = length (table_image P options kvs)"
    and "internal_ok ok k"
  shows "\<exists>t. Table_Open P R direct options g sz cache_id = Some (OK, Some t) \<and>
    (\<forall>block_cache. cache_ok P (contents g) t block_cache \<longrightarrow>
      (\<exists>arg'. InternalGet P R direct block_cache t ro k arg handle_result = Some (OK, arg') \<and>
        (case dropWhile (\<lambda>kv. opt_Compare options (fst kv) k < 0) kvs of
           [] \<Rightarrow> arg' = arg
         | (k', v) # _ \<Rightarrow> arg' = handle_result arg k' v \<or> arg' = arg \<and> ExtractUserKey k' \<noteq> ExtractUserKey k)))"
proof -
  obtain t blks where t: "Table_Open P R direct options g sz cache_id = Some (OK, Some t)" "tr_file t = g"
      "comparator (opt_Compare options) (internal_ok ok)" "table_of P options (internal_ok ok) (contents (tr_file t)) blks t"
      "concat (map (snd \<circ> snd) blks) = kvs" "rok (tr_file t)" "length (contents (tr_file t)) < 2 ^ 63"
    using table_image_opens [OF assms(3-12)] .
  have "\<exists>arg'. InternalGet P R direct block_cache t ro k arg handle_result = Some (OK, arg') \<and>
      (case dropWhile (\<lambda>kv. opt_Compare options (fst kv) k < 0) kvs of
         [] \<Rightarrow> arg' = arg
       | (k', v) # _ \<Rightarrow> arg' = handle_result arg k' v \<or> arg' = arg \<and> ExtractUserKey k' \<noteq> ExtractUserKey k)"
    if cache: "cache_ok P (contents g) t block_cache" for block_cache
  proof (cases "dropWhile (\<lambda>kv. opt_Compare options (fst kv) k < 0) kvs")
    case Nil
    then show ?thesis
      using random_access_file.InternalGet_first [OF assms(4) t(3,4,6,7) _ assms(13), of block_cache direct ro arg handle_result] cache t(2,5)
      by (simp del: dropWhile_eq_Nil_conv)
  next
    case (Cons e es)
    then have "internal_ok ok (fst e)" using assms(6) by (metis list.set_intros(1) set_dropWhileD)
    then have "ExtractUserKey (fst e) = ExtractUserKey k \<Longrightarrow> finds options (internal_ok ok) k (fst e)"
      using finds_internal [OF assms(1,2,13)] by blast
    then show ?thesis
      using random_access_file.InternalGet_first [OF assms(4) t(3,4,6,7) _ assms(13), of block_cache direct ro arg handle_result] cache t(2,5) Cons
      by (cases e) auto
  qed
  then show ?thesis using t(1) by blast
qed


text \<open>A table with one short entry.\<close>

lemma string_file_simps: "wf_Flush string_file f = Some (OK, f)" "wf_Append string_file f d = Some (OK, f @ d)"
  by (simp_all add: string_file_def)

lemma Finish_length: "length (fst (BlockBuilder_Finish b)) = length (bb_buffer b) + 4 * length (bb_restarts b) + 4"
proof -
  have "length (foldl PutFixed32 c rs) = length c + 4 * length rs" for c rs
    by (induction rs arbitrary: c) (simp_all add: PutFixed32_def)
  then show ?thesis by (simp add: BlockBuilder_Finish_def Let_def PutFixed32_def)
qed

lemma Add_length:
  "length (bb_buffer (BlockBuilder_Add b k v)) \<le> length (bb_buffer b) + 15 + length k + length v"
  "length (bb_restarts (BlockBuilder_Add b k v)) \<le> Suc (length (bb_restarts b))"
  "bb_buffer (BlockBuilder_Add b k v) \<noteq> []"
proof -
  have 5: "length (EncodeVarint32 x) + length (EncodeVarint32 y) + length (EncodeVarint32 z) \<le> 15" for x y z
    using length_EncodeVarint32_5 [of x] length_EncodeVarint32_5 [of y] length_EncodeVarint32_5 [of z] by linarith
  define sh where "sh = (if bb_counter b < bb_block_restart_interval b then shared_loop (bb_last_key b) k else 0)"
  show "length (bb_buffer (BlockBuilder_Add b k v)) \<le> length (bb_buffer b) + 15 + length k + length v"
    using 5 [of "of_nat sh" "of_nat (length k - sh)" "of_nat (length v)"]
    by (simp add: BlockBuilder_Add_def Let_def PutVarint32_def flip: sh_def)
  show "length (bb_restarts (BlockBuilder_Add b k v)) \<le> Suc (length (bb_restarts b))"
    "bb_buffer (BlockBuilder_Add b k v) \<noteq> []"
    by (simp_all add: BlockBuilder_Add_def Let_def PutVarint32_def)
qed

lemma block_of_length:
  assumes "opt_compression (tb_options r) = kSnappyCompression"
  shows "length (fst (block_of P r b)) \<le> length (fst (BlockBuilder_Finish b))"
  using assms by (auto simp: block_of_def compress_block_def Let_def compression_consts split: option.split)

lemma one_entry_table:
  fixes c :: Comparator
  defines "opts \<equiv> Options_default\<lparr>opt_comparator := c\<rparr>"
  assumes len: "length k \<le> 100" "length v \<le> 100" "length (cmp_FindShortSuccessor c k) \<le> 100"
  shows "length (table_image P opts [(k, v)]) < 2 ^ 32" "table_fits P opts [(k, v)]"
proof -
  have o: "opt_compression opts = kSnappyCompression" "opt_filter_policy opts = None" "opt_block_restart_interval opts = 16"
    "opt_block_size opts = 4096" "opt_comparator opts = c" by (simp_all add: opts_def Options_default_def)
  define r0 :: "bytes TableBuilder" where "r0 = TableBuilder_new opts []"
  define b where "b = BlockBuilder_Add (BlockBuilder_new 16) k v"
  define r1 where "r1 = added r0 k v"
  define r2 where "r2 = (flushed P r1)\<lparr>tb_closed := True\<rparr>"
  define r3 where "r3 = wrote_block P r2 (BlockBuilder_new 16)"
  define r4 where "r4 = last_index_entry r3"
  define r5 where "r5 = wrote_block P r4 (tb_index_block r4)"
  have f0: "tb_options r0 = opts" "tb_status r0 = OK" "tb_data_block r0 = BlockBuilder_new 16" "tb_file r0 = []" "tb_filter_block r0 = None"
    "tb_index_block r0 = BlockBuilder_new 1" "\<not> tb_pending_index_entry r0"
    by (simp_all add: r0_def TableBuilder_new_def o)
  have f1: "tb_options r1 = opts" "tb_status r1 = OK" "tb_data_block r1 = b" "tb_file r1 = []" "tb_filter_block r1 = None"
    "tb_index_block r1 = BlockBuilder_new 1" "tb_last_key r1 = k"
    by (simp_all add: r1_def added_def f0 b_def Let_def)
  have bl: "length (bb_buffer b) \<le> 215" "length (bb_restarts b) \<le> 2" "\<not> BlockBuilder_empty b"
    using Add_length [of "BlockBuilder_new 16" k v] len by (simp_all add: b_def BlockBuilder_new_def BlockBuilder_empty_def)
  have fb: "length (fst (BlockBuilder_Finish b)) \<le> 227" using bl by (simp add: Finish_length)
  have add: "TableBuilder_Add P string_file r0 k v = Some r1"
    using bl by (simp add: Add_string [OF f0(2)] r1_def [symmetric] f0 f1 o Let_def CurrentSizeEstimate_def)
  have f2: "tb_options r2 = opts" "tb_status r2 = OK" "tb_file r2 = fst (block_of P r1 b) @ block_trailer (fst (block_of P r1 b)) (snd (block_of P r1 b))"
    "tb_filter_block r2 = None" "tb_index_block r2 = BlockBuilder_new 1" "tb_last_key r2 = k" "tb_pending_index_entry r2"
    by (simp_all add: r2_def flushed_def Let_def f1 wrote_block_def)
  have fl: "TableBuilder_Flush P string_file r1 = Some (flushed P r1)" by (simp add: Flush_string [OF f1(2)] f1 bl)
  have ff: "Finish_filter string_file ((flushed P r1)\<lparr>tb_closed := True\<rparr>) = Some (BlockHandle_new, r2)"
    using f2(4) by (simp add: Finish_filter_def flip: r2_def)
  have mb: "metaindex_block r2 BlockHandle_new = Some (BlockBuilder_new 16)" using f2 o by (simp add: metaindex_block_def)
  have fm: "Finish_metaindex P string_file r2 BlockHandle_new = Some (next_handle r2 (fst (block_of P r2 (BlockBuilder_new 16))), r3)"
    using f2 mb by (simp add: Finish_metaindex_def WriteBlock_string r3_def)
  have f3: "tb_options r3 = opts" "tb_status r3 = OK" "tb_filter_block r3 = None" "tb_index_block r3 = BlockBuilder_new 1" "tb_last_key r3 = k"
    "tb_pending_index_entry r3" "length (tb_file r3) \<le> length (tb_file r2) + 17"
  proof -
    show "length (tb_file r3) \<le> length (tb_file r2) + 17"
      using block_of_length [of r2 P "BlockBuilder_new 16"] by (simp add: r3_def wrote_block_def f2 o Finish_length) (simp add: BlockBuilder_new_def)
  qed (simp_all add: r3_def f2)
  have ib: "length (bb_buffer (tb_index_block r4)) \<le> 135" "length (bb_restarts (tb_index_block r4)) \<le> 2"
    using Add_length [of "BlockBuilder_new 1" "cmp_FindShortSuccessor c k" "BlockHandle_EncodeTo (tb_pending_handle r3) []"] len
      length_BlockHandle_EncodeTo [of "tb_pending_handle r3"]
    by (simp_all add: r4_def last_index_entry_def f3 o add_index_entry_def) (simp_all add: BlockBuilder_new_def)
  have fi: "length (fst (BlockBuilder_Finish (tb_index_block r4))) \<le> 147" using ib by (simp add: Finish_length)
  have f4: "tb_options r4 = opts" "tb_status r4 = OK" "tb_file r4 = tb_file r3"
    by (simp_all add: r4_def last_index_entry_def add_index_entry_def f3)
  have fx: "Finish_index P string_file r3 = Some (next_handle r4 (fst (block_of P r4 (tb_index_block r4))),
      r5\<lparr>tb_index_block := BlockBuilder_Reset (snd (BlockBuilder_Finish (tb_index_block r4)))\<rparr>)"
    using f3 by (simp add: Finish_index_def Let_def WriteBlock_string r5_def flip: r4_def)
  have "length (tb_file r5) \<le> length (tb_file r3) + 152"
    using block_of_length [of r4 P "tb_index_block r4"] fi by (simp add: r5_def wrote_block_def f4 o)
  moreover have "length (tb_file r2) \<le> 232" using block_of_length [of r1 P b] fb by (simp add: f2 f1 o)
  ultimately have "length (tb_file r5) \<le> 401" using f3(7) by linarith
  moreover have "tb_status r5 = OK" by (simp add: r5_def)
  ultimately have "\<exists>r. build_table P string_file opts [] [(k, v)] = Some (OK, r) \<and> length (tb_file r) \<le> 449"
    using add fl ff fm fx by (simp add: build_table_def TableBuilder_Finish_def flip: r0_def)
      (simp add: Finish_footer_def Let_def string_file_simps length_Footer_EncodeTo)
  then show "length (table_image P opts [(k, v)]) < 2 ^ 32" by (auto simp: table_image_def)
  have "block_fits b" "block_fits (BlockBuilder_new 16)" "block_fits (tb_index_block r4)"
    using fb fi by (simp_all add: block_fits_def) (simp add: Finish_length BlockBuilder_new_def)
  moreover have "Finish_fits P r1 \<longleftrightarrow> block_fits b \<and> block_fits (BlockBuilder_new 16) \<and> block_fits (tb_index_block r4)"
    using fl ff mb fm f1 by (simp add: Finish_fits_def r4_def)
  ultimately show "table_fits P opts [(k, v)]"
    using add f0 by (simp add: table_fits_def b_def flip: r0_def)
qed

theorem table_roundtrip_witness:
  "\<exists>f r g t. build_table Port_rle (WritableFileImpl_class (\<lambda>i j. 0)) Options_default f [([97, 1], [0, 0, 0, 0, 0, 0, 0, 0, 0, 0, 0, 0, 0, 0, 0, 0, 0, 0, 0, 0, 0, 0, 0, 0])] = Some (OK, r) \<and>
     Table_Open Port_rle RandomAccessFileImpl_class False Options_default g (TableBuilder_FileSize r) 7 = Some (OK, Some t) \<and>
     scan (TableIterator_class Port_rle RandomAccessFileImpl_class False None t ReadOptions_default) (Table_NewIterator t) =
       Some [([97, 1], [0, 0, 0, 0, 0, 0, 0, 0, 0, 0, 0, 0, 0, 0, 0, 0, 0, 0, 0, 0, 0, 0, 0, 0])] \<and>
     snd (compress_block Port_rle Options_default (build_block 16 [([97, 1], [0, 0, 0, 0, 0, 0, 0, 0, 0, 0, 0, 0, 0, 0, 0, 0, 0, 0, 0, 0, 0, 0, 0, 0])])) = kSnappyCompression"
proof -
  let ?kvs = "[([97, 1], [0, 0, 0, 0, 0, 0, 0, 0, 0, 0, 0, 0, 0, 0, 0, 0, 0, 0, 0, 0, 0, 0, 0, 0])] :: (slice \<times> slice) list" and ?f = "(empty_file_env, Some 0 :: nat option)"
  have o: "Options_default\<lparr>opt_comparator := BytewiseComparator\<rparr> = Options_default" by (simp add: Options_default_def)
  have small: "length (table_image Port_rle Options_default ?kvs) < 2 ^ 32" "table_fits Port_rle Options_default ?kvs"
    using one_entry_table [of "[97, 1]" "[0, 0, 0, 0, 0, 0, 0, 0, 0, 0, 0, 0, 0, 0, 0, 0, 0, 0, 0, 0, 0, 0, 0, 0]" BytewiseComparator Port_rle] unfolding o by (simp_all add: BytewiseComparator_def)
  have to: "table_options Port_rle Options_default (\<lambda>_. True)"
    using rle.compression_port_axioms bytewise_table.builder_options_axioms by (rule table_options.intro)
  have f: "case ?f of (e, p) \<Rightarrow> good_ptr e p" "(case ?f of (e, p) \<Rightarrow> the (bytes_at e p)) = []" using empty_file_env by simp_all
  have kvs: "sorted_wrt (\<lambda>a b. opt_Compare Options_default (fst a) (fst b) < 0) ?kvs" "\<forall>kv\<in>set ?kvs. True" "length ?kvs < 2 ^ 31" by simp_all
  have c: "snd (compress_block Port_rle Options_default (build_block 16 ?kvs)) = kSnappyCompression"
  proof -
    have raw: "build_block 16 ?kvs = [0, 2, 24, 97, 1] @ [0, 0, 0, 0, 0, 0, 0, 0, 0, 0, 0, 0, 0, 0, 0, 0, 0, 0, 0, 0, 0, 0, 0, 0] @ [0, 0, 0, 0] @ [1, 0, 0, 0]"
      by (simp add: build_block_def BlockBuilder_Finish_def BlockBuilder_new_def BlockBuilder_Add_def PutVarint32_def
          PutFixed32_def EncodeVarint32_def EncodeFixed32_def Let_def)
    show ?thesis unfolding raw
      by (simp add: compress_block_def Port_rle_def rle_compress_def Options_default_def compression_consts)
  qed
  show ?thesis
    using table_roundtrip [OF to mem_writable.writable_file_axioms mem_random.random_access_file_axioms
        kvs small f, of "\<lambda>i j. 0" False 7 ReadOptions_default]
  proof (elim exE conjE)
    fix r
    assume b: "build_table Port_rle (WritableFileImpl_class (\<lambda>i j. 0)) Options_default ?f ?kvs = Some (OK, r)"
      and ok: "case tb_file r of (e, p) \<Rightarrow> good_ptr e p"
    assume "\<forall>g. (case g of (e, p) \<Rightarrow> good_ptr e p) \<longrightarrow>
        (case g of (e, p) \<Rightarrow> the (bytes_at e p)) = (case tb_file r of (e, p) \<Rightarrow> the (bytes_at e p)) \<longrightarrow>
        (\<exists>t. Table_Open Port_rle RandomAccessFileImpl_class False Options_default g (TableBuilder_FileSize r) 7 = Some (OK, Some t) \<and>
          (\<forall>c. cache_ok Port_rle (case g of (e, p) \<Rightarrow> the (bytes_at e p)) t c \<longrightarrow>
            scan (TableIterator_class Port_rle RandomAccessFileImpl_class False c t ReadOptions_default) (Table_NewIterator t) = Some ?kvs \<and>
            (\<forall>k. True \<longrightarrow> (\<exists>s. it_Seek (TableIterator_class Port_rle RandomAccessFileImpl_class False c t ReadOptions_default)
                (Table_NewIterator t) k = Some s \<and>
              scan_from (TableIterator_class Port_rle RandomAccessFileImpl_class False c t ReadOptions_default) s =
                Some (dropWhile (\<lambda>kv. opt_Compare Options_default (fst kv) k < 0) ?kvs)))))"
    from spec [OF this, of "tb_file r"] ok b c show ?thesis by (metis cache_ok_None)
  qed
qed

theorem table_get_witness:
  "\<exists>g t. Table_Open Port_rle RandomAccessFileImpl_class False (Options_default\<lparr>opt_comparator := InternalKeyComparator BytewiseComparator\<rparr>) g
       (of_nat (length (table_image Port_rle (Options_default\<lparr>opt_comparator := InternalKeyComparator BytewiseComparator\<rparr>)
         [([97, 1, 0, 0, 0, 0, 0, 0, 0], replicate 40 2)]))) 7 = Some (OK, Some t) \<and>
     InternalGet Port_rle RandomAccessFileImpl_class False None t ReadOptions_default [97, 1, 1, 0, 0, 0, 0, 0, 0] [] (\<lambda>_ k v. [(k, v)]) =
       Some (OK, [([97, 1, 0, 0, 0, 0, 0, 0, 0], replicate 40 2)])"
proof -
  let ?o = "Options_default\<lparr>opt_comparator := InternalKeyComparator BytewiseComparator\<rparr>"
  let ?kvs = "[([97, 1, 0, 0, 0, 0, 0, 0, 0], replicate 40 2)] :: (slice \<times> slice) list" and ?k = "[97, 1, 1, 0, 0, 0, 0, 0, 0] :: slice"
  have "length (cmp_FindShortSuccessor (InternalKeyComparator BytewiseComparator) [97, 1, 0, 0, 0, 0, 0, 0, 0]) \<le> 100"
    by (simp add: BytewiseComparator_def InternalKeyComparator_def InternalKeyComparator_FindShortSuccessor_def ExtractUserKey_def Let_def)
  then have small: "length (table_image Port_rle ?o ?kvs) < 2 ^ 32" "table_fits Port_rle ?o ?kvs"
    using one_entry_table [of "[97, 1, 0, 0, 0, 0, 0, 0, 0]" "replicate 40 2" "InternalKeyComparator BytewiseComparator" Port_rle] by simp_all
  obtain e p where g: "good_ptr e p" "the (bytes_at e p) = table_image Port_rle ?o ?kvs"
    using small(1) by (elim mem_random_file_with [of "table_image Port_rle ?o ?kvs", rotated]) simp
  have u: "user_comparator (cmp_Compare BytewiseComparator) (\<lambda>_. True) (cmp_FindShortestSeparator BytewiseComparator)
      (cmp_FindShortSuccessor BytewiseComparator)"
    using bytewise_internal.user_comparator_axioms by (simp add: BytewiseComparator_def)
  have "builder_options ?o (internal_ok (\<lambda>_. True))"
    using db_table.builder_options_axioms
    by (simp add: builder_options_def builder_options_axioms_def bloom_db_options_def Options_default_def)
  with rle.compression_port_axioms have to: "table_options Port_rle ?o (internal_ok (\<lambda>_. True))" by (rule table_options.intro)
  have d: "dropWhile (\<lambda>kv. opt_Compare ?o (fst kv) ?k < 0) ?kvs = ?kvs"
  proof -
    have "\<not> InternalKeyComparator_Compare BytewiseComparator_Compare [97, 1, 0, 0, 0, 0, 0, 0, 0] ?k < 0" by code_simp
    then show ?thesis by (simp add: InternalKeyComparator_def BytewiseComparator_def)
  qed
  have io: "internal_options BytewiseComparator ?o" by (simp add: internal_options_def Options_default_def)
  have sz: "unat (of_nat (length (table_image Port_rle ?o ?kvs)) :: u64) = length (table_image Port_rle ?o ?kvs)"
    using small(1) by (simp add: unat_of_nat)
  have kvs: "sorted_wrt (\<lambda>a b. opt_Compare ?o (fst a) (fst b) < 0) ?kvs" "\<forall>kv\<in>set ?kvs. internal_ok (\<lambda>_. True) (fst kv)"
    "length ?kvs < 2 ^ 31" "internal_ok (\<lambda>_. True) ?k" by simp_all
  have g': "case (e, p) of (e, p) \<Rightarrow> good_ptr e p" "(case (e, p) of (e, p) \<Rightarrow> the (bytes_at e p)) = table_image Port_rle ?o ?kvs"
    using g by simp_all
  obtain t where t: "Table_Open Port_rle RandomAccessFileImpl_class False ?o (e, p) (of_nat (length (table_image Port_rle ?o ?kvs))) 7 = Some (OK, Some t)"
    "\<exists>arg. InternalGet Port_rle RandomAccessFileImpl_class False None t ReadOptions_default ?k [] (\<lambda>_ k v. [(k, v)]) = Some (OK, arg) \<and>
      (case ?kvs of [] \<Rightarrow> arg = [] | (k', v) # _ \<Rightarrow> arg = [(k', v)] \<or> arg = [] \<and> ExtractUserKey k' \<noteq> ExtractUserKey ?k)"
    using table_get [OF u io to mem_random.random_access_file_axioms kvs(1-3) small g' sz kvs(4), of False 7 ReadOptions_default "[]" "\<lambda>_ k v. [(k, v)]",
        unfolded d] cache_ok_None by blast
  have "ExtractUserKey [97, 1, 0, 0, 0, 0, 0, 0, 0] = ExtractUserKey ?k" by (simp add: ExtractUserKey_def)
  then show ?thesis using t by (intro exI [of _ "(e, p)"] exI [of _ t]) auto
qed

end
