(* ===== verification/Merger.thy ===== *)
theory Merger
  imports Table
begin

text \<open>
  The merging iterator (\<open>table/merger.cc\<close>). The children are of one class \<open>I\<close>, a sum where the code has
  different ones; \<open>current_\<close> is an index into them. The locale \<open>merging\<close> states what the children promise: each
  shows a sorted list, and no two of them show a key both. Then the iterator shows the merged list, in both
  directions and through every change of direction.
\<close>

subsection \<open>The iterator\<close>

datatype Direction = kForward | kReverse

record 's MergingIterator =
  mi_children :: "'s IteratorWrapper list"
  mi_current :: "nat option"
  mi_direction :: Direction

definition MergingIterator_new :: "'s Iterator \<Rightarrow> 's list \<Rightarrow> 's MergingIterator" where
  "MergingIterator_new I children =
     \<lparr>mi_children = map (\<lambda>c. Wrapper_Set I Wrapper_empty (Some c)) children, mi_current = None, mi_direction = kForward\<rparr>"

text \<open>The loops over the children.\<close>

fun each_child :: "(nat \<Rightarrow> 'w \<Rightarrow> 'w option) \<Rightarrow> nat \<Rightarrow> 'w list \<Rightarrow> 'w list option" where
  "each_child f i [] = Some []"
| "each_child f i (c # cs) = do { c \<leftarrow> f i c; cs \<leftarrow> each_child f (i + 1) cs; Some (c # cs) }"

fun FindSmallest_loop :: "(slice \<Rightarrow> slice \<Rightarrow> int) \<Rightarrow> 's IteratorWrapper list \<Rightarrow> nat list \<Rightarrow> nat option \<Rightarrow> nat option" where
  "FindSmallest_loop cmp children [] smallest = smallest"
| "FindSmallest_loop cmp children (i # is) smallest =
     FindSmallest_loop cmp children is
       (if w_valid (children ! i) then
          (case smallest of
             None \<Rightarrow> Some i
           | Some j \<Rightarrow> if cmp (w_key (children ! i)) (w_key (children ! j)) < 0 then Some i else smallest)
        else smallest)"

definition FindSmallest :: "(slice \<Rightarrow> slice \<Rightarrow> int) \<Rightarrow> 's MergingIterator \<Rightarrow> 's MergingIterator" where
  "FindSmallest cmp m =
     m\<lparr>mi_current := FindSmallest_loop cmp (mi_children m) [0..<length (mi_children m)] None\<rparr>"

fun FindLargest_loop :: "(slice \<Rightarrow> slice \<Rightarrow> int) \<Rightarrow> 's IteratorWrapper list \<Rightarrow> nat list \<Rightarrow> nat option \<Rightarrow> nat option" where
  "FindLargest_loop cmp children [] largest = largest"
| "FindLargest_loop cmp children (i # is) largest =
     FindLargest_loop cmp children is
       (if w_valid (children ! i) then
          (case largest of
             None \<Rightarrow> Some i
           | Some j \<Rightarrow> if cmp (w_key (children ! i)) (w_key (children ! j)) > 0 then Some i else largest)
        else largest)"

definition FindLargest :: "(slice \<Rightarrow> slice \<Rightarrow> int) \<Rightarrow> 's MergingIterator \<Rightarrow> 's MergingIterator" where
  "FindLargest cmp m =
     m\<lparr>mi_current := FindLargest_loop cmp (mi_children m) (rev [0..<length (mi_children m)]) None\<rparr>"

definition Merging_SeekToFirst :: "'s Iterator \<Rightarrow> (slice \<Rightarrow> slice \<Rightarrow> int) \<Rightarrow> 's MergingIterator \<Rightarrow> 's MergingIterator option" where
  "Merging_SeekToFirst I cmp m = do {
     cs \<leftarrow> each_child (\<lambda>i. it_SeekToFirst (WrapperIterator I)) 0 (mi_children m);
     Some ((FindSmallest cmp (m\<lparr>mi_children := cs\<rparr>))\<lparr>mi_direction := kForward\<rparr>)
   }"

definition Merging_SeekToLast :: "'s Iterator \<Rightarrow> (slice \<Rightarrow> slice \<Rightarrow> int) \<Rightarrow> 's MergingIterator \<Rightarrow> 's MergingIterator option" where
  "Merging_SeekToLast I cmp m = do {
     cs \<leftarrow> each_child (\<lambda>i. it_SeekToLast (WrapperIterator I)) 0 (mi_children m);
     Some ((FindLargest cmp (m\<lparr>mi_children := cs\<rparr>))\<lparr>mi_direction := kReverse\<rparr>)
   }"

definition Merging_Seek :: "'s Iterator \<Rightarrow> (slice \<Rightarrow> slice \<Rightarrow> int) \<Rightarrow> 's MergingIterator \<Rightarrow> slice \<Rightarrow> 's MergingIterator option" where
  "Merging_Seek I cmp m target = do {
     cs \<leftarrow> each_child (\<lambda>i c. it_Seek (WrapperIterator I) c target) 0 (mi_children m);
     Some ((FindSmallest cmp (m\<lparr>mi_children := cs\<rparr>))\<lparr>mi_direction := kForward\<rparr>)
   }"

text \<open>What \<open>Next\<close> and \<open>Prev\<close> do to the other children when the direction changes, \<open>k\<close> being \<open>key()\<close>.\<close>

definition child_after :: "'s Iterator \<Rightarrow> (slice \<Rightarrow> slice \<Rightarrow> int) \<Rightarrow> slice \<Rightarrow> 's IteratorWrapper \<Rightarrow> 's IteratorWrapper option" where
  "child_after I cmp k child = do {
     child \<leftarrow> it_Seek (WrapperIterator I) child k;
     if it_Valid (WrapperIterator I) child \<and> cmp k (it_key (WrapperIterator I) child) = 0
     then it_Next (WrapperIterator I) child else Some child
   }"

definition child_before :: "'s Iterator \<Rightarrow> slice \<Rightarrow> 's IteratorWrapper \<Rightarrow> 's IteratorWrapper option" where
  "child_before I k child = do {
     child \<leftarrow> it_Seek (WrapperIterator I) child k;
     if it_Valid (WrapperIterator I) child then it_Prev (WrapperIterator I) child
     else it_SeekToLast (WrapperIterator I) child
   }"

definition Merging_Next :: "'s Iterator \<Rightarrow> (slice \<Rightarrow> slice \<Rightarrow> int) \<Rightarrow> 's MergingIterator \<Rightarrow> 's MergingIterator option" where
  "Merging_Next I cmp m = do {
     current \<leftarrow> mi_current m;
     m \<leftarrow> (if mi_direction m \<noteq> kForward then do {
              cs \<leftarrow> each_child (\<lambda>i c. if i \<noteq> current then child_after I cmp (w_key (mi_children m ! current)) c else Some c)
                0 (mi_children m);
              Some (m\<lparr>mi_children := cs, mi_direction := kForward\<rparr>)
            } else Some m);
     c \<leftarrow> it_Next (WrapperIterator I) (mi_children m ! current);
     Some (FindSmallest cmp (m\<lparr>mi_children := (mi_children m)[current := c]\<rparr>))
   }"

definition Merging_Prev :: "'s Iterator \<Rightarrow> (slice \<Rightarrow> slice \<Rightarrow> int) \<Rightarrow> 's MergingIterator \<Rightarrow> 's MergingIterator option" where
  "Merging_Prev I cmp m = do {
     current \<leftarrow> mi_current m;
     m \<leftarrow> (if mi_direction m \<noteq> kReverse then do {
              cs \<leftarrow> each_child (\<lambda>i c. if i \<noteq> current then child_before I (w_key (mi_children m ! current)) c else Some c)
                0 (mi_children m);
              Some (m\<lparr>mi_children := cs, mi_direction := kReverse\<rparr>)
            } else Some m);
     c \<leftarrow> it_Prev (WrapperIterator I) (mi_children m ! current);
     Some (FindLargest cmp (m\<lparr>mi_children := (mi_children m)[current := c]\<rparr>))
   }"

fun Merging_status_loop :: "'s Iterator \<Rightarrow> 's IteratorWrapper list \<Rightarrow> Status \<Rightarrow> Status" where
  "Merging_status_loop I [] status = status"
| "Merging_status_loop I (c # cs) status =
     (let status = it_status (WrapperIterator I) c
      in if \<not> Status_ok status then status else Merging_status_loop I cs status)"

definition MergingIterator_class :: "'s Iterator \<Rightarrow> (slice \<Rightarrow> slice \<Rightarrow> int) \<Rightarrow> 's MergingIterator Iterator" where
  "MergingIterator_class I cmp =
     \<lparr>it_Valid = \<lambda>m. mi_current m \<noteq> None,
      it_SeekToFirst = Merging_SeekToFirst I cmp, it_SeekToLast = Merging_SeekToLast I cmp, it_Seek = Merging_Seek I cmp,
      it_Next = Merging_Next I cmp, it_Prev = Merging_Prev I cmp,
      it_key = \<lambda>m. w_key (mi_children m ! the (mi_current m)),
      it_value = \<lambda>m. it_value (WrapperIterator I) (mi_children m ! the (mi_current m)),
      it_status = \<lambda>m. Merging_status_loop I (mi_children m) OK\<rparr>"

text \<open>No child, one child, or a merging iterator.\<close>

definition NewMergingIterator :: "'s Iterator \<Rightarrow> 's list \<Rightarrow> Status + 's + 's MergingIterator" where
  "NewMergingIterator I children =
     (if length children = 0 then Inl NewEmptyIterator
      else if length children = 1 then Inr (Inl (children ! 0))
      else Inr (Inr (MergingIterator_new I children)))"

definition AnyMergingIterator_class :: "'s Iterator \<Rightarrow> (slice \<Rightarrow> slice \<Rightarrow> int) \<Rightarrow> (Status + 's + 's MergingIterator) Iterator" where
  "AnyMergingIterator_class I cmp = either_Iterator EmptyIterator (either_Iterator I (MergingIterator_class I cmp))"

lemma either_Iterator_sorted_left:
  assumes "sorted_iterator A cmp ok kvs I at"
  shows "sorted_iterator (either_Iterator A B) cmp ok kvs (case_sum I (\<lambda>_. False)) (case_sum at (\<lambda>_ _. False))"
proof (unfold_locales, goal_cases)
  case (1 s i)
  then show ?case using sorted_iterator.at_inv [OF assms] by (cases s) (auto simp: either_Iterator_def lift_move_def)
next
  case (2 s i)
  then show ?case using sorted_iterator.at_valid [OF assms] by (cases s) (auto simp: either_Iterator_def lift_move_def)
next
  case (3 s i)
  then show ?case using sorted_iterator.at_key [OF assms] by (cases s) (auto simp: either_Iterator_def lift_move_def)
next
  case (4 s i)
  then show ?case using sorted_iterator.at_value [OF assms] by (cases s) (auto simp: either_Iterator_def lift_move_def)
next
  case (5 s i)
  then show ?case using sorted_iterator.at_next [OF assms] by (cases s) (fastforce simp: either_Iterator_def lift_move_def)+
next
  case (6 s i)
  then show ?case using sorted_iterator.at_prev [OF assms] by (cases s) (fastforce simp: either_Iterator_def lift_move_def)+
next
  case (7 s)
  then show ?case using sorted_iterator.at_first [OF assms] by (cases s) (fastforce simp: either_Iterator_def lift_move_def)+
next
  case (8 s)
  then show ?case using sorted_iterator.at_last [OF assms] by (cases s) (fastforce simp: either_Iterator_def lift_move_def)+
next
  case (9 s t)
  then show ?case using sorted_iterator.at_seek [OF assms] by (cases s) (fastforce simp: either_Iterator_def lift_move_def)+
next
  case (10 s)
  then show ?case using sorted_iterator.at_status [OF assms] by (cases s) (auto simp: either_Iterator_def lift_move_def)
qed (use sorted_iterator.keys_ok [OF assms] sorted_iterator.keys_sorted [OF assms] in auto)

subsection \<open>The loops\<close>

lemma each_child_all:
  assumes "\<And>j. j < length cs \<Longrightarrow> \<exists>c'. f (i + j) (cs ! j) = Some c' \<and> Q (i + j) c'"
  shows "\<exists>cs'. each_child f i cs = Some cs' \<and> length cs' = length cs \<and> (\<forall>j<length cs. Q (i + j) (cs' ! j))"
  using assms
proof (induction cs arbitrary: i)
  case (Cons c cs)
  obtain c' where c': "f i c = Some c'" "Q i c'" using Cons.prems [of 0] by auto
  obtain cs' where cs': "each_child f (i + 1) cs = Some cs'" "length cs' = length cs" "\<forall>j<length cs. Q (i + 1 + j) (cs' ! j)"
    using Cons.IH [of "i + 1"] Cons.prems [of "Suc _"] by auto
  have "Q (i + j) ((c' # cs') ! j)" if "j < length (c # cs)" for j
    using that c'(2) cs'(3) by (cases j) auto
  then show ?case using c' cs' by auto
qed simp

lemma FindSmallest_loop_min:
  assumes "\<forall>j\<in>set is. w_valid (cs ! j) \<and> j \<noteq> m \<longrightarrow> cmp (w_key (cs ! m)) (w_key (cs ! j)) < 0 \<and> \<not> cmp (w_key (cs ! j)) (w_key (cs ! m)) < 0"
    and "w_valid (cs ! m)" "m \<in> set is \<or> s = Some m" "\<forall>j. s = Some j \<longrightarrow> j = m \<or> cmp (w_key (cs ! m)) (w_key (cs ! j)) < 0"
  shows "FindSmallest_loop cmp cs is s = Some m"
  using assms(1,3,4)
proof (induction "is" arbitrary: s)
  case (Cons i "is")
  show ?case unfolding FindSmallest_loop.simps
    by (rule Cons.IH) (use Cons.prems assms(2) in \<open>auto split: option.splits\<close>)
qed simp

lemma FindLargest_loop_max:
  assumes "\<forall>j\<in>set is. w_valid (cs ! j) \<and> j \<noteq> m \<longrightarrow> cmp (w_key (cs ! m)) (w_key (cs ! j)) > 0 \<and> \<not> cmp (w_key (cs ! j)) (w_key (cs ! m)) > 0"
    and "w_valid (cs ! m)" "m \<in> set is \<or> s = Some m" "\<forall>j. s = Some j \<longrightarrow> j = m \<or> cmp (w_key (cs ! m)) (w_key (cs ! j)) > 0"
  shows "FindLargest_loop cmp cs is s = Some m"
  using assms(1,3,4)
proof (induction "is" arbitrary: s)
  case (Cons i "is")
  show ?case unfolding FindLargest_loop.simps
    by (rule Cons.IH) (use Cons.prems assms(2) in \<open>auto split: option.splits\<close>)
qed simp

lemma Find_loops_none:
  assumes "\<forall>j\<in>set is. \<not> w_valid (cs ! j)"
  shows "FindSmallest_loop cmp cs is s = s" "FindLargest_loop cmp cs is s = s"
  using assms by (induction "is") auto

lemma status_loop_ok: "\<forall>w\<in>set cs. it_status (WrapperIterator I) w = OK \<Longrightarrow> Merging_status_loop I cs OK = OK"
  by (induction cs) auto

subsection \<open>Sublists of a sorted list\<close>

definition count_before :: "'a list \<Rightarrow> 'a list \<Rightarrow> nat \<Rightarrow> nat" where
  "count_before K xs p = length (filter (\<lambda>e. e \<in> set xs) (take p K))"

lemma sorted_same_set:
  assumes "sorted_wrt R xs" "sorted_wrt R ys" "set xs = set ys" "\<And>x y. x \<in> set xs \<Longrightarrow> y \<in> set xs \<Longrightarrow> R x y \<Longrightarrow> \<not> R y x"
  shows "xs = ys"
  using assms
proof (induction xs arbitrary: ys)
  case (Cons x xs)
  obtain y ys' where ys: "ys = y # ys'" using Cons.prems(3) by (cases ys) auto
  have "x = y"
  proof (rule ccontr)
    assume "x \<noteq> y"
    then have "x \<in> set ys'" "y \<in> set xs" using Cons.prems(3) ys by auto
    then have "R y x" "R x y" using Cons.prems(1,2) ys by auto
    then show False using Cons.prems(4) [of x y] Cons.prems(3) ys by auto
  qed
  moreover have "x \<notin> set xs" "y \<notin> set ys'"
    using Cons.prems(1,2) ys Cons.prems(4) [of x x] Cons.prems(4) [of y y] Cons.prems(3) by auto
  ultimately have st: "set xs = set ys'" using Cons.prems(3) ys by (simp add: insert_ident)
  have "xs = ys'"
  proof (rule Cons.IH)
    show "sorted_wrt R xs" "sorted_wrt R ys'" using Cons.prems(1,2) ys by simp_all
    show "\<not> R b a" if "a \<in> set xs" "b \<in> set xs" "R a b" for a b using Cons.prems(4) [of a b] that by simp
  qed (rule st)
  then show ?case using ys \<open>x = y\<close> by simp
qed simp

lemma count_before_0 [simp]: "count_before K xs 0 = 0"
  by (simp add: count_before_def)

lemma count_before_Suc: "p < length K \<Longrightarrow> count_before K xs (Suc p) = count_before K xs p + (if K ! p \<in> set xs then 1 else 0)"
  by (simp add: count_before_def take_Suc_conv_app_nth)

definition part_of :: "'a list \<Rightarrow> 'a list \<Rightarrow> bool" where
  "part_of K xs \<longleftrightarrow> xs = filter (\<lambda>e. e \<in> set xs) K"

lemma part_of_split: "part_of K xs \<Longrightarrow> xs = filter (\<lambda>e. e \<in> set xs) (take p K) @ filter (\<lambda>e. e \<in> set xs) (drop p K)"
  unfolding part_of_def by (metis append_take_drop_id filter_append)

lemma count_before_all: "part_of K xs \<Longrightarrow> length K \<le> p \<Longrightarrow> count_before K xs p = length xs"
  by (simp add: count_before_def part_of_def)

lemma part_of_cut:
  assumes "part_of K xs"
  obtains a b where "xs = a @ b" "length a = count_before K xs p" "a = filter (\<lambda>e. e \<in> set xs) (take p K)" "b = filter (\<lambda>e. e \<in> set xs) (drop p K)"
    "set a \<subseteq> set (take p K)" "set b \<subseteq> set (drop p K)"
  by (rule that [OF part_of_split [OF assms, of p]]) (auto simp: count_before_def)

lemma count_before_le: "part_of K xs \<Longrightarrow> count_before K xs p \<le> length xs"
proof -
  assume "part_of K xs"
  then obtain a b where e: "xs = a @ b" "length a = count_before K xs p" by (rule part_of_cut)
  have "length a \<le> length xs" unfolding e(1) by simp
  then show ?thesis using e(2) by linarith
qed

lemma nth_before:
  assumes "part_of K xs" "p < length K" "K ! p \<in> set xs"
  shows "count_before K xs p < length xs \<and> xs ! count_before K xs p = K ! p"
proof -
  obtain a b where e: "xs = a @ b" "length a = count_before K xs p" "b = filter (\<lambda>e. e \<in> set xs) (drop p K)"
    by (rule part_of_cut [OF assms(1), of p])
  have "b = K ! p # filter (\<lambda>e. e \<in> set xs) (drop (Suc p) K)"
    using assms(2,3) e(3) by (simp add: Cons_nth_drop_Suc [symmetric])
  then have "count_before K xs p < length (a @ b) \<and> (a @ b) ! count_before K xs p = K ! p" unfolding e(2) [symmetric] by simp
  then show ?thesis using e(1) by simp
qed

lemma nth_before_drop:
  assumes "part_of K xs" "count_before K xs p < length xs"
  shows "xs ! count_before K xs p \<in> set (drop p K)"
proof -
  obtain a b where e: "xs = a @ b" "length a = count_before K xs p" "set b \<subseteq> set (drop p K)" by (rule part_of_cut [OF assms(1), of p])
  then have "b \<noteq> []" "(a @ b) ! count_before K xs p = b ! 0" using assms(2) by (auto simp: nth_append)
  then show ?thesis using e nth_mem [of 0 b] by auto
qed

lemma nth_before_take:
  assumes "part_of K xs" "0 < count_before K xs p"
  shows "xs ! (count_before K xs p - 1) \<in> set (take p K)"
proof -
  obtain a b where e: "xs = a @ b" "length a = count_before K xs p" "set a \<subseteq> set (take p K)" by (rule part_of_cut [OF assms(1), of p])
  then have "(a @ b) ! (count_before K xs p - 1) = a ! (count_before K xs p - 1)" "count_before K xs p - 1 < length a" using assms(2) by (auto simp: nth_append)
  then show ?thesis using e nth_mem [of "count_before K xs p - 1" a] by auto
qed

lemma count_before_takeWhile:
  assumes "part_of K xs" "\<And>e. e \<in> set (dropWhile P K) \<Longrightarrow> \<not> P e"
  shows "count_before K xs (length (takeWhile P K)) = length (takeWhile P xs)"
proof -
  let ?p = "length (takeWhile P K)"
  have t: "take ?p K = takeWhile P K" "drop ?p K = dropWhile P K" by (simp_all add: takeWhile_eq_take [symmetric] dropWhile_eq_drop [symmetric])
  obtain a b where e: "xs = a @ b" "length a = count_before K xs ?p" "set a \<subseteq> set (take ?p K)" "set b \<subseteq> set (drop ?p K)"
    by (rule part_of_cut [OF assms(1), of ?p])
  have "\<forall>e\<in>set a. P e" using e(3) unfolding t by (meson set_takeWhileD subsetD)
  moreover have "\<forall>e\<in>set b. \<not> P e" using e(4) assms(2) unfolding t by blast
  then have "takeWhile P b = []" by (cases b) simp_all
  ultimately have "takeWhile P xs = a" unfolding e(1) by (simp add: takeWhile_append2)
  then show ?thesis using e(2) by presburger
qed

lemma part_of_sorted:
  assumes "sorted_wrt R K" "sorted_wrt R xs" "set xs \<subseteq> set K" "\<And>x y. x \<in> set K \<Longrightarrow> y \<in> set K \<Longrightarrow> R x y \<Longrightarrow> \<not> R y x"
  shows "part_of K xs"
  unfolding part_of_def
proof (rule sorted_same_set [OF assms(2)])
  show "sorted_wrt R (filter (\<lambda>e. e \<in> set xs) K)" using assms(1) by (rule sorted_wrt_filter)
  show "set xs = set (filter (\<lambda>e. e \<in> set xs) K)" using assms(3) by auto
qed (use assms(3,4) in blast)

subsection \<open>The contract\<close>

locale merging = comparator cmp ok for cmp ok +
  fixes I :: "'s Iterator" and kvss :: "(slice \<times> slice) list list" and K :: "(slice \<times> slice) list"
    and invs :: "nat \<Rightarrow> 's \<Rightarrow> bool" and ats :: "nat \<Rightarrow> 's \<Rightarrow> nat \<Rightarrow> bool"
  assumes child: "j < length kvss \<Longrightarrow> sorted_iterator I cmp ok (kvss ! j) (invs j) (ats j)"
    and merged_sorted: "sorted_wrt (\<lambda>a b. cmp (fst a) (fst b) < 0) K"
    and merged_set: "set K = \<Union> (set ` set kvss)"
    and disjoint: "i < j \<Longrightarrow> j < length kvss \<Longrightarrow> set (kvss ! i) \<inter> set (kvss ! j) = {}"
begin

lemma wchild:
  "j < length kvss \<Longrightarrow>
   sorted_iterator (WrapperIterator I) cmp ok (kvss ! j) (wrapped I (invs j)) (\<lambda>w i. wrapped I (\<lambda>s. ats j s i) w)"
  unfolding wrapped_def by (rule sorted_iterator.wrapper_sorted_iterator [OF child])

lemma K_iff: "e \<in> set K \<longleftrightarrow> (\<exists>j<length kvss. e \<in> set (kvss ! j))"
proof
  assume "e \<in> set K"
  then obtain kvs where "kvs \<in> set kvss" "e \<in> set kvs" unfolding merged_set by blast
  then show "\<exists>j<length kvss. e \<in> set (kvss ! j)" using in_set_conv_nth [of kvs kvss] by blast
qed (auto simp: merged_set)

lemma K_ok: "e \<in> set K \<Longrightarrow> ok (fst e)"
  using sorted_iterator.keys_ok [OF child] K_iff [of e] by blast

lemma child_in_K: "j < length kvss \<Longrightarrow> set (kvss ! j) \<subseteq> set K"
  using K_iff by blast

lemma asym: "ok a \<Longrightarrow> ok b \<Longrightarrow> cmp a b < 0 \<Longrightarrow> \<not> cmp b a < 0"
  using compare_antisym [of a b] by linarith

lemma part: "j < length kvss \<Longrightarrow> part_of K (kvss ! j)"
  using asym K_ok
  by (intro part_of_sorted [OF merged_sorted sorted_iterator.keys_sorted [OF child] child_in_K]) blast+

lemma owner:
  assumes "p < length K"
  obtains m where "m < length kvss" "K ! p \<in> set (kvss ! m)" "\<forall>j<length kvss. j \<noteq> m \<longrightarrow> K ! p \<notin> set (kvss ! j)"
proof -
  have "K ! p \<in> set K" using assms by simp
  then obtain m where m: "m < length kvss" "K ! p \<in> set (kvss ! m)" using K_iff by blast
  have "\<forall>j<length kvss. j \<noteq> m \<longrightarrow> K ! p \<notin> set (kvss ! j)"
  proof (intro allI impI)
    fix j assume j: "j < length kvss" "j \<noteq> m"
    then have "set (kvss ! j) \<inter> set (kvss ! m) = {}"
      using m(1) disjoint [of j m] disjoint [of m j] by (cases "j < m") (auto simp: Int_commute)
    then show "K ! p \<notin> set (kvss ! j)" using m(2) by blast
  qed
  then show ?thesis by (rule that [OF m])
qed

lemma K_less:
  assumes "p < q" "q < length K"
  shows "cmp (fst (K ! p)) (fst (K ! q)) < 0" "0 < cmp (fst (K ! q)) (fst (K ! p))"
proof -
  show l: "cmp (fst (K ! p)) (fst (K ! q)) < 0" using merged_sorted assms by (rule sorted_wrt_nth_less)
  show "0 < cmp (fst (K ! q)) (fst (K ! p))" using l compare_antisym [of "fst (K ! q)" "fst (K ! p)"] K_ok assms by simp
qed

lemma key_inj:
  assumes "a \<in> set K" "b \<in> set K" "fst a = fst b"
  shows "a = b"
proof -
  obtain p q where pq: "p < length K" "q < length K" "a = K ! p" "b = K ! q" using assms(1,2) by (auto simp: in_set_conv_nth)
  have "\<not> p < q" "\<not> q < p" using K_less(1) [of p q] K_less(1) [of q p] pq assms(3) K_ok [OF assms(1)] K_ok [OF assms(2)] by auto
  then show ?thesis using pq by (metis linorder_neqE_nat)
qed

text \<open>Where the children stand when the iterator stands at \<open>p\<close>.\<close>

definition fwd_at :: "'s IteratorWrapper list \<Rightarrow> nat \<Rightarrow> bool" where
  "fwd_at cs p \<longleftrightarrow> length cs = length kvss \<and> (\<forall>j<length kvss. wrapped I (\<lambda>s. ats j s (count_before K (kvss ! j) p)) (cs ! j))"

definition rev_index :: "nat \<Rightarrow> nat \<Rightarrow> nat" where
  "rev_index p j = (if count_before K (kvss ! j) p = 0 then length (kvss ! j) else count_before K (kvss ! j) p - 1)"

text \<open>Every child stands at its last entry below the one at \<open>p\<close>.\<close>

definition rev_below :: "'s IteratorWrapper list \<Rightarrow> nat \<Rightarrow> bool" where
  "rev_below cs p \<longleftrightarrow> length cs = length kvss \<and> (\<forall>j<length kvss. wrapped I (\<lambda>s. ats j s (rev_index p j)) (cs ! j))"

lemma FindSmallest_fwd:
  assumes at: "fwd_at cs p" and p: "p \<le> length K"
  shows "if p < length K
    then \<exists>m<length kvss. FindSmallest_loop cmp cs [0..<length cs] None = Some m \<and> K ! p \<in> set (kvss ! m)
    else FindSmallest_loop cmp cs [0..<length cs] None = None"
proof -
  have valid: "w_valid (cs ! j) \<longleftrightarrow> count_before K (kvss ! j) p < length (kvss ! j)" if "j < length kvss" for j
    using sorted_iterator.at_valid [OF wchild [OF that]] at that by (simp add: fwd_at_def WrapperIterator_def)
  have key: "w_key (cs ! j) = fst (kvss ! j ! count_before K (kvss ! j) p)" if "j < length kvss" "count_before K (kvss ! j) p < length (kvss ! j)" for j
    using sorted_iterator.at_key [OF wchild [OF that(1)] _ that(2), of "cs ! j"] at that by (simp add: fwd_at_def WrapperIterator_def)
  have len: "length cs = length kvss" using at by (simp add: fwd_at_def)
  show ?thesis
  proof (cases "p < length K")
    case True
    obtain m where m: "m < length kvss" "K ! p \<in> set (kvss ! m)" "\<forall>j<length kvss. j \<noteq> m \<longrightarrow> K ! p \<notin> set (kvss ! j)"
      by (rule owner [OF True])
    note mp = nth_before [OF part [OF m(1)] True m(2)]
    have less: "cmp (w_key (cs ! m)) (w_key (cs ! j)) < 0 \<and> \<not> cmp (w_key (cs ! j)) (w_key (cs ! m)) < 0"
      if j: "j < length kvss" "w_valid (cs ! j)" "j \<noteq> m" for j
    proof -
      let ?e = "kvss ! j ! count_before K (kvss ! j) p"
      have b: "count_before K (kvss ! j) p < length (kvss ! j)" using valid j by simp
      have "?e \<in> set (drop p K)" by (rule nth_before_drop [OF part [OF j(1)] b])
      moreover have "?e \<noteq> K ! p" using m(3) j(1,3) nth_mem [OF b] by metis
      ultimately have "?e \<in> set (drop (Suc p) K)" using True by (simp add: Cons_nth_drop_Suc [symmetric])
      then obtain q where q: "q < length K - Suc p" "?e = K ! (Suc p + q)" by (auto simp: in_set_conv_nth)
      then have "cmp (fst (K ! p)) (fst ?e) < 0" "0 < cmp (fst ?e) (fst (K ! p))" using K_less [of p "Suc p + q"] by simp_all
      then show ?thesis using key [OF j(1) b] key [OF m(1) conjunct1 [OF mp]] mp by simp
    qed
    have "FindSmallest_loop cmp cs [0..<length cs] None = Some m"
      by (rule FindSmallest_loop_min) (use less m(1) len valid mp in auto)
    then show ?thesis using True m by auto
  next
    case False
    then have "\<not> w_valid (cs ! j)" if "j < length kvss" for j using valid [OF that] count_before_all [OF part [OF that]] by simp
    then show ?thesis using False len by (simp add: Find_loops_none)
  qed
qed

lemma FindLargest_rev:
  assumes at: "rev_below cs p" and p: "p \<le> length K"
  shows "if 0 < p
    then \<exists>m<length kvss. FindLargest_loop cmp cs (rev [0..<length cs]) None = Some m \<and> K ! (p - 1) \<in> set (kvss ! m)
    else FindLargest_loop cmp cs (rev [0..<length cs]) None = None"
proof -
  have st: "wrapped I (\<lambda>s. ats j s (rev_index p j)) (cs ! j)" if "j < length kvss" for j using at that by (simp add: rev_below_def)
  have valid: "w_valid (cs ! j) \<longleftrightarrow> 0 < count_before K (kvss ! j) p" if "j < length kvss" for j
    using sorted_iterator.at_valid [OF wchild [OF that] st [OF that]] count_before_le [OF part [OF that], of p]
    by (auto simp: rev_index_def WrapperIterator_def)
  have key: "w_key (cs ! j) = fst (kvss ! j ! (count_before K (kvss ! j) p - 1))" if "j < length kvss" "0 < count_before K (kvss ! j) p" for j
    using sorted_iterator.at_key [OF wchild [OF that(1)] st [OF that(1)]] that count_before_le [OF part [OF that(1)], of p]
    by (auto simp: rev_index_def WrapperIterator_def)
  have len: "length cs = length kvss" using at by (simp add: rev_below_def)
  show ?thesis
  proof (cases "0 < p")
    case True
    then have p1: "p - 1 < length K" using p by simp
    obtain m where m: "m < length kvss" "K ! (p - 1) \<in> set (kvss ! m)" "\<forall>j<length kvss. j \<noteq> m \<longrightarrow> K ! (p - 1) \<notin> set (kvss ! j)"
      by (rule owner [OF p1])
    have mc: "count_before K (kvss ! m) p = count_before K (kvss ! m) (p - 1) + 1"
      using count_before_Suc [OF p1, of "kvss ! m"] True m(2) by simp
    note mp = nth_before [OF part [OF m(1)] p1 m(2)]
    have less: "cmp (w_key (cs ! m)) (w_key (cs ! j)) > 0 \<and> \<not> cmp (w_key (cs ! j)) (w_key (cs ! m)) > 0"
      if j: "j < length kvss" "w_valid (cs ! j)" "j \<noteq> m" for j
    proof -
      let ?e = "kvss ! j ! (count_before K (kvss ! j) p - 1)"
      have b: "0 < count_before K (kvss ! j) p" using valid j by simp
      have "?e \<in> set (take p K)" by (rule nth_before_take [OF part [OF j(1)] b])
      moreover have "?e \<in> set (kvss ! j)" using b count_before_le [OF part [OF j(1)], of p] by (intro nth_mem) linarith
      then have "?e \<noteq> K ! (p - 1)" using m(3) j(1,3) by metis
      moreover have "take p K = take (p - 1) K @ [K ! (p - 1)]" using take_Suc_conv_app_nth [OF p1] True by simp
      ultimately have "?e \<in> set (take (p - 1) K)" by simp
      then obtain q where "q < p - 1" "?e = K ! q" by (auto simp: in_set_conv_nth)
      then have "cmp (fst ?e) (fst (K ! (p - 1))) < 0" "0 < cmp (fst (K ! (p - 1))) (fst ?e)" using K_less [of q "p - 1"] p1 by simp_all
      then show ?thesis using key [OF j(1) b] key [OF m(1)] mp mc by simp
    qed
    have "FindLargest_loop cmp cs (rev [0..<length cs]) None = Some m"
      by (rule FindLargest_loop_max) (use less m(1) len valid mc in auto)
    then show ?thesis using True m by auto
  next
    case False
    then have "\<not> w_valid (cs ! j)" if "j < length kvss" for j using valid [OF that] by simp
    then show ?thesis using False len by (simp add: Find_loops_none)
  qed
qed

lemma position_of: "p < length K \<Longrightarrow> length (takeWhile (\<lambda>kv. cmp (fst kv) (fst (K ! p)) < 0) K) = p"
proof -
  assume p: "p < length K"
  have "takeWhile (\<lambda>kv. cmp (fst kv) (fst (K ! p)) < 0) K = take p K"
    using p K_less(1) [of _ p] K_ok [of "K ! p"] by (intro takeWhile_eq_take_P_nth) simp_all
  then show ?thesis using p by simp
qed

definition mi_inv :: "'s MergingIterator \<Rightarrow> bool" where
  "mi_inv m \<longleftrightarrow> length (mi_children m) = length kvss \<and> (\<forall>j<length kvss. wrapped I (invs j) (mi_children m ! j))"

definition mi_at :: "'s MergingIterator \<Rightarrow> nat \<Rightarrow> bool" where
  "mi_at m p \<longleftrightarrow>
     (if p < length K
      then \<exists>c<length kvss. mi_current m = Some c \<and> K ! p \<in> set (kvss ! c) \<and>
             (if mi_direction m = kForward then fwd_at (mi_children m) p else rev_below (mi_children m) (Suc p))
      else p = length K \<and> mi_current m = None \<and> mi_inv m)"

lemma rev_index_owner:
  assumes "p < length K" "j < length kvss"
  shows "rev_index (Suc p) j = (if K ! p \<in> set (kvss ! j) then count_before K (kvss ! j) p else rev_index p j)"
  using assms by (simp add: rev_index_def count_before_Suc)

lemma only_owner: "i < length kvss \<Longrightarrow> j < length kvss \<Longrightarrow> e \<in> set (kvss ! i) \<Longrightarrow> e \<in> set (kvss ! j) \<Longrightarrow> i = j"
  using disjoint [of i j] disjoint [of j i] by (cases i j rule: linorder_cases) blast+

lemma wrapped_inv: "j < length kvss \<Longrightarrow> wrapped I (\<lambda>s. ats j s i) w \<Longrightarrow> wrapped I (invs j) w"
  using sorted_iterator.at_inv [OF wchild] by blast

lemma fwd_next:
  assumes "fwd_at cs p" "p < length K" "c < length kvss" "K ! p \<in> set (kvss ! c)"
  shows "\<exists>w. it_Next (WrapperIterator I) (cs ! c) = Some w \<and> fwd_at (cs[c := w]) (Suc p)"
proof -
  have at: "wrapped I (\<lambda>s. ats c s (count_before K (kvss ! c) p)) (cs ! c)" and len: "length cs = length kvss"
    using assms(1,3) by (simp_all add: fwd_at_def)
  obtain w where w: "it_Next (WrapperIterator I) (cs ! c) = Some w" "wrapped I (\<lambda>s. ats c s (count_before K (kvss ! c) p + 1)) w"
    using sorted_iterator.at_next [OF wchild [OF assms(3)] at] nth_before [OF part [OF assms(3)] assms(2,4)] by blast
  have "wrapped I (\<lambda>s. ats j s (count_before K (kvss ! j) (Suc p))) (cs[c := w] ! j)" if j: "j < length kvss" for j
  proof (cases "j = c")
    case True
    then show ?thesis using w(2) len j assms(2,4) by (simp add: count_before_Suc)
  next
    case False
    then have "K ! p \<notin> set (kvss ! j)" using only_owner [OF j assms(3)] assms(4) by blast
    then show ?thesis using False assms(1,2) j by (simp add: count_before_Suc fwd_at_def)
  qed
  then show ?thesis using w(1) len by (auto simp: fwd_at_def)
qed

lemma rev_prev:
  assumes "rev_below cs (Suc p)" "p < length K" "c < length kvss" "K ! p \<in> set (kvss ! c)"
  shows "\<exists>w. it_Prev (WrapperIterator I) (cs ! c) = Some w \<and> rev_below (cs[c := w]) p"
proof -
  have at: "wrapped I (\<lambda>s. ats c s (count_before K (kvss ! c) p)) (cs ! c)" and len: "length cs = length kvss"
    using assms(1,3,4) rev_index_owner [OF assms(2,3)] unfolding rev_below_def by metis+
  obtain w where w: "it_Prev (WrapperIterator I) (cs ! c) = Some w" "wrapped I (\<lambda>s. ats c s (rev_index p c)) w"
    using sorted_iterator.at_prev [OF wchild [OF assms(3)] at] nth_before [OF part [OF assms(3)] assms(2,4)] unfolding rev_index_def by blast
  have "wrapped I (\<lambda>s. ats j s (rev_index p j)) (cs[c := w] ! j)" if j: "j < length kvss" for j
  proof (cases "j = c")
    case True
    then show ?thesis using w(2) len j by simp
  next
    case False
    then have "K ! p \<notin> set (kvss ! j)" using only_owner [OF j assms(3)] assms(4) by blast
    then have "rev_index (Suc p) j = rev_index p j" using rev_index_owner [OF assms(2) j] by simp
    moreover have "wrapped I (\<lambda>s. ats j s (rev_index (Suc p) j)) (cs ! j)" using assms(1) j by (simp add: rev_below_def)
    ultimately show ?thesis using False by simp
  qed
  then show ?thesis using w(1) len by (auto simp: rev_below_def)
qed

lemma fwd_key:
  assumes "fwd_at cs p \<or> rev_below cs (Suc p)" "p < length K" "c < length kvss" "K ! p \<in> set (kvss ! c)"
  shows "w_key (cs ! c) = fst (K ! p)" "it_value (WrapperIterator I) (cs ! c) = snd (K ! p)"
proof -
  have at: "wrapped I (\<lambda>s. ats c s (count_before K (kvss ! c) p)) (cs ! c)"
    using assms(1,3,4) rev_index_owner [OF assms(2,3)] unfolding rev_below_def fwd_at_def by metis
  note n = nth_before [OF part [OF assms(3)] assms(2,4)]
  show "w_key (cs ! c) = fst (K ! p)" "it_value (WrapperIterator I) (cs ! c) = snd (K ! p)"
    using sorted_iterator.at_key [OF wchild [OF assms(3)] at] sorted_iterator.at_value [OF wchild [OF assms(3)] at] n
    by (simp_all add: WrapperIterator_def)
qed

lemma not_below:
  assumes "e \<in> set (dropWhile (\<lambda>kv. cmp (fst kv) t < 0) K)" "ok t"
  shows "\<not> cmp (fst e) t < 0"
proof
  let ?P = "\<lambda>kv. cmp (fst kv) t < 0"
  define n where "n = length (takeWhile ?P K)"
  assume e: "cmp (fst e) t < 0"
  have "e \<in> set (drop n K)" using assms(1) unfolding n_def dropWhile_eq_drop .
  then obtain q where q: "q < length K - n" "e = K ! (n + q)" by (auto simp: in_set_conv_nth)
  have "n < length K" using q(1) by simp
  then have np: "\<not> ?P (K ! n)" unfolding n_def by (rule nth_length_takeWhile)
  have "q \<noteq> 0" using e q(2) np by (metis add_0_right)
  then have "cmp (fst (K ! n)) (fst e) < 0" using K_less(1) [of n "n + q"] q by simp
  moreover have "ok (fst e)" "ok (fst (K ! n))" using K_ok q by simp_all
  ultimately show False using e np compare_trans [of "fst (K ! n)" "fst e" t] assms(2) by blast
qed

lemma seek_at:
  assumes "ok t" "j < length kvss" "wrapped I (invs j) w"
  shows "\<exists>w'. it_Seek (WrapperIterator I) w t = Some w' \<and>
    wrapped I (\<lambda>s. ats j s (count_before K (kvss ! j) (length (takeWhile (\<lambda>kv. cmp (fst kv) t < 0) K)))) w'"
proof -
  have "count_before K (kvss ! j) (length (takeWhile (\<lambda>kv. cmp (fst kv) t < 0) K)) = length (takeWhile (\<lambda>kv. cmp (fst kv) t < 0) (kvss ! j))"
    by (rule count_before_takeWhile [OF part [OF assms(2)] not_below [OF _ assms(1)]])
  then show ?thesis using sorted_iterator.at_seek [OF wchild [OF assms(2)] assms(3,1)] by presburger
qed

lemma seek_key:
  assumes "p < length K" "j < length kvss" "wrapped I (invs j) w"
  shows "\<exists>w'. it_Seek (WrapperIterator I) w (fst (K ! p)) = Some w' \<and> wrapped I (\<lambda>s. ats j s (count_before K (kvss ! j) p)) w'"
  using seek_at [OF _ assms(2,3), of "fst (K ! p)"] position_of [OF assms(1)] K_ok assms(1) by simp

lemma turn_fwd:
  assumes "rev_below cs (Suc p)" "p < length K" "c < length kvss" "K ! p \<in> set (kvss ! c)"
  shows "\<exists>cs'. each_child (\<lambda>i w. if i \<noteq> c then child_after I cmp (fst (K ! p)) w else Some w) 0 cs = Some cs' \<and> fwd_at cs' p"
proof -
  have len: "length cs = length kvss" using assms(1) by (simp add: rev_below_def)
  have at: "wrapped I (\<lambda>s. ats j s (rev_index (Suc p) j)) (cs ! j)" if "j < length kvss" for j using assms(1) that by (simp add: rev_below_def)
  have "\<exists>w. (if j \<noteq> c then child_after I cmp (fst (K ! p)) (cs ! j) else Some (cs ! j)) = Some w \<and>
      wrapped I (\<lambda>s. ats j s (count_before K (kvss ! j) p)) w" if j: "j < length kvss" for j
  proof (cases "j = c")
    case True
    then show ?thesis using at [OF j] rev_index_owner [OF assms(2) j] assms(4) by simp
  next
    case False
    obtain w where w: "it_Seek (WrapperIterator I) (cs ! j) (fst (K ! p)) = Some w"
        "wrapped I (\<lambda>s. ats j s (count_before K (kvss ! j) p)) w"
      using seek_key [OF assms(2) j wrapped_inv [OF j at [OF j]]] by blast
    have "cmp (fst (K ! p)) (it_key (WrapperIterator I) w) \<noteq> 0" if v: "it_Valid (WrapperIterator I) w"
    proof -
      let ?e = "kvss ! j ! count_before K (kvss ! j) p"
      have b: "count_before K (kvss ! j) p < length (kvss ! j)" using sorted_iterator.at_valid [OF wchild [OF j] w(2)] v by simp
      then have e: "?e \<in> set (kvss ! j)" by simp
      have "?e \<noteq> K ! p" using only_owner [OF j assms(3) e] assms(4) False by auto
      then have "fst ?e \<noteq> fst (K ! p)"
        using key_inj child_in_K [OF j] e nth_mem [OF assms(2)] by blast
      then show ?thesis
        using sorted_iterator.at_key [OF wchild [OF j] w(2) b] compare_eq K_ok [of "K ! p"] K_ok [of ?e] child_in_K [OF j] e assms(2) by auto
    qed
    then show ?thesis using w False by (auto simp: child_after_def)
  qed
  then show ?thesis
    using each_child_all [of cs "\<lambda>i w. if i \<noteq> c then child_after I cmp (fst (K ! p)) w else Some w" 0
        "\<lambda>j w. wrapped I (\<lambda>s. ats j s (count_before K (kvss ! j) p)) w"] len
    by (auto simp: fwd_at_def)
qed

lemma turn_rev:
  assumes "fwd_at cs p" "p < length K" "c < length kvss" "K ! p \<in> set (kvss ! c)"
  shows "\<exists>cs'. each_child (\<lambda>i w. if i \<noteq> c then child_before I (fst (K ! p)) w else Some w) 0 cs = Some cs' \<and> rev_below cs' (Suc p)"
proof -
  have len: "length cs = length kvss" using assms(1) by (simp add: fwd_at_def)
  have at: "wrapped I (\<lambda>s. ats j s (count_before K (kvss ! j) p)) (cs ! j)" if "j < length kvss" for j using assms(1) that by (simp add: fwd_at_def)
  have "\<exists>w. (if j \<noteq> c then child_before I (fst (K ! p)) (cs ! j) else Some (cs ! j)) = Some w \<and>
      wrapped I (\<lambda>s. ats j s (rev_index (Suc p) j)) w" if j: "j < length kvss" for j
  proof (cases "j = c")
    case True
    then show ?thesis using at [OF j] rev_index_owner [OF assms(2) j] assms(4) by simp
  next
    case False
    have r: "rev_index (Suc p) j = rev_index p j"
      using rev_index_owner [OF assms(2) j] only_owner [OF j assms(3) _ assms(4)] False by auto
    obtain w where w: "it_Seek (WrapperIterator I) (cs ! j) (fst (K ! p)) = Some w"
        "wrapped I (\<lambda>s. ats j s (count_before K (kvss ! j) p)) w"
      using seek_key [OF assms(2) j wrapped_inv [OF j at [OF j]]] by blast
    show ?thesis
    proof (cases "count_before K (kvss ! j) p < length (kvss ! j)")
      case True
      then obtain w' where "it_Prev (WrapperIterator I) w = Some w'" "wrapped I (\<lambda>s. ats j s (rev_index p j)) w'"
        using sorted_iterator.at_prev [OF wchild [OF j] w(2)] unfolding rev_index_def by blast
      then show ?thesis using w(1) True False sorted_iterator.at_valid [OF wchild [OF j] w(2)] by (simp add: child_before_def r)
    next
      case n: False
      then have "rev_index p j = length (kvss ! j) - 1" using count_before_le [OF part [OF j], of p] by (auto simp: rev_index_def)
      then obtain w' where "it_SeekToLast (WrapperIterator I) w = Some w'" "wrapped I (\<lambda>s. ats j s (rev_index p j)) w'"
        using sorted_iterator.at_last [OF wchild [OF j] wrapped_inv [OF j w(2)]] by auto
      then show ?thesis using w(1) n False sorted_iterator.at_valid [OF wchild [OF j] w(2)] by (simp add: child_before_def r)
    qed
  qed
  then show ?thesis
    using each_child_all [of cs "\<lambda>i w. if i \<noteq> c then child_before I (fst (K ! p)) w else Some w" 0
        "\<lambda>j w. wrapped I (\<lambda>s. ats j s (rev_index (Suc p) j)) w"] len
    by (auto simp: rev_below_def)
qed

lemma below_inv: "fwd_at cs p \<or> rev_below cs p \<Longrightarrow> mi_inv (m\<lparr>mi_children := cs\<rparr>)"
  using wrapped_inv unfolding fwd_at_def rev_below_def mi_inv_def by fastforce

lemma at_FindSmallest:
  assumes "fwd_at (mi_children m) p" "p \<le> length K" "mi_direction m = kForward"
  shows "mi_at (FindSmallest cmp m) p"
  using FindSmallest_fwd [OF assms(1,2)] below_inv [of "mi_children m" p m] assms
  by (auto simp: mi_at_def FindSmallest_def mi_inv_def split: if_splits)

lemma at_FindLargest:
  assumes "rev_below (mi_children m) p" "p \<le> length K" "mi_direction m = kReverse"
  shows "mi_at (FindLargest cmp m) (if p = 0 then length K else p - 1)"
  using FindLargest_rev [OF assms(1,2)] below_inv [of "mi_children m" p m] assms
  by (auto simp: mi_at_def FindLargest_def mi_inv_def split: if_splits)

lemma each_inv:
  assumes "mi_inv m" "\<And>j w. j < length kvss \<Longrightarrow> wrapped I (invs j) w \<Longrightarrow> \<exists>w'. f w = Some w' \<and> Q j w'"
  shows "\<exists>cs. each_child (\<lambda>i. f) 0 (mi_children m) = Some cs \<and> length cs = length kvss \<and> (\<forall>j<length kvss. Q j (cs ! j))"
  using each_child_all [of "mi_children m" "\<lambda>i. f" 0 Q] assms by (auto simp: mi_inv_def)

lemma status_ok: "mi_inv m \<Longrightarrow> Merging_status_loop I (mi_children m) OK = OK"
proof -
  assume "mi_inv m"
  then have "\<forall>w\<in>set (mi_children m). it_status (WrapperIterator I) w = OK"
    using sorted_iterator.at_status [OF wchild] by (auto simp: mi_inv_def in_set_conv_nth)
  then show ?thesis by (rule status_loop_ok)
qed

theorem merging_iterator: "sorted_iterator (MergingIterator_class I cmp) cmp ok K mi_inv mi_at"
proof
  let ?C = "MergingIterator_class I cmp"
  fix m p assume at: "mi_at m p"
  show "mi_inv m \<and> p \<le> length K"
    using at below_inv [of "mi_children m" p m] below_inv [of "mi_children m" "Suc p" m] by (auto simp: mi_at_def split: if_splits)
  show "it_Valid ?C m \<longleftrightarrow> p < length K" using at by (auto simp: mi_at_def MergingIterator_class_def split: if_splits)
  assume p: "p < length K"
  then obtain c where c: "c < length kvss" "mi_current m = Some c" "K ! p \<in> set (kvss ! c)"
    and d: "if mi_direction m = kForward then fwd_at (mi_children m) p else rev_below (mi_children m) (Suc p)"
    using at by (auto simp: mi_at_def)
  have d': "fwd_at (mi_children m) p \<or> rev_below (mi_children m) (Suc p)" using d by (auto split: if_splits)
  note key = fwd_key [OF d' p c(1,3)]
  show "it_key ?C m = fst (K ! p)" "it_value ?C m = snd (K ! p)" using key c(2) by (simp_all add: MergingIterator_class_def)
  show "\<exists>m'. it_Next ?C m = Some m' \<and> mi_at m' (p + 1)"
  proof -
    obtain cs where cs: "fwd_at cs p" "(if mi_direction m \<noteq> kForward then do {
          cs \<leftarrow> each_child (\<lambda>i w. if i \<noteq> c then child_after I cmp (w_key (mi_children m ! c)) w else Some w) 0 (mi_children m);
          Some (m\<lparr>mi_children := cs, mi_direction := kForward\<rparr>)
        } else Some m) = Some (m\<lparr>mi_children := cs, mi_direction := kForward\<rparr>)"
      using d turn_fwd [OF _ p c(1,3), of "mi_children m"] unfolding key(1) by (cases "mi_direction m = kForward") auto
    obtain w where w: "it_Next (WrapperIterator I) (cs ! c) = Some w" "fwd_at (cs[c := w]) (Suc p)"
      using fwd_next [OF cs(1) p c(1,3)] by blast
    show ?thesis
      using cs(2) c(2) w at_FindSmallest [of "m\<lparr>mi_direction := kForward, mi_children := cs[c := w]\<rparr>" "Suc p"] p
      by (simp add: MergingIterator_class_def Merging_Next_def)
  qed
  show "\<exists>m'. it_Prev ?C m = Some m' \<and> mi_at m' (if p = 0 then length K else p - 1)"
  proof -
    obtain cs where cs: "rev_below cs (Suc p)" "(if mi_direction m \<noteq> kReverse then do {
          cs \<leftarrow> each_child (\<lambda>i w. if i \<noteq> c then child_before I (w_key (mi_children m ! c)) w else Some w) 0 (mi_children m);
          Some (m\<lparr>mi_children := cs, mi_direction := kReverse\<rparr>)
        } else Some m) = Some (m\<lparr>mi_children := cs, mi_direction := kReverse\<rparr>)"
      using d turn_rev [OF _ p c(1,3), of "mi_children m"] unfolding key(1) by (cases "mi_direction m") auto
    obtain w where w: "it_Prev (WrapperIterator I) (cs ! c) = Some w" "rev_below (cs[c := w]) p"
      using rev_prev [OF cs(1) p c(1,3)] by blast
    show ?thesis
      using cs(2) c(2) w at_FindLargest [of "m\<lparr>mi_direction := kReverse, mi_children := cs[c := w]\<rparr>" p] p
      by (simp add: MergingIterator_class_def Merging_Prev_def)
  qed
next
  let ?C = "MergingIterator_class I cmp"
  fix m t assume inv: "mi_inv m"
  show "it_status ?C m = OK" using status_ok [OF inv] by (simp add: MergingIterator_class_def)
  have fwd: "\<exists>m'. (do { cs \<leftarrow> each_child (\<lambda>i. f) 0 (mi_children m);
        Some ((FindSmallest cmp (m\<lparr>mi_children := cs\<rparr>))\<lparr>mi_direction := kForward\<rparr>) }) = Some m' \<and> mi_at m' p"
    if mv: "\<And>j w. j < length kvss \<Longrightarrow> wrapped I (invs j) w \<Longrightarrow> \<exists>w'. f w = Some w' \<and> wrapped I (\<lambda>s. ats j s (count_before K (kvss ! j) p)) w'"
      and le: "p \<le> length K" for f p
  proof -
    obtain cs where cs: "each_child (\<lambda>i. f) 0 (mi_children m) = Some cs" "fwd_at cs p"
      using each_inv [OF inv, of f "\<lambda>j w. wrapped I (\<lambda>s. ats j s (count_before K (kvss ! j) p)) w", OF mv] unfolding fwd_at_def by blast
    have "(FindSmallest cmp (m\<lparr>mi_children := cs\<rparr>))\<lparr>mi_direction := kForward\<rparr> = FindSmallest cmp (m\<lparr>mi_children := cs, mi_direction := kForward\<rparr>)"
      by (simp add: FindSmallest_def)
    then show ?thesis using cs at_FindSmallest [of "m\<lparr>mi_children := cs, mi_direction := kForward\<rparr>" p] le by simp
  qed
  show "\<exists>m'. it_SeekToFirst ?C m = Some m' \<and> mi_at m' 0"
    using fwd [of "it_SeekToFirst (WrapperIterator I)" 0] sorted_iterator.at_first [OF wchild]
    by (simp add: MergingIterator_class_def Merging_SeekToFirst_def)
  show "\<exists>m'. it_SeekToLast ?C m = Some m' \<and> mi_at m' (length K - 1)"
  proof -
    have l: "rev_index (length K) j = length (kvss ! j) - 1" if "j < length kvss" for j
      using count_before_all [OF part [OF that]] by (simp add: rev_index_def)
    obtain cs where cs: "each_child (\<lambda>i. it_SeekToLast (WrapperIterator I)) 0 (mi_children m) = Some cs" "rev_below cs (length K)"
      using each_inv [OF inv, of "it_SeekToLast (WrapperIterator I)"  "\<lambda>j w. wrapped I (\<lambda>s. ats j s (rev_index (length K) j)) w"]
        sorted_iterator.at_last [OF wchild] l unfolding rev_below_def by auto
    have "(FindLargest cmp (m\<lparr>mi_children := cs\<rparr>))\<lparr>mi_direction := kReverse\<rparr> = FindLargest cmp (m\<lparr>mi_children := cs, mi_direction := kReverse\<rparr>)"
      by (simp add: FindLargest_def)
    then show ?thesis using cs at_FindLargest [of "m\<lparr>mi_children := cs, mi_direction := kReverse\<rparr>" "length K"]
      by (auto simp: MergingIterator_class_def Merging_SeekToLast_def split: if_splits)
  qed
  assume t: "ok t"
  show "\<exists>m'. it_Seek ?C m t = Some m' \<and> mi_at m' (length (takeWhile (\<lambda>kv. cmp (fst kv) t < 0) K))"
    using fwd [of "\<lambda>w. it_Seek (WrapperIterator I) w t", OF seek_at [OF t]]
    by (simp add: MergingIterator_class_def Merging_Seek_def length_takeWhile_le)
qed (use K_ok merged_sorted in auto)

lemma MergingIterator_new_inv:
  "length children = length kvss \<Longrightarrow> \<forall>j<length kvss. invs j (children ! j) \<Longrightarrow> mi_inv (MergingIterator_new I children)"
  using Wrapper_Set_fresh [of I Wrapper_empty "Some _"] by (simp add: mi_inv_def MergingIterator_new_def wrapped_def)

theorem any_merging_iterator:
  assumes "length children = length kvss" "\<forall>j<length kvss. invs j (children ! j)"
  shows "\<exists>inv at. inv (NewMergingIterator I children) \<and> sorted_iterator (AnyMergingIterator_class I cmp) cmp ok K inv at"
proof (cases "length children" "1 :: nat" rule: linorder_cases)
  case less
  then have "K = []" using assms(1) merged_set by simp
  then have "sorted_iterator (AnyMergingIterator_class I cmp) cmp ok K (case_sum (\<lambda>s. s = OK) (\<lambda>_. False)) (case_sum (\<lambda>s i. s = OK \<and> i = 0) (\<lambda>_ _. False))"
    unfolding AnyMergingIterator_class_def using either_Iterator_sorted_left [OF empty_iterator.sorted_iterator_axioms] by simp
  then show ?thesis using less by (intro exI conjI) (simp_all add: NewMergingIterator_def NewEmptyIterator_def)
next
  case equal
  have 0: "0 < length kvss" using equal assms(1) by simp
  have "set kvss = {kvss ! 0}" using equal assms(1) by (cases kvss) auto
  then have "K = kvss ! 0" using part [OF 0] merged_set by (simp add: part_of_def)
  then have "sorted_iterator (AnyMergingIterator_class I cmp) cmp ok K (case_sum (\<lambda>_. False) (case_sum (invs 0) (\<lambda>_. False)))
      (case_sum (\<lambda>_ _. False) (case_sum (ats 0) (\<lambda>_ _. False)))"
    unfolding AnyMergingIterator_class_def using child [OF 0] by (simp add: either_Iterator_sorted either_Iterator_sorted_left)
  then show ?thesis using equal assms(2) 0 by (intro exI conjI) (simp_all add: NewMergingIterator_def)
next
  case greater
  then show ?thesis
    using either_Iterator_sorted [OF either_Iterator_sorted [OF merging_iterator], of EmptyIterator I] MergingIterator_new_inv [OF assms]
    by (intro exI [of _ "case_sum (\<lambda>_. False) (case_sum (\<lambda>_. False) mi_inv)"]
        exI [of _ "case_sum (\<lambda>_ _. False) (case_sum (\<lambda>_ _. False) mi_at)"])
      (auto simp: NewMergingIterator_def AnyMergingIterator_class_def)
qed

end

subsection \<open>Merged lists\<close>

fun merge_entries :: "(slice \<Rightarrow> slice \<Rightarrow> int) \<Rightarrow> (slice \<times> slice) list \<Rightarrow> (slice \<times> slice) list \<Rightarrow> (slice \<times> slice) list" where
  "merge_entries cmp (a # as) (b # bs) =
     (if cmp (fst a) (fst b) < 0 then a # merge_entries cmp as (b # bs) else b # merge_entries cmp (a # as) bs)"
| "merge_entries cmp [] bs = bs"
| "merge_entries cmp as [] = as"

definition merge_all :: "(slice \<Rightarrow> slice \<Rightarrow> int) \<Rightarrow> (slice \<times> slice) list list \<Rightarrow> (slice \<times> slice) list" where
  "merge_all cmp kvss = foldr (merge_entries cmp) kvss []"

lemma set_merge_entries [simp]: "set (merge_entries cmp as bs) = set as \<union> set bs"
  by (induction cmp as bs rule: merge_entries.induct) auto

lemma set_merge_all: "set (merge_all cmp kvss) = \<Union> (set ` set kvss)"
  by (induction kvss) (simp_all add: merge_all_def)

definition mergeable :: "(slice \<Rightarrow> slice \<Rightarrow> int) \<Rightarrow> (slice \<Rightarrow> bool) \<Rightarrow> (slice \<times> slice) list list \<Rightarrow> bool" where
  "mergeable cmp ok kvss \<longleftrightarrow> (\<forall>kvs\<in>set kvss. sorted_wrt (\<lambda>a b. cmp (fst a) (fst b) < 0) kvs \<and> (\<forall>kv\<in>set kvs. ok (fst kv))) \<and>
     sorted_wrt (\<lambda>as bs. fst ` set as \<inter> fst ` set bs = {}) kvss"

context comparator
begin

lemma sorted_merge_entries:
  assumes "sorted_wrt (\<lambda>a b. Compare (fst a) (fst b) < 0) as" "sorted_wrt (\<lambda>a b. Compare (fst a) (fst b) < 0) bs"
    "\<forall>kv\<in>set as \<union> set bs. ok (fst kv)" "fst ` set as \<inter> fst ` set bs = {}"
  shows "sorted_wrt (\<lambda>a b. Compare (fst a) (fst b) < 0) (merge_entries Compare as bs)"
  using assms
proof (induction as arbitrary: bs)
  case as: (Cons a as)
  show ?case
    using as.prems
  proof (induction bs)
    case bs: (Cons b bs)
    have ok: "ok (fst a)" "ok (fst b)" "\<forall>kv\<in>set as \<union> set bs. ok (fst kv)" using bs.prems(3) by simp_all
    show ?case
    proof (cases "Compare (fst a) (fst b) < 0")
      case True
      have "sorted_wrt (\<lambda>a b. Compare (fst a) (fst b) < 0) (merge_entries Compare as (b # bs))"
        using bs.prems by (intro as.IH) auto
      moreover have "Compare (fst a) (fst e) < 0" if "e \<in> set as \<union> set (b # bs)" for e
        using that True bs.prems(1,2) ok compare_trans [of "fst a" "fst b" "fst e"] by auto
      ultimately show ?thesis using True by simp
    next
      case False
      have "fst a \<noteq> fst b" using bs.prems(4) by auto
      then have ba: "Compare (fst b) (fst a) < 0" using compare_total [OF ok(1,2)] False by blast
      have "sorted_wrt (\<lambda>a b. Compare (fst a) (fst b) < 0) (merge_entries Compare (a # as) bs)"
        using bs.prems by (intro bs.IH) auto
      moreover have "Compare (fst b) (fst e) < 0" if "e \<in> set (a # as) \<union> set bs" for e
        using that ba bs.prems(1,2) ok compare_trans [of "fst b" "fst a" "fst e"] by auto
      ultimately show ?thesis using False by simp
    qed
  qed simp
qed simp

lemma sorted_merge_all:
  "mergeable Compare ok kvss \<Longrightarrow> sorted_wrt (\<lambda>a b. Compare (fst a) (fst b) < 0) (merge_all Compare kvss)"
proof (induction kvss)
  case (Cons kvs kvss)
  have "fst ` set kvs \<inter> fst ` set (merge_all Compare kvss) = {}"
    using Cons.prems by (simp add: mergeable_def set_merge_all image_UN Int_UN_distrib)
  moreover have "\<forall>kv\<in>set kvs \<union> set (merge_all Compare kvss). ok (fst kv)" using Cons.prems by (auto simp: mergeable_def set_merge_all)
  moreover have "mergeable Compare ok kvss" using Cons.prems by (simp add: mergeable_def)
  ultimately show ?case using Cons.IH Cons.prems sorted_merge_entries by (simp add: merge_all_def mergeable_def)
qed (simp add: merge_all_def)

lemma mergeable_merging:
  assumes m: "mergeable Compare ok kvss" and c: "\<And>j. j < length kvss \<Longrightarrow> sorted_iterator I Compare ok (kvss ! j) (invs j) (ats j)"
  shows "merging Compare ok I kvss (merge_all Compare kvss) invs ats"
proof (intro merging.intro merging_axioms.intro comparator_axioms c)
  show "sorted_wrt (\<lambda>a b. Compare (fst a) (fst b) < 0) (merge_all Compare kvss)" by (rule sorted_merge_all [OF m])
  show "set (kvss ! i) \<inter> set (kvss ! j) = {}" if "i < j" "j < length kvss" for i j
    using sorted_wrt_nth_less [of "\<lambda>as bs. fst ` set as \<inter> fst ` set bs = {}" kvss i j] m that by (auto simp: mergeable_def)
qed (simp, rule set_merge_all)

end

text \<open>Iterators over blocks with different keys.\<close>

definition blocks_to_merge :: "(slice \<times> slice) list list \<Rightarrow> (slice \<times> slice) list list" where
  "blocks_to_merge kvss = (if mergeable BytewiseComparator_Compare (\<lambda>_. True) kvss then kvss else [])"

interpretation merged_blocks: merging BytewiseComparator_Compare "\<lambda>_. True" "BlockIterator BytewiseComparator_Compare" "blocks_to_merge kvss"
  "merge_all BytewiseComparator_Compare (blocks_to_merge kvss)" "\<lambda>j. blk_inv (blocks_to_merge kvss ! j)"
  "\<lambda>j. blk_at (blocks_to_merge kvss ! j)" for kvss
proof (rule bytewise.mergeable_merging)
  show m: "mergeable BytewiseComparator_Compare (\<lambda>_. True) (blocks_to_merge kvss)" by (simp add: blocks_to_merge_def mergeable_def)
  fix j assume "j < length (blocks_to_merge kvss)"
  then have "sorted_wrt (\<lambda>a b. BytewiseComparator_Compare (fst a) (fst b) < 0) (blocks_to_merge kvss ! j)" using m by (simp add: mergeable_def)
  then show "sorted_iterator (BlockIterator BytewiseComparator_Compare) BytewiseComparator_Compare (\<lambda>_. True) (blocks_to_merge kvss ! j)
      (blk_inv (blocks_to_merge kvss ! j)) (blk_at (blocks_to_merge kvss ! j))"
    by (rule bytewise.block_entries_iterator) simp
qed

subsection \<open>Properties\<close>

text \<open>
  C7: A merging iterator shows the merged entries of its children. For children that keep the iterator
  contract on sorted lists with no key in two of them, \<open>NewMergingIterator\<close> yields an iterator that keeps the
  whole contract on the merged list: \<open>Seek\<close>, \<open>SeekToFirst\<close> and \<open>SeekToLast\<close> position it, \<open>Next\<close> and \<open>Prev\<close> move it by
  one entry, in any order of calls, for any number of children.
\<close>

theorem merging_iterator_contract:
  assumes "comparator cmp ok" "mergeable cmp ok kvss" "length children = length kvss"
    and "\<forall>j<length kvss. sorted_iterator I cmp ok (kvss ! j) (invs j) (ats j) \<and> invs j (children ! j)"
  shows "set (merge_all cmp kvss) = \<Union> (set ` set kvss) \<and>
    (\<exists>inv at. inv (NewMergingIterator I children) \<and>
      sorted_iterator (AnyMergingIterator_class I cmp) cmp ok (merge_all cmp kvss) inv at)"
proof -
  have m: "merging cmp ok I kvss (merge_all cmp kvss) invs ats"
    by (rule comparator.mergeable_merging [OF assms(1,2)]) (use assms(4) in blast)
  have "\<forall>j<length kvss. invs j (children ! j)" using assms(4) by blast
  then show ?thesis by (intro conjI set_merge_all merging.any_merging_iterator [OF m assms(3)])
qed

theorem merging_iterator_contract_witness:
  "scan (AnyMergingIterator_class (BlockIterator BytewiseComparator_Compare) BytewiseComparator_Compare)
     (NewMergingIterator (BlockIterator BytewiseComparator_Compare)
       [Block_NewIterator (Block_new (build_block 2 [([97], [1]), ([99], [])])), Block_NewIterator (Block_new (build_block 2 [([98], [2])]))]) =
   Some [([97], [1]), ([98], [2]), ([99], [])]"
proof -
  let ?a = "[([97], [1]), ([99], [])] :: (slice \<times> slice) list" and ?b = "[([98], [2])] :: (slice \<times> slice) list"
  let ?I = "BlockIterator BytewiseComparator_Compare"
  have len: "length (build_block 2 ?a) < 2 ^ 32" "length (build_block 2 ?b) < 2 ^ 32"
    by (simp_all add: build_block_def BlockBuilder_Finish_def BlockBuilder_new_def BlockBuilder_Add_def PutVarint32_def
        PutFixed32_def EncodeVarint32_def Let_def)
  have srt: "sorted_wrt (\<lambda>a b. BytewiseComparator_Compare (fst a) (fst b) < 0) ?a" "sorted_wrt (\<lambda>a b. BytewiseComparator_Compare (fst a) (fst b) < 0) ?b"
    by (simp_all add: BytewiseComparator_Compare_def Slice_compare_def)
  obtain ia aa where a: "ia (Block_NewIterator (Block_new (build_block 2 ?a)))" "sorted_iterator ?I BytewiseComparator_Compare (\<lambda>_. True) ?a ia aa"
    using bytewise.build_block_iterator [of 2 ?a] srt len by auto
  obtain ib ab where b: "ib (Block_NewIterator (Block_new (build_block 2 ?b)))" "sorted_iterator ?I BytewiseComparator_Compare (\<lambda>_. True) ?b ib ab"
    using bytewise.build_block_iterator [of 2 ?b] srt len by auto
  have m: "mergeable BytewiseComparator_Compare (\<lambda>_. True) [?a, ?b]" using srt by (simp add: mergeable_def)
  have e: "merge_all BytewiseComparator_Compare [?a, ?b] = [([97], [1]), ([98], [2]), ([99], [])]"
    by (simp add: merge_all_def BytewiseComparator_Compare_def Slice_compare_def)
  have c: "\<forall>j<length [?a, ?b]. sorted_iterator ?I BytewiseComparator_Compare (\<lambda>_. True) ([?a, ?b] ! j) (if j = 0 then ia else ib) (if j = 0 then aa else ab) \<and>
      (if j = 0 then ia else ib) ([Block_NewIterator (Block_new (build_block 2 ?a)), Block_NewIterator (Block_new (build_block 2 ?b))] ! j)"
    using a b by (simp add: less_Suc_eq)
  have l: "length [Block_NewIterator (Block_new (build_block 2 ?a)), Block_NewIterator (Block_new (build_block 2 ?b))] = length [?a, ?b]" by simp
  show ?thesis
    using merging_iterator_contract [OF bytewise.comparator_axioms m l c, unfolded e] by (elim conjE exE) (rule sorted_iterator.scan_all)
qed

end
