(* ===== verification/DBIter.thy ===== *)
theory DBIter
  imports Merger Memtable
begin

text \<open>
  \<open>DBIter\<close> (\<open>db/db_iter.cc\<close>), the iterator a user sees: it shows, of the internal entries an iterator of class \<open>I\<close>
  yields, the newest visible one of each user key unless that is a deletion. The calls of
  \<open>RecordReadSample\<close> on the database are recorded in \<open>di_samples\<close>.
\<close>

subsection \<open>The iterator\<close>

definition kReadBytesPeriod :: nat where "kReadBytesPeriod = 1048576"

record 's DBIter =
  di_iter :: 's
  di_sequence :: SequenceNumber
  di_status :: Status
  di_saved_key :: bytes
  di_saved_value :: bytes
  di_direction :: Direction
  di_valid :: bool
  di_rnd :: u32
  di_bytes_until_read_sampling :: nat
  di_samples :: "slice list"

definition RandomCompactionPeriod :: "u32 \<Rightarrow> u32 \<times> nat" where
  "RandomCompactionPeriod seed = (let (seed, n) = Random_Uniform seed (2 * kReadBytesPeriod) in (seed, unat n))"

definition NewDBIterator :: "'s \<Rightarrow> SequenceNumber \<Rightarrow> u32 \<Rightarrow> 's DBIter" where
  "NewDBIterator internal_iter s seed =
     (let (seed, n) = RandomCompactionPeriod (Random seed)
      in \<lparr>di_iter = internal_iter, di_sequence = s, di_status = OK, di_saved_key = [], di_saved_value = [],
          di_direction = kForward, di_valid = False, di_rnd = seed, di_bytes_until_read_sampling = n, di_samples = []\<rparr>)"

partial_function (option) read_sampling :: "slice \<Rightarrow> nat \<Rightarrow> 's DBIter \<Rightarrow> 's DBIter option" where
  "read_sampling k bytes_read it =
     (if di_bytes_until_read_sampling it < bytes_read then
        let (seed, n) = RandomCompactionPeriod (di_rnd it)
        in read_sampling k bytes_read
             (it\<lparr>di_rnd := seed, di_bytes_until_read_sampling := di_bytes_until_read_sampling it + n,
                 di_samples := di_samples it @ [k]\<rparr>)
      else Some it)"

definition ParseKey :: "'s Iterator \<Rightarrow> 's DBIter \<Rightarrow> (ParsedInternalKey option \<times> 's DBIter) option" where
  "ParseKey I it = do {
     let k = it_key I (di_iter it);
     let bytes_read = length k + length (it_value I (di_iter it));
     it \<leftarrow> read_sampling k bytes_read it;
     let it = it\<lparr>di_bytes_until_read_sampling := di_bytes_until_read_sampling it - bytes_read\<rparr>;
     Some (case ParseInternalKey k of
             None \<Rightarrow> (None, it\<lparr>di_status := Corruption (str ''corrupted internal key in DBIter'') []\<rparr>)
           | Some ikey \<Rightarrow> (Some ikey, it))
   }"

text \<open>
  What \<open>FindNextUserEntry\<close> makes of an entry: it is the one to show, and the new values of \<open>skipping\<close> and of
  \<open>*skip\<close>, which is \<open>saved_key_\<close> in every call.
\<close>

definition next_entry :: "(slice \<Rightarrow> slice \<Rightarrow> int) \<Rightarrow> SequenceNumber \<Rightarrow> ParsedInternalKey option \<Rightarrow> bool \<Rightarrow> bytes \<Rightarrow> bool \<times> bool \<times> bytes" where
  "next_entry cmp s ikey skipping skip =
     (case ikey of
        None \<Rightarrow> (False, skipping, skip)
      | Some k \<Rightarrow>
          if sequence k \<le> s then
            (case vtype k of
               kTypeDeletion \<Rightarrow> (False, True, user_key k)
             | kTypeValue \<Rightarrow>
                 if skipping \<and> cmp (user_key k) skip \<le> 0 then (False, skipping, skip) else (True, skipping, []))
          else (False, skipping, skip))"

partial_function (option) FindNextUserEntry :: "'s Iterator \<Rightarrow> (slice \<Rightarrow> slice \<Rightarrow> int) \<Rightarrow> 's DBIter \<Rightarrow> bool \<Rightarrow> 's DBIter option" where
  "FindNextUserEntry I cmp it skipping = do {
     (ikey, it) \<leftarrow> ParseKey I it;
     let (found, skipping, skip) = next_entry cmp (di_sequence it) ikey skipping (di_saved_key it);
     let it = it\<lparr>di_saved_key := skip\<rparr>;
     if found then Some (it\<lparr>di_valid := True\<rparr>)
     else do {
       i \<leftarrow> it_Next I (di_iter it);
       if it_Valid I i then FindNextUserEntry I cmp (it\<lparr>di_iter := i\<rparr>) skipping
       else Some (it\<lparr>di_iter := i, di_saved_key := [], di_valid := False\<rparr>)
     }
   }"

definition DBIter_Next :: "'s Iterator \<Rightarrow> (slice \<Rightarrow> slice \<Rightarrow> int) \<Rightarrow> 's DBIter \<Rightarrow> 's DBIter option" where
  "DBIter_Next I cmp it = do {
     it \<leftarrow> (if di_direction it = kReverse then do {
               i \<leftarrow> (if \<not> it_Valid I (di_iter it) then it_SeekToFirst I (di_iter it) else it_Next I (di_iter it));
               Some (it\<lparr>di_direction := kForward, di_iter := i\<rparr>)
             } else do {
               i \<leftarrow> it_Next I (di_iter it);
               Some (it\<lparr>di_saved_key := ExtractUserKey (it_key I (di_iter it)), di_iter := i\<rparr>)
             });
     if \<not> it_Valid I (di_iter it) then Some (it\<lparr>di_valid := False, di_saved_key := []\<rparr>)
     else FindNextUserEntry I cmp it True
   }"

text \<open>
  The loop of \<open>FindPrevUserEntry\<close>: what becomes of an entry, whether the loop ends at it and the new values of
  \<open>value_type\<close>, \<open>saved_key_\<close> and \<open>saved_value_\<close>.
\<close>

definition prev_entry :: "(slice \<Rightarrow> slice \<Rightarrow> int) \<Rightarrow> SequenceNumber \<Rightarrow> ParsedInternalKey option \<Rightarrow> slice \<Rightarrow> slice \<Rightarrow>
    ValueType \<Rightarrow> bytes \<Rightarrow> bytes \<Rightarrow> bool \<times> ValueType \<times> bytes \<times> bytes" where
  "prev_entry cmp s ikey raw_key raw_value value_type saved_key saved_value =
     (case ikey of
        None \<Rightarrow> (False, value_type, saved_key, saved_value)
      | Some k \<Rightarrow>
          if sequence k \<le> s then
            if value_type \<noteq> kTypeDeletion \<and> cmp (user_key k) saved_key < 0
            then (True, value_type, saved_key, saved_value)
            else if vtype k = kTypeDeletion then (False, kTypeDeletion, [], [])
            else (False, vtype k, ExtractUserKey raw_key, raw_value)
          else (False, value_type, saved_key, saved_value))"

partial_function (option) FindPrev_loop :: "'s Iterator \<Rightarrow> (slice \<Rightarrow> slice \<Rightarrow> int) \<Rightarrow> 's DBIter \<Rightarrow> ValueType \<Rightarrow> (ValueType \<times> 's DBIter) option" where
  "FindPrev_loop I cmp it value_type = do {
     (ikey, it) \<leftarrow> ParseKey I it;
     let (stop, value_type, saved_key, saved_value) =
       prev_entry cmp (di_sequence it) ikey (it_key I (di_iter it)) (it_value I (di_iter it)) value_type (di_saved_key it) (di_saved_value it);
     let it = it\<lparr>di_saved_key := saved_key, di_saved_value := saved_value\<rparr>;
     if stop then Some (value_type, it)
     else do {
       i \<leftarrow> it_Prev I (di_iter it);
       if it_Valid I i then FindPrev_loop I cmp (it\<lparr>di_iter := i\<rparr>) value_type
       else Some (value_type, it\<lparr>di_iter := i\<rparr>)
     }
   }"

definition FindPrevUserEntry :: "'s Iterator \<Rightarrow> (slice \<Rightarrow> slice \<Rightarrow> int) \<Rightarrow> 's DBIter \<Rightarrow> 's DBIter option" where
  "FindPrevUserEntry I cmp it = do {
     (value_type, it) \<leftarrow> (if it_Valid I (di_iter it) then FindPrev_loop I cmp it kTypeDeletion else Some (kTypeDeletion, it));
     Some (if value_type = kTypeDeletion
           then it\<lparr>di_valid := False, di_saved_key := [], di_saved_value := [], di_direction := kForward\<rparr>
           else it\<lparr>di_valid := True\<rparr>)
   }"

text \<open>The loop of \<open>Prev\<close> that leaves the entries of \<open>saved_key_\<close>; \<open>False\<close> if there is nothing before them.\<close>

partial_function (option) scan_back :: "'s Iterator \<Rightarrow> (slice \<Rightarrow> slice \<Rightarrow> int) \<Rightarrow> 's \<Rightarrow> bytes \<Rightarrow> (bool \<times> 's) option" where
  "scan_back I cmp i saved_key = do {
     i \<leftarrow> it_Prev I i;
     if \<not> it_Valid I i then Some (False, i)
     else if cmp (ExtractUserKey (it_key I i)) saved_key < 0 then Some (True, i)
     else scan_back I cmp i saved_key
   }"

definition DBIter_Prev :: "'s Iterator \<Rightarrow> (slice \<Rightarrow> slice \<Rightarrow> int) \<Rightarrow> 's DBIter \<Rightarrow> 's DBIter option" where
  "DBIter_Prev I cmp it =
     (if di_direction it = kForward then do {
        let saved_key = ExtractUserKey (it_key I (di_iter it));
        (found, i) \<leftarrow> scan_back I cmp (di_iter it) saved_key;
        if \<not> found then Some (it\<lparr>di_iter := i, di_valid := False, di_saved_key := [], di_saved_value := []\<rparr>)
        else FindPrevUserEntry I cmp (it\<lparr>di_iter := i, di_saved_key := saved_key, di_direction := kReverse\<rparr>)
      } else FindPrevUserEntry I cmp it)"

definition DBIter_Seek :: "'s Iterator \<Rightarrow> (slice \<Rightarrow> slice \<Rightarrow> int) \<Rightarrow> 's DBIter \<Rightarrow> slice \<Rightarrow> 's DBIter option" where
  "DBIter_Seek I cmp it target = do {
     let saved_key = AppendInternalKey [] \<lparr>user_key = target, sequence = di_sequence it, vtype = kValueTypeForSeek\<rparr>;
     i \<leftarrow> it_Seek I (di_iter it) saved_key;
     let it = it\<lparr>di_direction := kForward, di_saved_value := [], di_saved_key := saved_key, di_iter := i\<rparr>;
     if it_Valid I i then FindNextUserEntry I cmp it False else Some (it\<lparr>di_valid := False\<rparr>)
   }"

definition DBIter_SeekToFirst :: "'s Iterator \<Rightarrow> (slice \<Rightarrow> slice \<Rightarrow> int) \<Rightarrow> 's DBIter \<Rightarrow> 's DBIter option" where
  "DBIter_SeekToFirst I cmp it = do {
     i \<leftarrow> it_SeekToFirst I (di_iter it);
     let it = it\<lparr>di_direction := kForward, di_saved_value := [], di_iter := i\<rparr>;
     if it_Valid I i then FindNextUserEntry I cmp it False else Some (it\<lparr>di_valid := False\<rparr>)
   }"

definition DBIter_SeekToLast :: "'s Iterator \<Rightarrow> (slice \<Rightarrow> slice \<Rightarrow> int) \<Rightarrow> 's DBIter \<Rightarrow> 's DBIter option" where
  "DBIter_SeekToLast I cmp it = do {
     i \<leftarrow> it_SeekToLast I (di_iter it);
     FindPrevUserEntry I cmp (it\<lparr>di_direction := kReverse, di_saved_value := [], di_iter := i\<rparr>)
   }"

definition DBIter_class :: "'s Iterator \<Rightarrow> (slice \<Rightarrow> slice \<Rightarrow> int) \<Rightarrow> 's DBIter Iterator" where
  "DBIter_class I cmp =
     \<lparr>it_Valid = di_valid,
      it_SeekToFirst = DBIter_SeekToFirst I cmp, it_SeekToLast = DBIter_SeekToLast I cmp, it_Seek = DBIter_Seek I cmp,
      it_Next = DBIter_Next I cmp, it_Prev = DBIter_Prev I cmp,
      it_key = \<lambda>it. if di_direction it = kForward then ExtractUserKey (it_key I (di_iter it)) else di_saved_key it,
      it_value = \<lambda>it. if di_direction it = kForward then it_value I (di_iter it) else di_saved_value it,
      it_status = \<lambda>it. if Status_ok (di_status it) then it_status I (di_iter it) else di_status it\<rparr>"

subsection \<open>What a user sees\<close>

text \<open>
  Of a list of internal entries the user sees, at a sequence number, each value that is visible and is
  the first visible entry of its user key.
\<close>

definition visible :: "SequenceNumber \<Rightarrow> slice \<times> slice \<Rightarrow> bool" where
  "visible s e \<longleftrightarrow> sequence (the (ParseInternalKey (fst e))) \<le> s"

definition shown :: "SequenceNumber \<Rightarrow> (slice \<times> slice) list \<Rightarrow> nat \<Rightarrow> bool" where
  "shown s K p \<longleftrightarrow> visible s (K ! p) \<and> vtype (the (ParseInternalKey (fst (K ! p)))) = kTypeValue \<and>
     (\<forall>r<p. visible s (K ! r) \<longrightarrow> ExtractUserKey (fst (K ! r)) \<noteq> ExtractUserKey (fst (K ! p)))"

definition db_view :: "SequenceNumber \<Rightarrow> (slice \<times> slice) list \<Rightarrow> (slice \<times> slice) list" where
  "db_view s K = map (\<lambda>p. (ExtractUserKey (fst (K ! p)), snd (K ! p))) (filter (shown s K) [0..<length K])"

subsection \<open>Sampling terminates\<close>

definition good_seed :: "u32 \<Rightarrow> bool" where
  "good_seed seed \<longleftrightarrow> 0 < unat seed \<and> unat seed < 2147483647"

lemma good_seed_Random [simp]: "good_seed (Random s)"
  using Random_range [of s] by (simp add: good_seed_def)

lemma Random_Next_good: "good_seed seed \<Longrightarrow> good_seed (Random_Next seed)"
  using Random_Next_nat [of seed] product_not_multiple [of "unat seed"] by (simp add: good_seed_def)

lemma RandomCompactionPeriod_eq:
  "RandomCompactionPeriod seed = (Random_Next seed, unat (Random_Next seed) mod 2097152)"
  by (simp add: RandomCompactionPeriod_def Random_Uniform_def Let_def kReadBytesPeriod_def unat_mod)

text \<open>Of two draws in a row at least one is positive.\<close>

lemma no_two_zero_periods:
  assumes g: "good_seed seed" and z: "unat (Random_Next seed) mod 2097152 = 0"
  shows "unat (Random_Next (Random_Next seed)) mod 2097152 \<noteq> 0"
proof -
  let ?x = "unat (Random_Next seed)"
  have x: "0 < ?x" "?x < 2147483647" using Random_Next_good [OF g] by (simp_all add: good_seed_def)
  obtain k where k: "?x = 2097152 * k" using z by (auto simp: mod_eq_0_iff_dvd)
  have kb: "1 \<le> k" "k \<le> 1023" using x k by auto
  define a where "a = 16807 * k div 1024"
  define b where "b = 16807 * k mod 1024"
  have y: "16807 * k = a * 1024 + b" and b: "b < 1024" by (simp_all add: a_def b_def)
  have a: "16 \<le> a" "a \<le> 16790" using kb by (simp_all add: a_def)
  have "?x * 16807 = 2097152 * (16807 * k)" using k by simp
  also have "\<dots> = a * 2147483647 + (a + b * 2097152)" unfolding y by simp
  finally have "?x * 16807 mod 2147483647 = (a + b * 2097152) mod 2147483647" by (simp only: mod_mult_self3)
  also have "\<dots> = a + b * 2097152" using a b by simp
  finally have "unat (Random_Next (Random_Next seed)) = a + b * 2097152" using Random_Next_nat [OF x] by simp
  then show ?thesis using a by simp
qed

text \<open>Sampling changes nothing but its own state.\<close>

definition sampled :: "'s DBIter \<Rightarrow> 's DBIter \<Rightarrow> bool" where
  "sampled it it' \<longleftrightarrow> good_seed (di_rnd it') \<and>
     it' = it\<lparr>di_rnd := di_rnd it', di_bytes_until_read_sampling := di_bytes_until_read_sampling it', di_samples := di_samples it'\<rparr>"

lemma sampled_simps:
  assumes "sampled it it'"
  shows "di_iter it' = di_iter it" "di_sequence it' = di_sequence it" "di_status it' = di_status it" "di_saved_key it' = di_saved_key it"
    "di_saved_value it' = di_saved_value it" "di_direction it' = di_direction it" "di_valid it' = di_valid it" "good_seed (di_rnd it')"
proof -
  from assms have e: "it' = it\<lparr>di_rnd := di_rnd it', di_bytes_until_read_sampling := di_bytes_until_read_sampling it', di_samples := di_samples it'\<rparr>"
    and "good_seed (di_rnd it')" by (simp_all add: sampled_def)
  show "di_iter it' = di_iter it" "di_sequence it' = di_sequence it" "di_status it' = di_status it" "di_saved_key it' = di_saved_key it"
    "di_saved_value it' = di_saved_value it" "di_direction it' = di_direction it" "di_valid it' = di_valid it"
    by (subst e, simp)+
  show "good_seed (di_rnd it')" by fact
qed

lemma sampled_bytes: "sampled it it' \<Longrightarrow> sampled it (it'\<lparr>di_bytes_until_read_sampling := n\<rparr>)"
  by (cases it; cases it') (simp add: sampled_def)

lemma read_sampling_ends:
  assumes "good_seed (di_rnd it)"
  shows "\<exists>it'. read_sampling k m it = Some it' \<and> sampled it it'"
  using assms
proof (induction "2 * (m - di_bytes_until_read_sampling it) + (if unat (Random_Next (di_rnd it)) mod 2097152 = 0 then 1 else 0 :: nat)"
    arbitrary: it rule: less_induct)
  case less
  show ?case
  proof (cases "di_bytes_until_read_sampling it < m")
    case True
    let ?d = "unat (Random_Next (di_rnd it)) mod 2097152"
    let ?it = "it\<lparr>di_rnd := Random_Next (di_rnd it), di_bytes_until_read_sampling := di_bytes_until_read_sampling it + ?d,
      di_samples := di_samples it @ [k]\<rparr>"
    have "2 * (m - di_bytes_until_read_sampling ?it) + (if unat (Random_Next (di_rnd ?it)) mod 2097152 = 0 then 1 else 0) <
        2 * (m - di_bytes_until_read_sampling it) + (if ?d = 0 then 1 else 0 :: nat)"
      using True no_two_zero_periods [OF less.prems] by (cases "?d = 0") auto
    from less.hyps [OF this] Random_Next_good [OF less.prems]
    obtain it' where "read_sampling k m ?it = Some it'" "sampled ?it it'" by auto
    then show ?thesis using True by (subst read_sampling.simps) (simp add: RandomCompactionPeriod_eq sampled_def)
  next
    case False
    then show ?thesis using less.prems by (subst read_sampling.simps) (simp add: sampled_def)
  qed
qed

lemma ParseKey_ends:
  assumes "good_seed (di_rnd it)" "ParseInternalKey (it_key I (di_iter it)) = Some ikey"
  shows "\<exists>it'. ParseKey I it = Some (Some ikey, it') \<and> sampled it it'"
proof -
  obtain it' where "read_sampling (it_key I (di_iter it)) (length (it_key I (di_iter it)) + length (it_value I (di_iter it))) it = Some it'"
      "sampled it it'" using read_sampling_ends [OF assms(1)] by blast
  then show ?thesis using assms(2) by (simp add: ParseKey_def sampled_bytes)
qed

subsection \<open>The loops\<close>

lemma ParseInternalKey_parts:
  assumes "ParseInternalKey k = Some p"
  shows "user_key p = ExtractUserKey k" "sequence p = drop_bit 8 (internal_tag k)" "8 \<le> length k"
    "unat (internal_tag k) = 256 * unat (sequence p) + unat (ValueType_code (vtype p))"
proof -
  show u: "user_key p = ExtractUserKey k" "sequence p = drop_bit 8 (internal_tag k)" "8 \<le> length k"
    using assms by (auto simp: ParseInternalKey_def ExtractUserKey_def internal_tag_def Let_def split: if_splits)
  have "internal_tag k AND 0xff = ValueType_code (vtype p)"
    using assms by (auto simp: ParseInternalKey_def internal_tag_def Let_def word_le_nat_alt word_unat_eq_iff split: if_splits)
  then have "unat (internal_tag k) mod 256 = unat (ValueType_code (vtype p))" using unat_low_byte [of "internal_tag k"] by simp
  then show "unat (internal_tag k) = 256 * unat (sequence p) + unat (ValueType_code (vtype p))"
    using u(2) unat_drop_bit_div [of 8 "internal_tag k"] div_mult_mod_eq [of "unat (internal_tag k)" 256] by simp
qed

locale db_iterator = comparator Compare ok +
  internal: sorted_iterator I "InternalKeyComparator_Compare Compare" "internal_ok ok" K iinv iat
  for Compare ok and I :: "'s Iterator" and K iinv iat +
  fixes s :: SequenceNumber
  assumes seq_max: "s \<le> kMaxSequenceNumber"
    and parsed: "kv \<in> set K \<Longrightarrow> ParseInternalKey (fst kv) \<noteq> None"
begin

abbreviation uk :: "nat \<Rightarrow> slice" where "uk p \<equiv> ExtractUserKey (fst (K ! p))"
abbreviation vis :: "nat \<Rightarrow> bool" where "vis p \<equiv> visible s (K ! p)"
abbreviation vt :: "nat \<Rightarrow> ValueType" where "vt p \<equiv> vtype (the (ParseInternalKey (fst (K ! p))))"

lemma parse_at:
  assumes "p < length K"
  shows "\<exists>k. ParseInternalKey (fst (K ! p)) = Some k \<and> user_key k = uk p \<and> (sequence k \<le> s \<longleftrightarrow> vis p) \<and> vtype k = vt p"
proof -
  obtain k where "ParseInternalKey (fst (K ! p)) = Some k" using parsed [of "K ! p"] assms by auto
  then show ?thesis using ParseInternalKey_parts(1) by (simp add: visible_def)
qed

lemma uk_ok: "p < length K \<Longrightarrow> ok (uk p)"
  using internal.keys_ok [of "K ! p"] by simp

lemma uk_mono:
  assumes "p \<le> q" "q < length K"
  shows "Compare (uk p) (uk q) \<le> 0"
proof (cases "p = q")
  case True
  then show ?thesis using uk_ok assms by simp
next
  case False
  then have "InternalKeyComparator_Compare Compare (fst (K ! p)) (fst (K ! q)) < 0"
    using sorted_wrt_nth_less [OF internal.keys_sorted, of p q] assms by simp
  then show ?thesis
    using internal_compare_less [of "fst (K ! p)" "fst (K ! q)"] internal.keys_ok [of "K ! p"] internal.keys_ok [of "K ! q"] assms by auto
qed

lemma not_less_same:
  "p \<le> q \<Longrightarrow> q < length K \<Longrightarrow> \<not> Compare (uk p) (uk q) < 0 \<Longrightarrow> uk p = uk q"
  using uk_mono [of p q] compare_le_iff [of "uk p" "uk q"] uk_ok [of p] uk_ok [of q] by auto

lemma le_same: "p \<le> q \<Longrightarrow> q < length K \<Longrightarrow> Compare (uk q) (uk p) \<le> 0 \<Longrightarrow> uk p = uk q"
  using not_less_same [of p q] compare_antisym [of "uk q" "uk p"] uk_ok [of p] uk_ok [of q] by fastforce

lemma uk_between: "p \<le> r \<Longrightarrow> r \<le> q \<Longrightarrow> q < length K \<Longrightarrow> uk p = uk q \<Longrightarrow> uk r = uk q"
  using uk_mono [of p r] le_same [of r q] by simp

definition frame :: "'s DBIter \<Rightarrow> 's DBIter \<Rightarrow> bool" where
  "frame it it' \<longleftrightarrow> di_sequence it' = di_sequence it \<and> di_status it' = di_status it \<and> di_direction it' = di_direction it \<and> good_seed (di_rnd it')"

lemma sampled_frame: "sampled it it' \<Longrightarrow> frame it it'"
  using sampled_simps [of it it'] by (simp add: frame_def)

text \<open>
  The entries from \<open>p\<close> on that \<open>skip\<close> hides are those of a user key with a visible entry before \<open>p\<close>, and those
  of \<open>x\<close>.
\<close>

definition skip_ok :: "slice option \<Rightarrow> nat \<Rightarrow> bool \<Rightarrow> bytes \<Rightarrow> bool" where
  "skip_ok x p skipping skip \<longleftrightarrow> (\<forall>q. p \<le> q \<longrightarrow> q < length K \<longrightarrow> vis q \<longrightarrow>
     (skipping \<and> Compare (uk q) skip \<le> 0 \<longleftrightarrow> (\<exists>r<p. vis r \<and> uk r = uk q) \<or> x = Some (uk q)) \<and>
     (\<forall>y. x = Some y \<longrightarrow> ok y \<and> Compare y (uk q) \<le> 0))"

definition next_shown :: "slice option \<Rightarrow> nat \<Rightarrow> nat \<Rightarrow> bool" where
  "next_shown x p p' \<longleftrightarrow> p \<le> p' \<and> p' \<le> length K \<and> (\<forall>q. p \<le> q \<longrightarrow> q < p' \<longrightarrow> shown s K q \<longrightarrow> x = Some (uk q)) \<and>
     (p' < length K \<longrightarrow> shown s K p' \<and> x \<noteq> Some (uk p'))"

lemma skip_after:
  assumes "p < length K" "vis p" "\<forall>y. x = Some y \<longrightarrow> ok y \<and> Compare y (uk p) \<le> 0"
  shows "skip_ok x (Suc p) True (uk p)"
  unfolding skip_ok_def
proof (intro allI impI conjI)
  fix q assume q: "Suc p \<le> q" "q < length K" "vis q"
  have "(True \<and> Compare (uk q) (uk p) \<le> 0) \<longleftrightarrow> uk p = uk q" using le_same [of p q] q uk_ok [of p] assms(1) by auto
  moreover have "(\<exists>r<Suc p. vis r \<and> uk r = uk q) \<longleftrightarrow> uk p = uk q"
    using uk_between [of _ p q] q assms(2) by (auto simp: less_Suc_eq_le)
  moreover have "uk p = uk q" if "x = Some (uk q)"
    using assms(3) that le_same [of p q] compare_antisym uk_ok [of p] uk_ok [of q] q assms(1) by auto
  ultimately show "(True \<and> Compare (uk q) (uk p) \<le> 0) \<longleftrightarrow> (\<exists>r<Suc p. vis r \<and> uk r = uk q) \<or> x = Some (uk q)" by blast
next
  fix q y assume q: "Suc p \<le> q" "q < length K" "vis q" "x = Some y"
  show "ok y" using assms(3) q(4) by blast
  then show "Compare y (uk q) \<le> 0"
    using assms(3) q(4) uk_mono [of p q] q compare_le_trans [of y "uk p" "uk q"] uk_ok [of p] uk_ok [of q] assms(1) by simp
qed

lemma skip_step:
  assumes "skip_ok x p skipping skip" "p < length K" "vis p \<longrightarrow> skipping \<and> Compare (uk p) skip \<le> 0"
  shows "skip_ok x (Suc p) skipping skip"
  unfolding skip_ok_def
proof (intro allI impI conjI)
  fix q assume q: "Suc p \<le> q" "q < length K" "vis q"
  have "(skipping \<and> Compare (uk q) skip \<le> 0) \<longleftrightarrow> (\<exists>r<p. vis r \<and> uk r = uk q) \<or> x = Some (uk q)"
    using assms(1) q by (simp add: skip_ok_def)
  moreover have "(\<exists>r<Suc p. vis r \<and> uk r = uk q) \<longleftrightarrow> (\<exists>r<p. vis r \<and> uk r = uk q) \<or> vis p \<and> uk p = uk q"
    by (auto simp: less_Suc_eq)
  ultimately show "(skipping \<and> Compare (uk q) skip \<le> 0) \<longleftrightarrow> (\<exists>r<Suc p. vis r \<and> uk r = uk q) \<or> x = Some (uk q)"
    using assms(3) by (cases "vis p \<and> uk p = uk q") auto
next
  fix q y assume q: "Suc p \<le> q" "q < length K" "vis q" "x = Some y"
  then have "p \<le> q" by simp
  then show "ok y" "Compare y (uk q) \<le> 0" using assms(1) q unfolding skip_ok_def by blast+
qed

lemma next_shown_step: "next_shown x (Suc p) p' \<Longrightarrow> \<not> shown s K p \<or> x = Some (uk p) \<Longrightarrow> next_shown x p p'"
  unfolding next_shown_def by (metis Suc_leD Suc_leI le_neq_implies_less)

lemma rejected:
  assumes p: "p < length K" and sk: "skip_ok x p skipping skip"
    and k: "user_key k = uk p" "sequence k \<le> s \<longleftrightarrow> vis p" "vtype k = vt p"
    and e: "next_entry Compare s (Some k) skipping skip = (False, skipping', skip')"
  shows "(\<not> shown s K p \<or> x = Some (uk p)) \<and> skip_ok x (Suc p) skipping' skip'"
proof (cases "vis p")
  case False
  then show ?thesis using e k skip_step [OF sk p] by (simp add: next_entry_def shown_def)
next
  case True
  have y: "\<forall>y. x = Some y \<longrightarrow> ok y \<and> Compare y (uk p) \<le> 0" using sk p True unfolding skip_ok_def by blast
  show ?thesis
  proof (cases "vt p")
    case kTypeDeletion
    then show ?thesis using e k True skip_after [OF p True y] by (auto simp: next_entry_def shown_def)
  next
    case kTypeValue
    then have h: "skipping \<and> Compare (uk p) skip \<le> 0" and s: "skipping' = skipping" "skip' = skip"
      using e k True by (auto simp: next_entry_def split: if_splits)
    then have "(\<exists>r<p. vis r \<and> uk r = uk p) \<or> x = Some (uk p)" using sk p True unfolding skip_ok_def by blast
    then show ?thesis using skip_step [OF sk p] h s by (auto simp: shown_def)
  qed
qed

lemma FindNext_shown:
  assumes "iat (di_iter it) p" "p < length K" "good_seed (di_rnd it)" "di_sequence it = s" "skip_ok x p skipping (di_saved_key it)"
  shows "\<exists>it' p'. FindNextUserEntry I Compare it skipping = Some it' \<and> next_shown x p p' \<and> iat (di_iter it') p' \<and>
    (di_valid it' \<longleftrightarrow> p' < length K) \<and> frame it it'"
  using assms
proof (induction "length K - p" arbitrary: it p skipping)
  case (Suc n)
  note at = Suc.prems(1) and p = Suc.prems(2)
  obtain k where k: "ParseInternalKey (fst (K ! p)) = Some k" "user_key k = uk p" "sequence k \<le> s \<longleftrightarrow> vis p" "vtype k = vt p"
    using parse_at [OF p] by blast
  obtain it1 where it1: "ParseKey I it = Some (Some k, it1)" "sampled it it1"
    using ParseKey_ends [OF Suc.prems(3), of I k] internal.at_key [OF at p] k(1) by auto
  note sam = sampled_simps [OF it1(2)]
  obtain found skipping' skip' where e: "next_entry Compare s (Some k) skipping (di_saved_key it) = (found, skipping', skip')" by (metis prod_cases3)
  show ?case
  proof (cases found)
    case True
    then have v: "vis p" "vt p = kTypeValue" "\<not> (skipping \<and> Compare (uk p) (di_saved_key it) \<le> 0)"
      using e k by (auto simp: next_entry_def split: if_splits ValueType.splits)
    then have "\<not> (\<exists>r<p. vis r \<and> uk r = uk p)" "x \<noteq> Some (uk p)" using Suc.prems(5) p unfolding skip_ok_def by blast+
    then have "next_shown x p p" using v p by (auto simp: next_shown_def shown_def)
    moreover have "FindNextUserEntry I Compare it skipping = Some (it1\<lparr>di_saved_key := skip', di_valid := True\<rparr>)"
      using it1(1) e True sam Suc.prems(4) by (subst FindNextUserEntry.simps) simp
    ultimately show ?thesis using sam at p by (intro exI [of _ "it1\<lparr>di_saved_key := skip', di_valid := True\<rparr>"] exI [of _ p]) (simp add: frame_def)
  next
    case False
    have "(\<not> shown s K p \<or> x = Some (uk p)) \<and> skip_ok x (Suc p) skipping' skip'"
      by (rule rejected [OF p Suc.prems(5) k(2-4)]) (use e False in simp)
    then have n: "\<not> shown s K p \<or> x = Some (uk p)" and sk: "skip_ok x (Suc p) skipping' skip'" by blast+
    obtain i where i: "it_Next I (di_iter it) = Some i" "iat i (Suc p)" using internal.at_next [OF at p] by auto
    show ?thesis
    proof (cases "Suc p < length K")
      case True
      let ?it = "it1\<lparr>di_saved_key := skip', di_iter := i\<rparr>"
      have "\<exists>it' p'. FindNextUserEntry I Compare ?it skipping' = Some it' \<and> next_shown x (Suc p) p' \<and> iat (di_iter it') p' \<and>
          (di_valid it' \<longleftrightarrow> p' < length K) \<and> frame ?it it'"
        using Suc.hyps(2) i(2) True sam Suc.prems(4) sk by (intro Suc.hyps(1)) simp_all
      moreover have "FindNextUserEntry I Compare it skipping = FindNextUserEntry I Compare ?it skipping'"
        using it1(1) e False sam Suc.prems(4) i True internal.at_valid [OF i(2)] by (subst FindNextUserEntry.simps) simp
      ultimately show ?thesis using next_shown_step [OF _ n] sam by (auto simp: frame_def)
    next
      case end_: False
      then have "next_shown x p (Suc p)" using n p by (auto simp: next_shown_def less_Suc_eq_le)
      moreover have "FindNextUserEntry I Compare it skipping = Some (it1\<lparr>di_saved_key := [], di_iter := i, di_valid := False\<rparr>)"
        using it1(1) e False sam Suc.prems(4) i end_ internal.at_valid [OF i(2)] by (subst FindNextUserEntry.simps) simp
      ultimately show ?thesis using i(2) end_ sam by (auto simp: frame_def)
    qed
  qed
qed simp

text \<open>
  The entries from \<open>lo\<close> to \<open>hi\<close> have been passed on the way back: either none of them is to be shown, or the
  last visible one, \<open>c\<close>, is a value, is saved, and none after it is to be shown.
\<close>

definition passed :: "nat \<Rightarrow> nat \<Rightarrow> ValueType \<Rightarrow> bytes \<Rightarrow> bytes \<Rightarrow> bool" where
  "passed hi lo value_type saved_key saved_value \<longleftrightarrow>
     (if value_type = kTypeDeletion then \<forall>q. lo \<le> q \<longrightarrow> q \<le> hi \<longrightarrow> \<not> shown s K q
      else \<exists>c. lo \<le> c \<and> c \<le> hi \<and> vis c \<and> vt c = kTypeValue \<and> saved_key = uk c \<and> saved_value = snd (K ! c) \<and>
             (\<forall>q. lo \<le> q \<longrightarrow> q < c \<longrightarrow> \<not> vis q) \<and> (\<forall>q. c < q \<longrightarrow> q \<le> hi \<longrightarrow> \<not> shown s K q))"

text \<open>The iterator stands at the last visible entry before \<open>c\<close>.\<close>

definition rests :: "nat \<Rightarrow> 's \<Rightarrow> bool" where
  "rests c i \<longleftrightarrow> (\<exists>r<c. iat i r \<and> vis r \<and> (\<forall>q. r < q \<longrightarrow> q < c \<longrightarrow> \<not> vis q)) \<or> iat i (length K) \<and> (\<forall>q<c. \<not> vis q)"

definition prev_shown :: "nat \<Rightarrow> ValueType \<Rightarrow> 's DBIter \<Rightarrow> bool" where
  "prev_shown hi value_type it \<longleftrightarrow>
     (if value_type = kTypeDeletion then iinv (di_iter it) \<and> (\<forall>q\<le>hi. \<not> shown s K q)
      else \<exists>c\<le>hi. shown s K c \<and> di_saved_key it = uk c \<and> di_saved_value it = snd (K ! c) \<and> rests c (di_iter it) \<and>
             (\<forall>q. c < q \<longrightarrow> q \<le> hi \<longrightarrow> \<not> shown s K q))"

lemma passed_step:
  assumes p: "p < length K" and hi: "p \<le> hi" "hi < length K" and pa: "passed hi (Suc p) value_type sk sv"
    and k: "user_key k = uk p" "sequence k \<le> s \<longleftrightarrow> vis p" "vtype k = vt p"
    and e: "prev_entry Compare s (Some k) (fst (K ! p)) (snd (K ! p)) value_type sk sv = (False, vt', sk', sv')"
  shows "passed hi p vt' sk' sv'"
proof (cases "vis p")
  case False
  then have v: "vt' = value_type" "sk' = sk" "sv' = sv" using e k by (simp_all add: prev_entry_def)
  have "\<not> shown s K p" using False by (simp add: shown_def)
  then have "\<not> shown s K q" if "p \<le> q" "q \<le> hi" "\<forall>q. Suc p \<le> q \<longrightarrow> q \<le> hi \<longrightarrow> \<not> shown s K q" for q using that by (cases "q = p") auto
  moreover have "\<not> vis q" if "p \<le> q" "q < c" "\<forall>q. Suc p \<le> q \<longrightarrow> q < c \<longrightarrow> \<not> vis q" for q c using that False by (cases "q = p") auto
  ultimately show ?thesis using pa unfolding passed_def v by (metis Suc_leD)
next
  case True
  have n: "\<not> shown s K q" if q: "p < q" "q \<le> hi" for q
  proof (cases "value_type = kTypeDeletion")
    case True
    then show ?thesis using pa q by (simp add: passed_def)
  next
    case False
    then obtain c where c: "Suc p \<le> c" "c \<le> hi" "sk = uk c" "\<forall>q. Suc p \<le> q \<longrightarrow> q < c \<longrightarrow> \<not> vis q" "\<forall>q. c < q \<longrightarrow> q \<le> hi \<longrightarrow> \<not> shown s K q"
      using pa by (auto simp: passed_def)
    have "\<not> Compare (uk p) (uk c) < 0" using e k True False c(3) by (auto simp: prev_entry_def split: if_splits)
    then have same: "uk p = uk c" using not_less_same [of p c] c(1,2) hi(2) by simp
    show ?thesis
    proof (cases q c rule: linorder_cases)
      case less
      then show ?thesis using c(4) q by (simp add: shown_def)
    next
      case equal
      have "p < c" using c(1) by simp
      then show ?thesis using same \<open>vis p\<close> equal unfolding shown_def by blast
    next
      case greater
      then show ?thesis using c(5) q by simp
    qed
  qed
  show ?thesis
  proof (cases "vt p = kTypeDeletion")
    case d: True
    then have "vt' = kTypeDeletion" using e k True by (auto simp: prev_entry_def split: if_splits)
    moreover have "\<not> shown s K p" using d by (simp add: shown_def)
    ultimately show ?thesis using n by (auto simp: passed_def le_less)
  next
    case d: False
    then have "vt' = vt p" "sk' = uk p" "sv' = snd (K ! p)" using e k True by (auto simp: prev_entry_def split: if_splits)
    moreover have "vt p = kTypeValue" using d by (cases "vt p") auto
    ultimately show ?thesis using n hi(1) True by (auto simp: passed_def)
  qed
qed

lemma passed_stop:
  assumes p: "p < length K" and hi: "hi < length K" and pa: "passed hi (Suc p) value_type sk sv"
    and k: "user_key k = uk p" "sequence k \<le> s \<longleftrightarrow> vis p" "vtype k = vt p"
    and e: "prev_entry Compare s (Some k) (fst (K ! p)) (snd (K ! p)) value_type sk sv = (True, vt', sk', sv')" and at: "iat i p"
  shows "vt' = value_type \<and> sk' = sk \<and> sv' = sv \<and>
    (di_iter it = i \<and> di_saved_key it = sk \<and> di_saved_value it = sv \<longrightarrow> prev_shown hi value_type it)"
proof -
  have v: "vis p" "value_type \<noteq> kTypeDeletion" "Compare (uk p) sk < 0" and eq: "vt' = value_type" "sk' = sk" "sv' = sv"
    using e k by (auto simp: prev_entry_def split: if_splits)
  obtain c where c: "Suc p \<le> c" "c \<le> hi" "vis c" "vt c = kTypeValue" "sk = uk c" "sv = snd (K ! c)"
      "\<forall>q. Suc p \<le> q \<longrightarrow> q < c \<longrightarrow> \<not> vis q" "\<forall>q. c < q \<longrightarrow> q \<le> hi \<longrightarrow> \<not> shown s K q"
    using pa v(2) by (auto simp: passed_def)
  have "uk r \<noteq> uk c" if r: "r < c" "vis r" for r
  proof
    assume same: "uk r = uk c"
    have "r \<le> p" using c(7) r by (meson Suc_leI not_less)
    then have "uk p = uk c" using uk_between [of r p c] same c(1,2) hi by simp
    then show False using v(3) c(5) uk_ok [of c] c(2) hi by simp
  qed
  then have "shown s K c" using c(3,4) by (simp add: shown_def)
  moreover have "rests c i" unfolding rests_def
    by (intro disjI1 exI [of _ p]) (use at v(1) c(1,7) in auto)
  ultimately show ?thesis using eq v(2) c unfolding prev_shown_def by auto
qed

lemma passed_end:
  assumes "passed hi 0 value_type (di_saved_key it) (di_saved_value it)" "iat (di_iter it) (length K)"
  shows "prev_shown hi value_type it"
proof (cases "value_type = kTypeDeletion")
  case True
  then show ?thesis using assms internal.at_inv [OF assms(2)] by (simp add: passed_def prev_shown_def)
next
  case False
  then obtain c where c: "c \<le> hi" "vis c" "vt c = kTypeValue" "di_saved_key it = uk c" "di_saved_value it = snd (K ! c)" "\<forall>q<c. \<not> vis q"
      "\<forall>q. c < q \<longrightarrow> q \<le> hi \<longrightarrow> \<not> shown s K q"
    using assms(1) by (auto simp: passed_def)
  then have "shown s K c" "rests c (di_iter it)" using assms(2) by (auto simp: shown_def rests_def)
  then show ?thesis using False c unfolding prev_shown_def by auto
qed

lemma FindPrev_shown:
  assumes "iat (di_iter it) p" "p < length K" "good_seed (di_rnd it)" "di_sequence it = s" "p \<le> hi" "hi < length K"
    "passed hi (Suc p) value_type (di_saved_key it) (di_saved_value it)"
  shows "\<exists>vt' it'. FindPrev_loop I Compare it value_type = Some (vt', it') \<and> prev_shown hi vt' it' \<and> frame it it'"
  using assms
proof (induction p arbitrary: it value_type rule: less_induct)
  case (less p)
  note at = less.prems(1) and p = less.prems(2) and hi = less.prems(5,6)
  obtain k where k: "ParseInternalKey (fst (K ! p)) = Some k" "user_key k = uk p" "sequence k \<le> s \<longleftrightarrow> vis p" "vtype k = vt p"
    using parse_at [OF p] by blast
  obtain it1 where it1: "ParseKey I it = Some (Some k, it1)" "sampled it it1"
    using ParseKey_ends [OF less.prems(3), of I k] internal.at_key [OF at p] k(1) by auto
  note sam = sampled_simps [OF it1(2)]
  obtain stop vt' sk' sv' where e: "prev_entry Compare s (Some k) (fst (K ! p)) (snd (K ! p)) value_type (di_saved_key it) (di_saved_value it) = (stop, vt', sk', sv')"
    by (metis prod_cases4)
  note kv = internal.at_key [OF at p] internal.at_value [OF at p]
  let ?it = "it1\<lparr>di_saved_key := sk', di_saved_value := sv'\<rparr>"
  show ?case
  proof (cases stop)
    case True
    have "prev_shown hi vt' ?it"
      using passed_stop [OF p hi(2) less.prems(7) k(2-4) e [unfolded True [THEN eqTrueI]] at, of ?it] sam(1) by simp
    moreover have "FindPrev_loop I Compare it value_type = Some (vt', ?it)"
      using it1(1) e True sam less.prems(4) kv by (subst FindPrev_loop.simps) simp
    ultimately show ?thesis using sam by (auto simp: frame_def)
  next
    case False
    have pa: "passed hi p vt' sk' sv'" by (rule passed_step [OF p hi less.prems(7) k(2-4)]) (use e False in simp)
    obtain i where i: "it_Prev I (di_iter it) = Some i" "iat i (if p = 0 then length K else p - 1)" using internal.at_prev [OF at p] by blast
    show ?thesis
    proof (cases "p = 0")
      case True
      have "prev_shown hi vt' (?it\<lparr>di_iter := i\<rparr>)" using passed_end [of hi vt' "?it\<lparr>di_iter := i\<rparr>"] pa i(2) True by simp
      moreover have "FindPrev_loop I Compare it value_type = Some (vt', ?it\<lparr>di_iter := i\<rparr>)"
        using it1(1) e False sam less.prems(4) kv i True internal.at_valid [OF i(2)] by (subst FindPrev_loop.simps) simp
      ultimately show ?thesis using sam by (auto simp: frame_def)
    next
      case pos: False
      have v: "it_Valid I i" using internal.at_valid [OF i(2)] pos p by simp
      have "\<exists>vt'' it'. FindPrev_loop I Compare (?it\<lparr>di_iter := i\<rparr>) vt' = Some (vt'', it') \<and> prev_shown hi vt'' it' \<and> frame (?it\<lparr>di_iter := i\<rparr>) it'"
        using pos i(2) p sam less.prems(4) hi pa by (intro less.IH [of "p - 1"]) simp_all
      moreover have "FindPrev_loop I Compare it value_type = FindPrev_loop I Compare (?it\<lparr>di_iter := i\<rparr>) vt'"
        using it1(1) e False sam less.prems(4) kv i(1) v by (subst FindPrev_loop.simps) simp
      ultimately show ?thesis using sam by (auto simp: frame_def)
    qed
  qed
qed

end

subsection \<open>The contract\<close>

context db_iterator
begin

lemma scan_back_ends:
  assumes "iat i p" "p < length K"
  shows "\<exists>b i'. scan_back I Compare i k = Some (b, i') \<and>
    (if b then \<exists>p'<p. iat i' p' \<and> Compare (uk p') k < 0 \<and> (\<forall>q. p' < q \<longrightarrow> q < p \<longrightarrow> \<not> Compare (uk q) k < 0)
     else iat i' (length K) \<and> (\<forall>q<p. \<not> Compare (uk q) k < 0))"
  using assms
proof (induction p arbitrary: i)
  case 0
  then obtain i' where "it_Prev I i = Some i'" "iat i' (length K)" using internal.at_prev by fastforce
  then show ?case using internal.at_valid by (subst scan_back.simps) auto
next
  case (Suc p)
  then obtain i' where i': "it_Prev I i = Some i'" "iat i' p" using internal.at_prev [OF Suc.prems] by auto
  have p: "p < length K" using Suc.prems(2) by simp
  have v: "it_Valid I i'" "it_key I i' = fst (K ! p)" using internal.at_valid [OF i'(2)] internal.at_key [OF i'(2)] p by simp_all
  show ?case
  proof (cases "Compare (uk p) k < 0")
    case True
    have "scan_back I Compare i k = Some (True, i')" using i' v True by (subst scan_back.simps) simp
    moreover have "\<exists>p'<Suc p. iat i' p' \<and> Compare (uk p') k < 0 \<and> (\<forall>q. p' < q \<longrightarrow> q < Suc p \<longrightarrow> \<not> Compare (uk q) k < 0)"
      using i'(2) True by (intro exI [of _ p]) auto
    ultimately show ?thesis by (intro exI [of _ True] exI [of _ i']) simp
  next
    case False
    have e: "scan_back I Compare i k = scan_back I Compare i' k" using i' v False by (subst scan_back.simps) simp
    obtain b i'' where "scan_back I Compare i' k = Some (b, i'')" and r: "if b then \<exists>p'<p. iat i'' p' \<and> Compare (uk p') k < 0 \<and>
          (\<forall>q. p' < q \<longrightarrow> q < p \<longrightarrow> \<not> Compare (uk q) k < 0) else iat i'' (length K) \<and> (\<forall>q<p. \<not> Compare (uk q) k < 0)"
      using Suc.IH [OF i'(2) p] by blast
    moreover have "if b then \<exists>p'<Suc p. iat i'' p' \<and> Compare (uk p') k < 0 \<and>
          (\<forall>q. p' < q \<longrightarrow> q < Suc p \<longrightarrow> \<not> Compare (uk q) k < 0) else iat i'' (length K) \<and> (\<forall>q<Suc p. \<not> Compare (uk q) k < 0)"
      using r False by (cases b) (auto simp: less_Suc_eq)
    ultimately show ?thesis using e by (intro exI [of _ b] exI [of _ i'']) simp
  qed
qed

text \<open>The index in the view of the first shown entry at or after \<open>p\<close>.\<close>

definition idx :: "nat \<Rightarrow> nat" where
  "idx p = length (filter (shown s K) [0..<p])"

abbreviation V :: "(slice \<times> slice) list" where "V \<equiv> db_view s K"

lemma idx_0 [simp]: "idx 0 = 0"
  by (simp add: idx_def)

lemma idx_Suc: "idx (Suc p) = idx p + (if shown s K p then 1 else 0)"
  by (simp add: idx_def)

lemma length_V: "length V = idx (length K)"
  by (simp add: db_view_def idx_def)

lemma upt_split: "p \<le> n \<Longrightarrow> [0..<n] = [0..<p] @ [p..<n]"
  using upt_add_eq_append [of 0 p "n - p"] by simp

lemma idx_between: "p \<le> q \<Longrightarrow> idx q = idx p + length (filter (shown s K) [p..<q])"
  unfolding idx_def by (subst upt_split) simp_all

lemma idx_mono: "p \<le> q \<Longrightarrow> idx p \<le> idx q"
  by (simp add: idx_between)

lemma idx_none: "p \<le> q \<Longrightarrow> (\<And>r. p \<le> r \<Longrightarrow> r < q \<Longrightarrow> \<not> shown s K r) \<Longrightarrow> idx q = idx p"
  by (simp add: idx_between filter_empty_conv)

lemma V_nth:
  assumes "p < length K" "shown s K p"
  shows "idx p < length V" "V ! idx p = (uk p, snd (K ! p))"
proof -
  have "[0..<length K] = [0..<p] @ p # [Suc p..<length K]" using assms(1) upt_split [of p "length K"] upt_conv_Cons [of p "length K"] by simp
  then have "filter (shown s K) [0..<length K] = filter (shown s K) [0..<p] @ p # filter (shown s K) [Suc p..<length K]" using assms(2) by simp
  then show "idx p < length V" "V ! idx p = (uk p, snd (K ! p))"
    by (simp_all add: db_view_def idx_def nth_append)
qed

lemma V_pos: "i < length V \<Longrightarrow> \<exists>p<length K. shown s K p \<and> idx p = i"
proof -
  have "\<exists>p<n. shown s K p \<and> idx p = i" if "i < idx n" for n
    using that by (induction n) (auto simp: idx_Suc less_Suc_eq split: if_splits)
  then show "i < length V \<Longrightarrow> \<exists>p<length K. shown s K p \<and> idx p = i" by (simp add: length_V)
qed

lemma shown_unique: "shown s K p \<Longrightarrow> shown s K q \<Longrightarrow> uk p = uk q \<Longrightarrow> p = q"
  by (cases p q rule: linorder_cases) (auto simp: shown_def)

lemma shown_less:
  assumes "p < q" "q < length K" "shown s K p" "shown s K q"
  shows "Compare (uk p) (uk q) < 0"
proof (rule ccontr)
  assume "\<not> Compare (uk p) (uk q) < 0"
  then have "uk p = uk q" using not_less_same [of p q] assms(1,2) by simp
  then show False using shown_unique [OF assms(3,4)] assms(1) by simp
qed

lemma V_sorted: "sorted_wrt (\<lambda>a b. Compare (fst a) (fst b) < 0) V"
  unfolding sorted_wrt_iff_nth_less
proof (intro allI impI)
  fix i j assume ij: "i < j" "j < length V"
  obtain p q where p: "p < length K" "shown s K p" "idx p = i" and q: "q < length K" "shown s K q" "idx q = j"
    using V_pos [of i] V_pos [of j] ij by auto
  have "p < q" using idx_mono [of q p] ij(1) p(3) q(3) by linarith
  then show "Compare (fst (V ! i)) (fst (V ! j)) < 0"
    using shown_less [OF _ q(1) p(2) q(2)] V_nth(2) [OF p(1,2)] V_nth(2) [OF q(1,2)] p(3) q(3) by simp
qed

end

context db_iterator
begin

definition dinv :: "'s DBIter \<Rightarrow> bool" where
  "dinv it \<longleftrightarrow> iinv (di_iter it) \<and> good_seed (di_rnd it) \<and> di_sequence it = s \<and> di_status it = OK"

text \<open>The iterator shows the entry at position \<open>c\<close> of the internal entries.\<close>

definition shows_at :: "'s DBIter \<Rightarrow> nat \<Rightarrow> bool" where
  "shows_at it c \<longleftrightarrow> c < length K \<and> shown s K c \<and> di_valid it \<and>
     (if di_direction it = kForward then iat (di_iter it) c
      else di_saved_key it = uk c \<and> di_saved_value it = snd (K ! c) \<and> rests c (di_iter it))"

definition dat :: "'s DBIter \<Rightarrow> nat \<Rightarrow> bool" where
  "dat it i \<longleftrightarrow> dinv it \<and> ((\<exists>c. shows_at it c \<and> idx c = i) \<or> i = length V \<and> \<not> di_valid it)"

lemma dat_invalid: "dinv it \<Longrightarrow> \<not> di_valid it \<Longrightarrow> dat it (length V)"
  by (simp add: dat_def)

lemma dat_cases:
  assumes "dat it i" "i < length V"
  obtains c where "dinv it" "shows_at it c" "idx c = i"
  using assms by (auto simp: dat_def)

lemma rests_inv: "rests c i \<Longrightarrow> iinv i"
  using internal.at_inv unfolding rests_def by blast

lemma FindNext_dat:
  assumes at: "iat (di_iter it) p" "p < length K" and d: "dinv it" "di_direction it = kForward" and sk: "skip_ok x p skipping (di_saved_key it)"
  shows "\<exists>it' p'. FindNextUserEntry I Compare it skipping = Some it' \<and> next_shown x p p' \<and> dat it' (idx p')"
proof -
  obtain it' p' where r: "FindNextUserEntry I Compare it skipping = Some it'" "next_shown x p p'" "iat (di_iter it') p'"
      "di_valid it' \<longleftrightarrow> p' < length K" "frame it it'"
    using FindNext_shown [OF at _ _ sk] d(1) by (auto simp: dinv_def)
  have d': "dinv it'" "di_direction it' = kForward" using r(3,5) d internal.at_inv [OF r(3)] by (simp_all add: dinv_def frame_def)
  have "dat it' (idx p')"
  proof (cases "p' < length K")
    case True
    then have "shows_at it' p'" using r d'(2) by (simp add: shows_at_def next_shown_def)
    then show ?thesis using d'(1) by (auto simp: dat_def)
  next
    case False
    then have "p' = length K" using r(2) by (simp add: next_shown_def)
    then show ?thesis using dat_invalid [OF d'(1)] r(4) by (simp add: length_V)
  qed
  then show ?thesis using r(1,2) by blast
qed

lemma next_shown_None: "next_shown None p p' \<Longrightarrow> idx p' = idx p"
  by (rule idx_none) (auto simp: next_shown_def)

lemma back_skip:
  assumes c: "c < length K" "shown s K c" and p: "p \<le> c" "\<forall>q. p \<le> q \<longrightarrow> q < c \<longrightarrow> \<not> vis q"
  shows "skip_ok (Some (uk c)) p True (uk c)"
  unfolding skip_ok_def
proof (intro allI impI)
  fix q assume q: "p \<le> q" "q < length K" "vis q"
  then have cq: "c \<le> q" using p(2) by (meson not_le)
  have "Compare (uk q) (uk c) \<le> 0 \<longleftrightarrow> uk c = uk q" using le_same [OF cq q(2)] uk_ok [OF c(1)] by auto
  moreover have "uk c = uk q" if "r < p" "uk r = uk q" for r using uk_between [of r c q] that cq p(1) q(2) by simp
  ultimately show "(True \<and> Compare (uk q) (uk c) \<le> 0 \<longleftrightarrow> (\<exists>r<p. vis r \<and> uk r = uk q) \<or> Some (uk c) = Some (uk q)) \<and>
      (\<forall>y. Some (uk c) = Some y \<longrightarrow> ok y \<and> Compare y (uk q) \<le> 0)"
    using uk_mono [OF cq q(2)] uk_ok [OF c(1)] by auto
qed

lemma back_next:
  assumes c: "c < length K" "shown s K c" and p: "p \<le> c" "\<forall>q. p \<le> q \<longrightarrow> q < c \<longrightarrow> \<not> vis q" and n: "next_shown (Some (uk c)) p p'"
  shows "idx p' = Suc (idx c)"
proof -
  have "p' \<noteq> c" using n c by (auto simp: next_shown_def)
  moreover have "\<not> p' < c" using n p(2) c(1) by (auto simp: next_shown_def shown_def)
  ultimately have cp: "Suc c \<le> p'" by simp
  have "idx p' = idx (Suc c)"
  proof (rule idx_none [OF cp])
    fix q assume q: "Suc c \<le> q" "q < p'"
    then have "shown s K q \<longrightarrow> uk c = uk q" using n p(1) by (simp add: next_shown_def)
    then show "\<not> shown s K q" using shown_unique [OF c(2), of q] q(1) by auto
  qed
  then show ?thesis using c(2) by (simp add: idx_Suc)
qed

lemma DBIter_Next_dat:
  assumes "dat it i" "i < length V"
  shows "\<exists>it'. DBIter_Next I Compare it = Some it' \<and> dat it' (i + 1)"
proof -
  obtain c where d: "dinv it" and c: "shows_at it c" "idx c = i" using dat_cases [OF assms] by blast
  then have cK: "c < length K" "shown s K c" and v: "vis c" by (simp_all add: shows_at_def shown_def)
  have i: "i + 1 = idx (Suc c)" using c cK(2) by (simp add: idx_Suc)
  show ?thesis
  proof (cases "di_direction it = kForward")
    case True
    then have at: "iat (di_iter it) c" using c by (simp add: shows_at_def)
    obtain j where j: "it_Next I (di_iter it) = Some j" "iat j (Suc c)" using internal.at_next [OF at cK(1)] by auto
    let ?it = "it\<lparr>di_saved_key := uk c, di_iter := j\<rparr>"
    have d': "dinv ?it" using d internal.at_inv [OF j(2)] by (simp add: dinv_def)
    have e: "DBIter_Next I Compare it = (if Suc c < length K then FindNextUserEntry I Compare ?it True
        else Some (?it\<lparr>di_valid := False, di_saved_key := []\<rparr>))"
      using True j(1) internal.at_key [OF at cK(1)] internal.at_valid [OF j(2)] by (simp add: DBIter_Next_def)
    show ?thesis
    proof (cases "Suc c < length K")
      case lt: True
      have "\<exists>it' p'. FindNextUserEntry I Compare ?it True = Some it' \<and> next_shown None (Suc c) p' \<and> dat it' (idx p')"
        by (rule FindNext_dat) (use j(2) lt d' True skip_after [OF cK(1) v, of None] in simp_all)
      then show ?thesis using e lt i next_shown_None by auto
    next
      case False
      then have "Suc c = length K" using cK(1) by simp
      moreover have "dat (?it\<lparr>di_valid := False, di_saved_key := []\<rparr>) (length V)" using d' by (intro dat_invalid) (simp_all add: dinv_def)
      ultimately show ?thesis using e i by (simp add: length_V)
    qed
  next
    case False
    then have rev: "di_direction it = kReverse" by (cases "di_direction it") auto
    have sk: "di_saved_key it = uk c" and "rests c (di_iter it)" using c rev by (simp_all add: shows_at_def)
    then obtain j p where j: "(if \<not> it_Valid I (di_iter it) then it_SeekToFirst I (di_iter it) else it_Next I (di_iter it)) = Some j"
        "iat j p" "p \<le> c" "\<forall>q. p \<le> q \<longrightarrow> q < c \<longrightarrow> \<not> vis q"
      unfolding rests_def
    proof (elim disjE exE conjE, goal_cases)
      case (1 r)
      then show ?case using internal.at_valid [of "di_iter it" r] internal.at_next [of "di_iter it" r] cK(1) 1(1) [of _ "Suc r"] by auto
    next
      case 2
      then show ?case using internal.at_valid [of "di_iter it" "length K"] internal.at_first [of "di_iter it"] internal.at_inv [of "di_iter it" "length K"] 2(1) [of _ 0] by auto
    qed
    let ?it = "it\<lparr>di_direction := kForward, di_iter := j\<rparr>"
    have d': "dinv ?it" using d internal.at_inv [OF j(2)] by (simp add: dinv_def)
    have "it_Valid I j" using internal.at_valid [OF j(2)] j(3) cK(1) by simp
    then have e: "DBIter_Next I Compare it = FindNextUserEntry I Compare ?it True" using rev j(1) by (simp add: DBIter_Next_def)
    have "\<exists>it' p'. FindNextUserEntry I Compare ?it True = Some it' \<and> next_shown (Some (uk c)) p p' \<and> dat it' (idx p')"
      by (rule FindNext_dat) (use j cK d' sk back_skip [OF cK j(3,4)] in simp_all)
    then show ?thesis using e back_next [OF cK j(3,4)] c(2) by auto
  qed
qed

end

lemma takeWhile_cut:
  assumes "n \<le> length xs" "\<And>i. i < n \<Longrightarrow> P (xs ! i)" "n < length xs \<Longrightarrow> \<not> P (xs ! n)"
  shows "length (takeWhile P xs) = n"
proof -
  have "takeWhile P xs = take n xs" using assms by (intro takeWhile_eq_take_P_nth) auto
  then show ?thesis using assms(1) by simp
qed

context db_iterator
begin

lemma FindPrev_dat:
  assumes at: "iat (di_iter it) hi" "hi < length K" and d: "dinv it" "di_direction it = kReverse"
  shows "\<exists>it'. FindPrevUserEntry I Compare it = Some it' \<and> dat it' (if idx (Suc hi) = 0 then length V else idx (Suc hi) - 1)"
proof -
  have "passed hi (Suc hi) kTypeDeletion (di_saved_key it) (di_saved_value it)" by (simp add: passed_def)
  then obtain vt' it' where r: "FindPrev_loop I Compare it kTypeDeletion = Some (vt', it')" "prev_shown hi vt' it'" "frame it it'"
    using FindPrev_shown [OF at, of hi kTypeDeletion] at(2) d by (auto simp: dinv_def)
  have v: "it_Valid I (di_iter it)" using internal.at_valid [OF at(1)] at(2) by simp
  show ?thesis
  proof (cases "vt' = kTypeDeletion")
    case True
    have "idx (Suc hi) = idx 0" by (rule idx_none) (use r(2) True in \<open>auto simp: prev_shown_def\<close>)
    moreover have "dat (it'\<lparr>di_valid := False, di_saved_key := [], di_saved_value := [], di_direction := kForward\<rparr>) (length V)"
      using r(2,3) True d by (intro dat_invalid) (simp_all add: dinv_def frame_def prev_shown_def)
    ultimately show ?thesis using r(1) v True by (simp add: FindPrevUserEntry_def)
  next
    case False
    then obtain c where c: "c \<le> hi" "shown s K c" "di_saved_key it' = uk c" "di_saved_value it' = snd (K ! c)" "rests c (di_iter it')"
        "\<forall>q. c < q \<longrightarrow> q \<le> hi \<longrightarrow> \<not> shown s K q"
      using r(2) by (auto simp: prev_shown_def)
    have "idx (Suc hi) = idx (Suc c)" by (rule idx_none) (use c in auto)
    then have "idx (Suc hi) = Suc (idx c)" using c(2) by (simp add: idx_Suc)
    moreover have "shows_at (it'\<lparr>di_valid := True\<rparr>) c" using c at(2) r(3) d by (simp add: shows_at_def frame_def)
    moreover have "dinv (it'\<lparr>di_valid := True\<rparr>)" using r(3) d rests_inv [OF c(5)] by (simp add: dinv_def frame_def)
    ultimately have "dat (it'\<lparr>di_valid := True\<rparr>) (idx (Suc hi) - 1)" "idx (Suc hi) \<noteq> 0" by (auto simp: dat_def)
    then show ?thesis using r(1) v False by (simp add: FindPrevUserEntry_def)
  qed
qed

lemma DBIter_Prev_dat:
  assumes "dat it i" "i < length V"
  shows "\<exists>it'. DBIter_Prev I Compare it = Some it' \<and> dat it' (if i = 0 then length V else i - 1)"
proof -
  obtain c where d: "dinv it" and c: "shows_at it c" "idx c = i" using dat_cases [OF assms] by blast
  then have cK: "c < length K" "shown s K c" by (simp_all add: shows_at_def)
  show ?thesis
  proof (cases "di_direction it = kForward")
    case True
    then have at: "iat (di_iter it) c" using c by (simp add: shows_at_def)
    have hide: "\<not> shown s K q" if "q < c" "\<not> Compare (uk q) (uk c) < 0" for q
      using that not_less_same [of q c] cK shown_unique [of q c] by auto
    obtain b j where j: "scan_back I Compare (di_iter it) (uk c) = Some (b, j)" "if b then \<exists>p'<c. iat j p' \<and> Compare (uk p') (uk c) < 0 \<and>
        (\<forall>q. p' < q \<longrightarrow> q < c \<longrightarrow> \<not> Compare (uk q) (uk c) < 0) else iat j (length K) \<and> (\<forall>q<c. \<not> Compare (uk q) (uk c) < 0)"
      using scan_back_ends [OF at cK(1), of "uk c"] by blast
    show ?thesis
    proof (cases b)
      case False
      let ?it = "it\<lparr>di_iter := j, di_valid := False, di_saved_key := [], di_saved_value := []\<rparr>"
      have "idx c = idx 0" by (rule idx_none) (use hide j(2) False in auto)
      moreover have "dat ?it (length V)" using d j(2) False internal.at_inv [of j "length K"] by (intro dat_invalid) (simp_all add: dinv_def)
      ultimately show ?thesis using True j(1) False c(2) internal.at_key [OF at cK(1)] by (simp add: DBIter_Prev_def)
    next
      case b: True
      then obtain p where p: "p < c" "iat j p" "\<forall>q. p < q \<longrightarrow> q < c \<longrightarrow> \<not> Compare (uk q) (uk c) < 0" using j(2) by auto
      let ?it = "it\<lparr>di_iter := j, di_saved_key := uk c, di_direction := kReverse\<rparr>"
      have "idx c = idx (Suc p)" by (rule idx_none) (use hide p in auto)
      moreover have "\<exists>it'. FindPrevUserEntry I Compare ?it = Some it' \<and> dat it' (if idx (Suc p) = 0 then length V else idx (Suc p) - 1)"
        by (rule FindPrev_dat) (use p cK(1) d internal.at_inv [OF p(2)] in \<open>simp_all add: dinv_def\<close>)
      ultimately show ?thesis using True j(1) b c(2) internal.at_key [OF at cK(1)] by (cases "i = 0") (simp_all add: DBIter_Prev_def)
    qed
  next
    case False
    then have rev: "di_direction it = kReverse" by (cases "di_direction it") auto
    have e: "DBIter_Prev I Compare it = FindPrevUserEntry I Compare it" using rev by (simp add: DBIter_Prev_def)
    have "rests c (di_iter it)" using c rev by (simp add: shows_at_def)
    then consider r where "r < c" "iat (di_iter it) r" "\<forall>q. r < q \<longrightarrow> q < c \<longrightarrow> \<not> vis q" | "iat (di_iter it) (length K)" "\<forall>q<c. \<not> vis q"
      by (auto simp: rests_def)
    then show ?thesis
    proof cases
      case 1
      have "idx c = idx (Suc r)" by (rule idx_none) (use 1 in \<open>auto simp: shown_def\<close>)
      then show ?thesis using FindPrev_dat [OF 1(2) _ d rev] 1(1) cK(1) c(2) e by (cases "i = 0") simp_all
    next
      case 2
      have "idx c = idx 0" by (rule idx_none) (use 2 in \<open>auto simp: shown_def\<close>)
      moreover have "dat (it\<lparr>di_valid := False, di_saved_key := [], di_saved_value := [], di_direction := kForward\<rparr>) (length V)"
        using d by (intro dat_invalid) (simp_all add: dinv_def)
      ultimately show ?thesis using internal.at_valid [OF 2(1)] c(2) e by (simp add: FindPrevUserEntry_def)
    qed
  qed
qed

lemma DBIter_SeekToLast_dat:
  assumes "dinv it"
  shows "\<exists>it'. DBIter_SeekToLast I Compare it = Some it' \<and> dat it' (length V - 1)"
proof -
  obtain j where j: "it_SeekToLast I (di_iter it) = Some j" "iat j (length K - 1)" using internal.at_last assms by (auto simp: dinv_def)
  let ?it = "it\<lparr>di_direction := kReverse, di_saved_value := [], di_iter := j\<rparr>"
  have d: "dinv ?it" using assms internal.at_inv [OF j(2)] by (simp add: dinv_def)
  show ?thesis
  proof (cases "K = []")
    case True
    then have "dat (?it\<lparr>di_valid := False, di_saved_key := [], di_saved_value := [], di_direction := kForward\<rparr>) (length V)"
      using d by (intro dat_invalid) (simp_all add: dinv_def)
    moreover have "length V = 0" using True by (simp add: db_view_def)
    ultimately show ?thesis using j internal.at_valid [OF j(2)] True by (simp add: DBIter_SeekToLast_def FindPrevUserEntry_def)
  next
    case False
    then have s: "Suc (length K - 1) = length K" by (cases K) auto
    have "\<exists>it'. FindPrevUserEntry I Compare ?it = Some it' \<and> dat it' (if idx (length K) = 0 then length V else idx (length K) - 1)"
      using FindPrev_dat [of ?it "length K - 1", unfolded s] j(2) False d by simp
    then show ?thesis using j(1) by (auto simp: DBIter_SeekToLast_def length_V split: if_splits)
  qed
qed

lemma FindNext_first:
  assumes j: "iat j p" and d: "dinv it" and sk: "\<And>r q. r < p \<Longrightarrow> p \<le> q \<Longrightarrow> q < length K \<Longrightarrow> vis r \<Longrightarrow> vis q \<Longrightarrow> uk r \<noteq> uk q"
    and it: "di_iter it = j" "di_direction it = kForward"
  shows "\<exists>it'. (if it_Valid I j then FindNextUserEntry I Compare it False else Some (it\<lparr>di_valid := False\<rparr>)) = Some it' \<and> dat it' (idx p)"
proof (cases "p < length K")
  case True
  have "skip_ok None p False (di_saved_key it)" using sk by (auto simp: skip_ok_def)
  then have "\<exists>it' p'. FindNextUserEntry I Compare it False = Some it' \<and> next_shown None p p' \<and> dat it' (idx p')"
    using j it True d by (intro FindNext_dat) simp_all
  then show ?thesis using internal.at_valid [OF j] True next_shown_None by auto
next
  case False
  then have "p = length K" using internal.at_inv [OF j] by simp
  moreover have "dat (it\<lparr>di_valid := False\<rparr>) (length V)" using d by (intro dat_invalid) (simp_all add: dinv_def)
  ultimately show ?thesis using internal.at_valid [OF j] by (simp add: length_V)
qed

lemma DBIter_SeekToFirst_dat:
  assumes "dinv it"
  shows "\<exists>it'. DBIter_SeekToFirst I Compare it = Some it' \<and> dat it' 0"
proof -
  obtain j where j: "it_SeekToFirst I (di_iter it) = Some j" "iat j 0" using internal.at_first assms by (auto simp: dinv_def)
  let ?it = "it\<lparr>di_direction := kForward, di_saved_value := [], di_iter := j\<rparr>"
  have "dinv ?it" using assms internal.at_inv [OF j(2)] by (simp add: dinv_def)
  then show ?thesis using FindNext_first [OF j(2), of ?it] j(1) by (simp add: DBIter_SeekToFirst_def Let_def)
qed

end

context db_iterator
begin

lemma seek_key:
  "internal_ok ok (InternalKey t s kValueTypeForSeek) \<longleftrightarrow> ok t"
  by simp

lemma vis_before:
  assumes r: "r < length K" "vis r" and t: "ok t" and less: "InternalKeyComparator_Compare Compare (fst (K ! r)) (InternalKey t s kValueTypeForSeek) < 0"
  shows "Compare (uk r) t < 0"
proof -
  obtain k where k: "ParseInternalKey (fst (K ! r)) = Some k" "sequence k \<le> s" using parse_at [OF r(1)] r(2) by blast
  have "unat (internal_tag (fst (K ! r))) \<le> 256 * unat s + 1"
    using ParseInternalKey_parts(4) [OF k(1)] k(2) by (cases "vtype k") (simp_all add: word_le_nat_alt)
  then have "\<not> PackSequenceAndType s kValueTypeForSeek < internal_tag (fst (K ! r))"
    using unat_Pack [OF seq_max, of kValueTypeForSeek] by (simp add: word_less_nat_alt kValueTypeForSeek_def)
  then show ?thesis
    using less internal_compare_less [of "fst (K ! r)" "InternalKey t s kValueTypeForSeek"] internal.keys_ok [of "K ! r"] r(1) t by auto
qed

lemma not_before:
  assumes q: "q < length K" and t: "ok t" and n: "\<not> InternalKeyComparator_Compare Compare (fst (K ! q)) (InternalKey t s kValueTypeForSeek) < 0"
  shows "\<not> Compare (uk q) t < 0"
  using n internal_compare_less [of "fst (K ! q)" "InternalKey t s kValueTypeForSeek"] internal.keys_ok [of "K ! q"] q t by auto

lemma idx_cut:
  assumes before: "\<And>r. r < p \<Longrightarrow> vis r \<Longrightarrow> Compare (uk r) t < 0" and after: "\<And>q. p \<le> q \<Longrightarrow> q < length K \<Longrightarrow> \<not> Compare (uk q) t < 0" and p: "p \<le> length K"
  shows "length (takeWhile (\<lambda>kv. Compare (fst kv) t < 0) V) = idx p"
proof (rule takeWhile_cut)
  show "idx p \<le> length V" using idx_mono [OF p] by (simp add: length_V)
next
  fix i assume i: "i < idx p"
  then obtain r where r: "r < length K" "shown s K r" "idx r = i" using V_pos [of i] idx_mono [OF p] by (auto simp: length_V)
  have "r < p" using idx_mono [of p r] i r(3) by (cases "p \<le> r") auto
  then show "Compare (fst (V ! i)) t < 0" using before [of r] r V_nth(2) [OF r(1,2)] by (simp add: shown_def)
next
  assume "idx p < length V"
  then obtain q where q: "q < length K" "shown s K q" "idx q = idx p" using V_pos [of "idx p"] by blast
  have "p \<le> q" using idx_mono [of "Suc q" p] q(2,3) by (cases "q < p") (simp_all add: idx_Suc)
  then show "\<not> Compare (fst (V ! idx p)) t < 0" using after [of q] q V_nth(2) [OF q(1,2)] by simp
qed

lemma DBIter_Seek_dat:
  assumes d: "dinv it" and t: "ok t"
  shows "\<exists>it'. DBIter_Seek I Compare it t = Some it' \<and> dat it' (length (takeWhile (\<lambda>kv. Compare (fst kv) t < 0) V))"
proof -
  let ?k = "InternalKey t s kValueTypeForSeek" and ?lt = "\<lambda>kv. InternalKeyComparator_Compare Compare (fst kv) (InternalKey t s kValueTypeForSeek) < 0"
  define p where "p = length (takeWhile ?lt K)"
  have ok: "internal_ok ok ?k" using t by simp
  obtain j where j: "it_Seek I (di_iter it) ?k = Some j" "iat j p" using internal.at_seek [OF _ ok, of "di_iter it"] d by (auto simp: dinv_def p_def)
  have p: "p \<le> length K" using internal.at_inv [OF j(2)] by simp
  have before: "Compare (uk r) t < 0" if r: "r < p" "vis r" for r
  proof -
    have "K ! r \<in> set (takeWhile ?lt K)" using r(1) takeWhile_nth [of r ?lt K] nth_mem [of r "takeWhile ?lt K"] by (simp add: p_def)
    then have "?lt (K ! r)" by (rule set_takeWhileD [THEN conjunct2])
    then show ?thesis using vis_before [of r t] r p t by simp
  qed
  have after: "\<not> Compare (uk q) t < 0" if q: "p \<le> q" "q < length K" for q
  proof -
    have pK: "p < length K" using q by simp
    have "\<not> ?lt (K ! p)" using nth_length_takeWhile [of ?lt K] pK by (simp add: p_def)
    then have "\<not> Compare (uk p) t < 0" using not_before [OF pK t] by simp
    then show ?thesis using uk_mono [OF q] compare_le_less_trans [of "uk p" "uk q" t] uk_ok [OF pK] uk_ok [OF q(2)] t by blast
  qed
  let ?it = "it\<lparr>di_direction := kForward, di_saved_value := [], di_saved_key := ?k, di_iter := j\<rparr>"
  have d': "dinv ?it" using d internal.at_inv [OF j(2)] by (simp add: dinv_def)
  have diff: "uk r \<noteq> uk q" if "r < p" "p \<le> q" "q < length K" "vis r" for r q using before [OF that(1,4)] after [OF that(2,3)] by auto
  have "\<exists>it'. (if it_Valid I j then FindNextUserEntry I Compare ?it False else Some (?it\<lparr>di_valid := False\<rparr>)) = Some it' \<and> dat it' (idx p)"
    by (rule FindNext_first [OF j(2) d']) (use diff in auto)
  moreover have "DBIter_Seek I Compare it t = (if it_Valid I j then FindNextUserEntry I Compare ?it False else Some (?it\<lparr>di_valid := False\<rparr>))"
    using d j(1) by (simp add: DBIter_Seek_def Let_def dinv_def InternalKey_def)
  moreover have "length (takeWhile (\<lambda>kv. Compare (fst kv) t < 0) V) = idx p" using idx_cut [OF before after p] by simp
  ultimately show ?thesis by simp
qed

lemma dat_valid: "dat it i \<Longrightarrow> di_valid it \<longleftrightarrow> i < length V"
  using V_nth(1) by (auto simp: dat_def shows_at_def)

lemma dat_entry:
  assumes "dat it i" "i < length V"
  shows "it_key (DBIter_class I Compare) it = fst (V ! i)" "it_value (DBIter_class I Compare) it = snd (V ! i)"
proof -
  obtain c where c: "shows_at it c" "idx c = i" using dat_cases [OF assms] by blast
  then have cK: "c < length K" "shown s K c" by (simp_all add: shows_at_def)
  show "it_key (DBIter_class I Compare) it = fst (V ! i)" "it_value (DBIter_class I Compare) it = snd (V ! i)"
    using c V_nth(2) [OF cK] internal.at_key [of "di_iter it" c] internal.at_value [of "di_iter it" c] cK(1)
    by (auto simp: shows_at_def DBIter_class_def split: if_splits)
qed

lemma view_ok: "kv \<in> set V \<Longrightarrow> ok (fst kv)"
  using uk_ok by (auto simp: db_view_def)

lemma db_iterator_sorted: "sorted_iterator (DBIter_class I Compare) Compare ok V dinv dat"
proof (rule sorted_iterator.intro, goal_cases)
  case (1 it i)
  then show ?case using V_nth(1) by (auto simp: dat_def shows_at_def intro: less_imp_le)
next
  case (2 it i)
  then show ?case using dat_valid by (simp add: DBIter_class_def)
next
  case (5 it i)
  then show ?case using DBIter_Next_dat by (simp add: DBIter_class_def)
next
  case (6 it i)
  then show ?case using DBIter_Prev_dat by (simp add: DBIter_class_def)
next
  case (7 it)
  then show ?case using DBIter_SeekToFirst_dat by (simp add: DBIter_class_def)
next
  case (8 it)
  then show ?case using DBIter_SeekToLast_dat by (simp add: DBIter_class_def)
next
  case (9 it t)
  then show ?case using DBIter_Seek_dat by (simp add: DBIter_class_def)
next
  case (10 it)
  then show ?case using internal.at_status by (simp add: DBIter_class_def dinv_def)
qed (use dat_entry view_ok V_sorted in auto)

lemma dinv_new: "iinv i \<Longrightarrow> dinv (NewDBIterator i s seed)"
  using Random_Next_good [OF good_seed_Random] by (simp add: dinv_def NewDBIterator_def RandomCompactionPeriod_eq)

end

text \<open>The newest visible entry of a user key in a set of entries.\<close>

definition newest :: "SequenceNumber \<Rightarrow> (slice \<times> slice) set \<Rightarrow> slice \<times> slice \<Rightarrow> bool" where
  "newest s E e \<longleftrightarrow> e \<in> E \<and> visible s e \<and>
     (\<forall>e'\<in>E. visible s e' \<and> ExtractUserKey (fst e') = ExtractUserKey (fst e) \<longrightarrow> internal_tag (fst e') \<le> internal_tag (fst e))"

definition entry_type :: "slice \<times> slice \<Rightarrow> ValueType" where
  "entry_type e = vtype (the (ParseInternalKey (fst e)))"

lemma newest_type:
  "newest s E e \<Longrightarrow> e \<in> E" "newest s E e \<Longrightarrow> visible s e"
  by (simp_all add: newest_def)

context db_iterator
begin

lemma tag_less:
  assumes "r < p" "p < length K" "uk r = uk p"
  shows "internal_tag (fst (K ! p)) < internal_tag (fst (K ! r))"
proof -
  have "InternalKeyComparator_Compare Compare (fst (K ! r)) (fst (K ! p)) < 0"
    using sorted_wrt_nth_less [OF internal.keys_sorted, of r p] assms by simp
  then show ?thesis
    using internal_compare_less [of "fst (K ! r)" "fst (K ! p)"] internal.keys_ok [of "K ! r"] internal.keys_ok [of "K ! p"] assms by auto
qed

lemma shown_newest:
  assumes "p < length K"
  shows "shown s K p \<longleftrightarrow> newest s (set K) (K ! p) \<and> entry_type (K ! p) = kTypeValue"
proof -
  have "(\<forall>r<p. vis r \<longrightarrow> uk r \<noteq> uk p) \<longleftrightarrow>
      (\<forall>e'\<in>set K. visible s e' \<and> ExtractUserKey (fst e') = uk p \<longrightarrow> internal_tag (fst e') \<le> internal_tag (fst (K ! p)))" (is "?l \<longleftrightarrow> ?r")
  proof
    assume l: ?l
    show ?r
    proof (intro ballI impI)
      fix e' assume e: "e' \<in> set K" "visible s e' \<and> ExtractUserKey (fst e') = uk p"
      then obtain r where r: "r < length K" "K ! r = e'" by (auto simp: in_set_conv_nth)
      then have "p \<le> r" using l e(2) by (meson not_le)
      moreover have "uk p = uk r" using e(2) r(2) by presburger
      ultimately have "p = r \<or> internal_tag (fst (K ! r)) < internal_tag (fst (K ! p))" using tag_less [of p r] r(1) by (meson le_neq_implies_less)
      then show "internal_tag (fst e') \<le> internal_tag (fst (K ! p))" unfolding r(2) [symmetric] by (meson less_imp_le order_refl)
    qed
  next
    assume r: ?r
    show ?l
    proof (intro allI impI notI)
      fix q assume q: "q < p" "vis q" "uk q = uk p"
      then have "K ! q \<in> set K" using assms by simp
      then have "internal_tag (fst (K ! q)) \<le> internal_tag (fst (K ! p))" using r q(2,3) by blast
      then show False using tag_less [OF q(1) assms q(3)] by simp
    qed
  qed
  then show ?thesis using nth_mem [OF assms] unfolding shown_def newest_def entry_type_def by blast
qed

lemma set_V: "set V = (\<lambda>e. (ExtractUserKey (fst e), snd e)) ` {e. newest s (set K) e \<and> entry_type e = kTypeValue}"
proof -
  have pos: "\<exists>p<length K. e = K ! p" if "newest s (set K) e" for e using newest_type(1) [OF that] by (metis in_set_conv_nth)
  have "set V = (\<lambda>p. (uk p, snd (K ! p))) ` {p. p < length K \<and> shown s K p}" by (auto simp: db_view_def)
  also have "{p. p < length K \<and> shown s K p} = {p. p < length K \<and> newest s (set K) (K ! p) \<and> entry_type (K ! p) = kTypeValue}"
    using shown_newest by blast
  also have "(\<lambda>p. (uk p, snd (K ! p))) ` \<dots> =
      (\<lambda>e. (ExtractUserKey (fst e), snd e)) ` (!) K ` {p. p < length K \<and> newest s (set K) (K ! p) \<and> entry_type (K ! p) = kTypeValue}"
    by (simp add: image_image)
  also have "(!) K ` {p. p < length K \<and> newest s (set K) (K ! p) \<and> entry_type (K ! p) = kTypeValue} =
      {e. newest s (set K) e \<and> entry_type e = kTypeValue}"
    using pos by blast
  finally show ?thesis .
qed

end

subsection \<open>A view of merged blocks\<close>

definition internal_blocks :: "(slice \<times> slice) list list \<Rightarrow> (slice \<times> slice) list list" where
  "internal_blocks kvss =
     (if mergeable internal_compare (internal_ok (\<lambda>_. True)) kvss \<and>
         (\<forall>kvs\<in>set kvss. \<forall>kv\<in>set kvs. ParseInternalKey (fst kv) \<noteq> None)
      then kvss else [])"

lemma internal_blocks_mergeable: "mergeable internal_compare (internal_ok (\<lambda>_. True)) (internal_blocks kvss)"
proof -
  have "mergeable internal_compare (internal_ok (\<lambda>_. True)) []" by (simp add: mergeable_def)
  then show ?thesis unfolding internal_blocks_def by presburger
qed

lemma internal_blocks_parsed:
  assumes "kvs \<in> set (internal_blocks kvss)" "kv \<in> set kvs"
  shows "ParseInternalKey (fst kv) \<noteq> None"
  using assms by (cases "kvss = internal_blocks kvss") (auto simp: internal_blocks_def split: if_splits)

interpretation internal_merged: merging internal_compare "internal_ok (\<lambda>_. True)" "BlockIterator internal_compare" "internal_blocks kvss"
  "merge_all internal_compare (internal_blocks kvss)" "\<lambda>j. blk_inv (internal_blocks kvss ! j)"
  "\<lambda>j. blk_at (internal_blocks kvss ! j)" for kvss
proof (rule bytewise_internal.internal.mergeable_merging)
  show m: "mergeable internal_compare (internal_ok (\<lambda>_. True)) (internal_blocks kvss)" by (rule internal_blocks_mergeable)
  fix j assume j: "j < length (internal_blocks kvss)"
  then have "sorted_wrt (\<lambda>a b. internal_compare (fst a) (fst b) < 0) (internal_blocks kvss ! j)"
    "\<forall>kv\<in>set (internal_blocks kvss ! j). internal_ok (\<lambda>_. True) (fst kv)" using m nth_mem [OF j] unfolding mergeable_def by blast+
  then show "sorted_iterator (BlockIterator internal_compare) internal_compare (internal_ok (\<lambda>_. True)) (internal_blocks kvss ! j)
      (blk_inv (internal_blocks kvss ! j)) (blk_at (internal_blocks kvss ! j))"
    by (intro bytewise_internal.internal.block_entries_iterator) auto
qed

interpretation merged_view: db_iterator BytewiseComparator_Compare "\<lambda>_. True"
  "MergingIterator_class (BlockIterator internal_compare) internal_compare" "merge_all internal_compare (internal_blocks kvss)"
  "internal_merged.mi_inv kvss" "internal_merged.mi_at kvss" "min s kMaxSequenceNumber" for kvss s
proof (intro db_iterator.intro db_iterator_axioms.intro bytewise.comparator_axioms internal_merged.merging_iterator)
  show "min s kMaxSequenceNumber \<le> kMaxSequenceNumber" by simp
  show "kv \<in> set (merge_all internal_compare (internal_blocks kvss)) \<Longrightarrow> ParseInternalKey (fst kv) \<noteq> None" for kv
    using internal_blocks_parsed [of _ kvss kv] unfolding set_merge_all by blast
qed

lemma ParseInternalKey_InternalKey [simp]:
  "q \<le> kMaxSequenceNumber \<Longrightarrow> ParseInternalKey (InternalKey k q t) = Some \<lparr>user_key = k, sequence = q, vtype = t\<rparr>"
  using DecodeFixed64_EncodeFixed64 [of _ "[]"] by (cases t) (simp_all add: ParseInternalKey_def InternalKey_eq Let_def)

lemma comparator_restrict: "comparator cmp ok \<Longrightarrow> comparator cmp (\<lambda>k. ok k \<and> P k)"
  unfolding comparator_def by blast

lemma internal_ok_short:
  "(\<lambda>k. length k < 2 ^ 32 \<and> internal_ok ok k) = internal_ok (\<lambda>u. ok u \<and> length u + 8 < 2 ^ 32)"
  by (rule ext) (auto simp: ExtractUserKey_def)

lemma log_get_SomeD:
  assumes "log_get log u s = Some (t, v)" "sorted_wrt (\<lambda>a b. fst a < fst b) log"
  shows "\<exists>q. (q, t, u, v) \<in> set log \<and> q \<le> s \<and> (\<forall>q' t' v'. (q', t', u, v') \<in> set log \<longrightarrow> q' \<le> s \<longrightarrow> (q', t', v') = (q, t, v) \<or> q' < q)"
proof -
  define ops where "ops = filter (\<lambda>(q, t, k, v). k = u \<and> q \<le> s) log"
  have "ops \<noteq> []" using assms(1) by (auto simp: log_get_def ops_def Let_def split: if_splits)
  then obtain ys q k where snoc: "ops = ys @ [(q, t, k, v)]"
    using assms(1) by (cases ops rule: rev_cases) (auto simp: log_get_def ops_def [symmetric] Let_def split: prod.splits)
  have mem: "(q', t', k', v') \<in> set ops \<longleftrightarrow> (q', t', k', v') \<in> set log \<and> k' = u \<and> q' \<le> s" for q' t' k' v' by (auto simp: ops_def)
  have k: "k = u" "q \<le> s" "(q, t, u, v) \<in> set log" using mem [of q t k v] snoc by auto
  have srt: "sorted_wrt (\<lambda>a b. fst a < fst b) (ys @ [(q, t, k, v)])"
    unfolding snoc [symmetric] ops_def using assms(2) by (rule sorted_wrt_filter)
  have "(q', t', v') = (q, t, v) \<or> q' < q" if "(q', t', u, v') \<in> set log" "q' \<le> s" for q' t' v'
    using mem [of q' t' u v'] that srt by (auto simp: snoc sorted_wrt_append)
  then show ?thesis using k by blast
qed

lemma newest_log:
  assumes log: "log_ok ok log" and s: "s \<le> kMaxSequenceNumber"
  shows "(u, v) \<in> (\<lambda>e. (ExtractUserKey (fst e), snd e)) ` {e. newest s (op_entry ` set log) e \<and> entry_type e = kTypeValue} \<longleftrightarrow>
    log_get log u s = Some (kTypeValue, v)"
proof -
  have srt: "sorted_wrt (\<lambda>a b. fst a < fst b) log" using log by (simp add: log_ok_def)
  have max: "q \<le> kMaxSequenceNumber" if "(q, t, k, w) \<in> set log" for q t k w using log that by (auto simp: log_ok_def op_ok_def list_all_iff)
  have vis: "visible s (op_entry (q, t, k, w)) \<longleftrightarrow> q \<le> s" "entry_type (op_entry (q, t, k, w)) = t" if "(q, t, k, w) \<in> set log" for q t k w
    using max [OF that] by (simp_all add: visible_def entry_type_def op_entry_def)
  have parts: "ExtractUserKey (fst (op_entry (q, t, k, w))) = k" "snd (op_entry (q, t, k, w)) = w"
    "internal_tag (fst (op_entry (q, t, k, w))) = PackSequenceAndType q t" for q t k w by (simp_all add: op_entry_def)
  have new: "newest s (op_entry ` set log) (op_entry (q, t, k, w)) \<longleftrightarrow> q \<le> s \<and>
      (\<forall>q' t' w'. (q', t', k, w') \<in> set log \<longrightarrow> q' \<le> s \<longrightarrow> PackSequenceAndType q' t' \<le> PackSequenceAndType q t)" if e: "(q, t, k, w) \<in> set log" for q t k w
  proof -
    have "(\<forall>e'\<in>op_entry ` set log. visible s e' \<and> ExtractUserKey (fst e') = k \<longrightarrow> internal_tag (fst e') \<le> PackSequenceAndType q t) \<longleftrightarrow>
       (\<forall>q' t' w'. (q', t', k, w') \<in> set log \<longrightarrow> q' \<le> s \<longrightarrow> PackSequenceAndType q' t' \<le> PackSequenceAndType q t)"
      (is "?l \<longleftrightarrow> ?r")
    proof (intro iffI allI impI ballI)
      fix q' t' w' assume ?l and p: "(q', t', k, w') \<in> set log" "q' \<le> s"
      then show "PackSequenceAndType q' t' \<le> PackSequenceAndType q t" using vis(1) [OF p(1)] parts [of q' t' k w'] by (metis imageI)
    next
      fix e' assume r: ?r and e': "e' \<in> op_entry ` set log" "visible s e' \<and> ExtractUserKey (fst e') = k"
      then obtain q' t' k' w' where p: "(q', t', k', w') \<in> set log" "e' = op_entry (q', t', k', w')" by auto
      then have "k' = k" "q' \<le> s" using e'(2) vis(1) [OF p(1)] parts(1) [of q' t' k' w'] by simp_all
      then show "internal_tag (fst e') \<le> PackSequenceAndType q t" using r p parts(3) [of q' t' k' w'] by metis
    qed
    then show ?thesis using e vis(1) [OF e] by (simp add: newest_def parts)
  qed
  show ?thesis
  proof
    assume "(u, v) \<in> (\<lambda>e. (ExtractUserKey (fst e), snd e)) ` {e. newest s (op_entry ` set log) e \<and> entry_type e = kTypeValue}"
    then obtain q t k w where e: "(q, t, k, w) \<in> set log" "newest s (op_entry ` set log) (op_entry (q, t, k, w))" "entry_type (op_entry (q, t, k, w)) = kTypeValue"
        "u = ExtractUserKey (fst (op_entry (q, t, k, w)))" "v = snd (op_entry (q, t, k, w))"
      by (auto simp: newest_def)
    then have uv: "u = k" "v = w" "t = kTypeValue" using vis(2) [OF e(1)] parts by simp_all
    note n = e(2) [unfolded new [OF e(1)], folded uv(1)]
    have "q' \<le> q" if p: "(q', t', u, v') \<in> set log" "q' \<le> s" for q' t' v'
    proof -
      have "\<not> PackSequenceAndType q t < PackSequenceAndType q' t'" using n p by (meson not_le)
      then show ?thesis using Pack_less_iff [OF max [OF e(1)] max [OF p(1)], of t t'] by (meson not_le)
    qed
    then show "log_get log u s = Some (kTypeValue, v)" using log_get_Some [OF srt, of q kTypeValue u v s] e(1) n uv by blast
  next
    assume "log_get log u s = Some (kTypeValue, v)"
    then obtain q where q: "(q, kTypeValue, u, v) \<in> set log" "q \<le> s"
        "\<forall>q' t' v'. (q', t', u, v') \<in> set log \<longrightarrow> q' \<le> s \<longrightarrow> (q', t', v') = (q, kTypeValue, v) \<or> q' < q"
      using log_get_SomeD [OF _ srt] by blast
    have "PackSequenceAndType q' t' \<le> PackSequenceAndType q kTypeValue" if "(q', t', u, v') \<in> set log" "q' \<le> s" for q' t' v'
      using q(3) that Pack_less_iff [OF max [OF that(1)] max [OF q(1)], of t' kTypeValue] by (metis less_imp_le order_refl prod.inject)
    then have "newest s (op_entry ` set log) (op_entry (q, kTypeValue, u, v))" using new [OF q(1)] q(2) by blast
    then show "(u, v) \<in> (\<lambda>e. (ExtractUserKey (fst e), snd e)) ` {e. newest s (op_entry ` set log) e \<and> entry_type e = kTypeValue}"
      using vis(2) [OF q(1)] parts by (intro image_eqI [of _ _ "op_entry (q, kTypeValue, u, v)"]) simp_all
  qed
qed

lemma memtable_db_iterator:
  assumes "user_comparator ucmp ok sep suc" "mem_log ucmp ok m log" "s \<le> kMaxSequenceNumber"
  shows "\<exists>K. db_iterator ucmp (\<lambda>u. ok u \<and> length u + 8 < 2 ^ 32) (MemTableIterator ucmp (mem_table m)) K (\<lambda>it. True) (mem_at ucmp ok (mem_table m) K) s \<and>
    set K = op_entry ` set log"
proof -
  obtain K where holds: "mem_holds ucmp ok (mem_table m) K" and set: "set K = op_entry ` set log" using assms(2) by (auto simp: mem_log_def)
  have "comparator ucmp ok" using assms(1) by (simp add: user_comparator_def shortening_comparator_def)
  then have c: "comparator ucmp (\<lambda>u. ok u \<and> length u + 8 < 2 ^ 32)" by (rule comparator_restrict)
  have it: "sorted_iterator (MemTableIterator ucmp (mem_table m)) (InternalKeyComparator_Compare ucmp)
      (internal_ok (\<lambda>u. ok u \<and> length u + 8 < 2 ^ 32)) K (\<lambda>it. True) (mem_at ucmp ok (mem_table m) K)"
    using user_comparator.memtable_iterator [OF assms(1) holds] unfolding internal_ok_short .
  have "\<forall>p\<in>set log. ParseInternalKey (fst (op_entry p)) \<noteq> None"
    using assms(2) by (auto simp: mem_log_def log_ok_def list_all_iff op_ok_def op_entry_def split: prod.splits)
  then have "kv \<in> set K \<Longrightarrow> ParseInternalKey (fst kv) \<noteq> None" for kv unfolding set by blast
  then show ?thesis using set by (intro exI [of _ K] conjI db_iterator.intro db_iterator_axioms.intro c it assms(3)) blast+
qed

subsection \<open>Properties\<close>

text \<open>
  C1: A database iterator shows the view of its snapshot. Over any internal iterator that keeps the
  iterator contract on a list of internal entries, \<open>NewDBIterator\<close> yields an iterator that keeps the
  whole contract, in any order of \<open>Seek\<close>, \<open>SeekToFirst\<close>, \<open>SeekToLast\<close>, \<open>Next\<close> and \<open>Prev\<close> and with every change
  of direction, on the view at its sequence number; the view has, of each user key, the newest visible
  entry unless that is a deletion.
\<close>

theorem db_iterator_view:
  assumes "comparator ucmp ok" "sorted_iterator I (InternalKeyComparator_Compare ucmp) (internal_ok ok) K iinv iat" "iinv i"
    and "s \<le> kMaxSequenceNumber" "\<forall>kv\<in>set K. ParseInternalKey (fst kv) \<noteq> None"
  shows "(\<exists>inv at. inv (NewDBIterator i s seed) \<and> sorted_iterator (DBIter_class I ucmp) ucmp ok (db_view s K) inv at) \<and>
    set (db_view s K) = (\<lambda>e. (ExtractUserKey (fst e), snd e)) ` {e. newest s (set K) e \<and> entry_type e = kTypeValue}"
proof -
  have d: "db_iterator ucmp ok I K iinv iat s"
    by (intro db_iterator.intro db_iterator_axioms.intro assms(1,2,4)) (use assms(5) in blast)
  show ?thesis
    using db_iterator.db_iterator_sorted [OF d] db_iterator.dinv_new [OF d assms(3)] db_iterator.set_V [OF d] by blast
qed

theorem db_iterator_view_witness:
  "scan (DBIter_class (BlockIterator internal_compare) BytewiseComparator_Compare)
     (NewDBIterator (Block_NewIterator (Block_new (build_block 1
        [(InternalKey [97] 3 kTypeDeletion, []), (InternalKey [97] 1 kTypeValue, [1]), (InternalKey [98] 2 kTypeValue, [2])]))) 2 0) =
   Some [([97], [1]), ([98], [2])]"
proof -
  let ?K = "[(InternalKey [97] 3 kTypeDeletion, []), (InternalKey [97] 1 kTypeValue, [1]), (InternalKey [98] 2 kTypeValue, [2])] :: (slice \<times> slice) list"
  have len: "length (build_block 1 ?K) < 2 ^ 32"
    by (simp add: build_block_def BlockBuilder_Finish_def BlockBuilder_new_def BlockBuilder_Add_def PutVarint32_def
        PutFixed32_def EncodeVarint32_def Let_def)
  have srt: "sorted_wrt (\<lambda>a b. internal_compare (fst a) (fst b) < 0) ?K"
    by (simp add: internal_compare_keys kMaxSequenceNumber_eq)
  obtain iinv iat where b: "iinv (Block_NewIterator (Block_new (build_block 1 ?K)))"
      "sorted_iterator (BlockIterator internal_compare) internal_compare (internal_ok (\<lambda>_. True)) ?K iinv iat"
    using comparator.build_block_iterator [OF bytewise_internal.internal.comparator_axioms, of 1 ?K] srt len by auto
  have p: "\<forall>kv\<in>set ?K. ParseInternalKey (fst kv) \<noteq> None" by (simp add: kMaxSequenceNumber_eq)
  have v: "db_view 2 ?K = [([97], [1]), ([98], [2])]"
    by (simp add: db_view_def shown_def visible_def kMaxSequenceNumber_eq upt_rec less_Suc_eq)
  have "(2 :: SequenceNumber) \<le> kMaxSequenceNumber" by (simp add: kMaxSequenceNumber_eq)
  from db_iterator_view [OF bytewise.comparator_axioms b(2,1) this p, of 0, unfolded v]
  show ?thesis by (elim conjE exE) (rule sorted_iterator.scan_all)
qed

text \<open>
  C6: What is read is what was written. When operations with increasing sequence numbers are added to an
  empty memtable, a database iterator over it at a snapshot scans, in the order of the user keys, exactly
  the pairs whose key was last written, up to the snapshot, with that value: the same as single lookups
  return.
\<close>

theorem memtable_view:
  assumes "user_comparator ucmp ok sep suc" "log_ok ok log" "s \<le> kMaxSequenceNumber"
  shows "\<exists>m kvs. mem_add_all new_block ucmp (MemTable_new new_block) log = Some m \<and>
    scan (DBIter_class (MemTableIterator ucmp (mem_table m)) ucmp) (NewDBIterator it s seed) = Some kvs \<and>
    sorted_wrt (\<lambda>a b. ucmp (fst a) (fst b) < 0) kvs \<and>
    (\<forall>u v. (u, v) \<in> set kvs \<longleftrightarrow> log_get log u s = Some (kTypeValue, v))"
proof -
  obtain m where m: "mem_add_all new_block ucmp (MemTable_new new_block) log = Some m" "mem_log ucmp ok m log"
    using user_comparator.mem_log_add_all [OF assms(1) user_comparator.mem_log_new [OF assms(1)], of log] assms(2) by fastforce
  obtain K where d: "db_iterator ucmp (\<lambda>u. ok u \<and> length u + 8 < 2 ^ 32) (MemTableIterator ucmp (mem_table m)) K (\<lambda>it. True)
      (mem_at ucmp ok (mem_table m) K) s" and K: "set K = op_entry ` set log"
    using memtable_db_iterator [OF assms(1) m(2) assms(3)] by blast
  note so = db_iterator.db_iterator_sorted [OF d]
  have "scan (DBIter_class (MemTableIterator ucmp (mem_table m)) ucmp) (NewDBIterator it s seed) = Some (db_view s K)"
    by (rule sorted_iterator.scan_all [OF so]) (rule db_iterator.dinv_new [OF d TrueI])
  moreover have "(u, v) \<in> set (db_view s K) \<longleftrightarrow> log_get log u s = Some (kTypeValue, v)" for u v
    using newest_log [OF assms(2,3)] unfolding db_iterator.set_V [OF d] K .
  ultimately show ?thesis using m(1) sorted_iterator.keys_sorted [OF so] by blast
qed

theorem memtable_view_witness:
  "\<exists>m kvs. mem_add_all bump_new BytewiseComparator_Compare (MemTable_new bump_new)
       [(1, kTypeValue, [97], [1]), (2, kTypeValue, [98], [2]), (3, kTypeDeletion, [97], [])] = Some m \<and>
     scan (DBIter_class (MemTableIterator BytewiseComparator_Compare (mem_table m)) BytewiseComparator_Compare)
       (NewDBIterator None 3 0) = Some kvs \<and> ([98], [2]) \<in> set kvs \<and> (\<forall>v. ([97], v) \<notin> set kvs)"
proof -
  let ?log = "[(1, kTypeValue, [97], [1]), (2, kTypeValue, [98], [2]), (3, kTypeDeletion, [97], [])] :: mem_op list"
  have "log_ok (\<lambda>_. True) ?log" by (simp add: log_ok_def op_ok_def kMaxSequenceNumber_eq)
  moreover have "(3 :: SequenceNumber) \<le> kMaxSequenceNumber" by (simp add: kMaxSequenceNumber_eq)
  moreover have "log_get ?log [98] 3 = Some (kTypeValue, [2])" "\<And>v. log_get ?log [97] 3 \<noteq> Some (kTypeValue, v)" by (simp_all add: log_get_def)
  ultimately show ?thesis
    using memtable_view [OF bytewise_internal.user_comparator_axioms, of ?log 3 bump_new None 0] by blast
qed

end
