(* ===== verification/Logging.thy ===== *)
theory Logging
  imports Dbformat
begin

text \<open>
  Printing and reading of numbers and keys (\<open>util/logging.cc\<close> and the \<open>DebugString\<close> functions of
  \<open>db/dbformat.cc\<close>), and that the decimal reader is exact: it returns the value of the longest run of digits,
  or refuses it when it does not fit 64 bits.
\<close>

subsection \<open>The routines\<close>

definition AppendNumberTo :: "bytes \<Rightarrow> u64 \<Rightarrow> bytes" where
  "AppendNumberTo s num = s @ decimal (unat num)"

text \<open>What \<open>printf\<close> writes for \<open>%02x\<close> of a byte.\<close>

definition hex_digit :: "nat \<Rightarrow> byte" where
  "hex_digit d = (if d < 10 then of_nat (48 + d) else of_nat (87 + d))"

definition escaped :: "byte \<Rightarrow> bytes" where
  "escaped c = (if 32 \<le> c \<and> c \<le> 126 then [c] else [92, 120, hex_digit (unat c div 16), hex_digit (unat c mod 16)])"

definition AppendEscapedStringTo :: "bytes \<Rightarrow> slice \<Rightarrow> bytes" where
  "AppendEscapedStringTo s val = foldl (\<lambda>s c. s @ escaped c) s val"

definition NumberToString :: "u64 \<Rightarrow> bytes" where
  "NumberToString num = AppendNumberTo [] num"

definition EscapeString :: "slice \<Rightarrow> bytes" where
  "EscapeString val = AppendEscapedStringTo [] val"

definition kMaxUint64 :: u64 where "kMaxUint64 = 18446744073709551615"

fun ConsumeDecimalNumber_loop :: "u64 \<Rightarrow> slice \<Rightarrow> (u64 \<times> slice) option" where
  "ConsumeDecimalNumber_loop val [] = Some (val, [])"
| "ConsumeDecimalNumber_loop val (ch # current) =
     (if ch < 48 \<or> ch > 57 then Some (val, ch # current)
      else if val > kMaxUint64 div 10 \<or> val = kMaxUint64 div 10 \<and> ch > 48 + ucast (kMaxUint64 mod 10) then None
      else ConsumeDecimalNumber_loop (val * 10 + (ucast ch - 48)) current)"

text \<open>The result, \<open>*val\<close> and \<open>*in\<close> after the call.\<close>

definition ConsumeDecimalNumber :: "slice \<Rightarrow> u64 \<Rightarrow> bool \<times> u64 \<times> slice" where
  "ConsumeDecimalNumber input val =
     (case ConsumeDecimalNumber_loop 0 input of
        None \<Rightarrow> (False, val, input)
      | Some (v, current) \<Rightarrow> (length input - length current \<noteq> 0, v, current))"

definition ParsedInternalKey_DebugString :: "ParsedInternalKey \<Rightarrow> bytes" where
  "ParsedInternalKey_DebugString k =
     [39] @ EscapeString (user_key k) @ [39] @ str '' @ '' @ decimal (unat (sequence k)) @ str '' : '' @ decimal (unat (ValueType_code (vtype k)))"

definition InternalKey_DebugString :: "InternalKey \<Rightarrow> bytes" where
  "InternalKey_DebugString rep =
     (case ParseInternalKey rep of
        Some parsed \<Rightarrow> ParsedInternalKey_DebugString parsed
      | None \<Rightarrow> str ''(bad)'' @ EscapeString rep)"

subsection \<open>Decimal numbers\<close>

definition is_digit :: "byte \<Rightarrow> bool" where
  "is_digit ch \<longleftrightarrow> 48 \<le> ch \<and> ch \<le> 57"

definition digits_from :: "nat \<Rightarrow> bytes \<Rightarrow> nat" where
  "digits_from v ds = foldl (\<lambda>v d. v * 10 + (unat d - 48)) v ds"

lemma digits_from_simps [simp]:
  "digits_from v [] = v" "digits_from v (d # ds) = digits_from (v * 10 + (unat d - 48)) ds"
  "digits_from v (ds @ es) = digits_from (digits_from v ds) es"
  by (simp_all add: digits_from_def)

lemma digits_from_ge: "v \<le> digits_from v ds"
proof (induction ds arbitrary: v)
  case (Cons d ds)
  have "v \<le> v * 10 + (unat d - 48)" by simp
  then show ?case using Cons [of "v * 10 + (unat d - 48)"] by (simp only: digits_from_simps)
qed simp

lemma decimal_props: "digits_from 0 (decimal n) = n" "list_all is_digit (decimal n)" "decimal n \<noteq> []"
proof -
  have "digits_from 0 (decimal n) = n \<and> list_all is_digit (decimal n) \<and> decimal n \<noteq> []"
  proof (induction n rule: decimal.induct)
    case (1 n)
    have d: "unat (of_nat (48 + m) :: byte) = 48 + m" "is_digit (of_nat (48 + m))" if "m < 10" for m :: nat
    proof -
      show u: "unat (of_nat (48 + m) :: byte) = 48 + m" using that unat_of_nat [of "48 + m", where 'a = 8] by simp
      show "is_digit (of_nat (48 + m))" using that unfolding is_digit_def word_le_nat_alt u by simp
    qed
    show ?case
    proof (cases "n < 10")
      case True
      then show ?thesis using d [of n] by (subst (1 2 3) decimal.simps) (simp add: add.commute)
    next
      case False
      then show ?thesis using 1 [OF False] d [of "n mod 10"] by (subst (1 2 3) decimal.simps) (simp add: add.commute)
    qed
  qed
  then show "digits_from 0 (decimal n) = n" "list_all is_digit (decimal n)" "decimal n \<noteq> []" by simp_all
qed

lemma decimal_length: "n < 10 ^ k \<Longrightarrow> 0 < k \<Longrightarrow> length (decimal n) \<le> k"
proof (induction k arbitrary: n)
  case (Suc k)
  show ?case
  proof (cases "n < 10")
    case True
    then show ?thesis by (subst decimal.simps) simp
  next
    case False
    then have "n div 10 < 10 ^ k" "0 < k" using Suc.prems by (cases k; simp add: less_mult_imp_div_less mult.commute)+
    then show ?thesis using False Suc.IH [of "n div 10"] by (subst decimal.simps) simp
  qed
qed simp

lemma overflow_check:
  assumes "is_digit ch"
  shows "(val > kMaxUint64 div 10 \<or> val = kMaxUint64 div 10 \<and> ch > 48 + ucast (kMaxUint64 mod 10)) \<longleftrightarrow> 2 ^ 64 \<le> unat val * 10 + (unat ch - 48)"
proof -
  have c: "48 \<le> unat ch" "unat ch \<le> 57" using assms by (simp_all add: is_digit_def word_le_nat_alt)
  have k: "kMaxUint64 div 10 = 1844674407370955161" "kMaxUint64 mod 10 = 5" by (simp_all add: kMaxUint64_def)
  have "val > 1844674407370955161 \<longleftrightarrow> unat val > 1844674407370955161" "val = 1844674407370955161 \<longleftrightarrow> unat val = 1844674407370955161"
    by (simp_all add: word_less_nat_alt word_unat_eq_iff)
  moreover have "ch > 48 + ucast (5 :: u64) \<longleftrightarrow> unat ch > 53" by (simp add: word_less_nat_alt)
  ultimately show ?thesis unfolding k using c by auto
qed

lemma consume_loop:
  assumes "list_all is_digit ds" "rest = [] \<or> \<not> is_digit (hd rest)"
  shows "ConsumeDecimalNumber_loop val (ds @ rest) =
    (if digits_from (unat val) ds < 2 ^ 64 then Some (of_nat (digits_from (unat val) ds), rest) else None)"
  using assms(1)
proof (induction ds arbitrary: val)
  case Nil
  then show ?case using assms(2) unsigned_less [of val] by (cases rest) (auto simp: is_digit_def)
next
  case (Cons ch ds)
  then have ch: "is_digit ch" by simp
  let ?n = "unat val * 10 + (unat ch - 48)"
  show ?case
  proof (cases "2 ^ 64 \<le> ?n")
    case True
    then have "\<not> digits_from ?n ds < 2 ^ 64" using digits_from_ge [of ?n ds] by linarith
    then show ?thesis using ch True overflow_check [OF ch, of val] by (simp add: is_digit_def not_less)
  next
    case False
    have "unat (ucast ch - 48 :: u64) = unat ch - 48"
      using ch unat_ucast_le [of ch, where 'b = 64] by (simp add: is_digit_def word_le_nat_alt unat_sub_if')
    then have n: "unat (val * 10 + (ucast ch - 48)) = ?n" using False by (simp add: unat_word_ariths)
    have "\<not> (ch < 48 \<or> ch > 57)" using ch by (auto simp: is_digit_def)
    moreover have "\<not> (val > kMaxUint64 div 10 \<or> val = kMaxUint64 div 10 \<and> ch > 48 + ucast (kMaxUint64 mod 10))"
      using overflow_check [OF ch, of val] False by blast
    ultimately have "ConsumeDecimalNumber_loop val ((ch # ds) @ rest) = ConsumeDecimalNumber_loop (val * 10 + (ucast ch - 48)) (ds @ rest)"
      by (simp only: append_Cons ConsumeDecimalNumber_loop.simps if_False)
    then show ?thesis using Cons.IH [of "val * 10 + (ucast ch - 48)"] Cons.prems by (simp add: n)
  qed
qed

lemma ConsumeDecimalNumber_digits:
  assumes "list_all is_digit ds" "ds \<noteq> []" "rest = [] \<or> \<not> is_digit (hd rest)" "digits_from 0 ds < 2 ^ 64"
  shows "ConsumeDecimalNumber (ds @ rest) val = (True, of_nat (digits_from 0 ds), rest)"
  using consume_loop [OF assms(1,3), of 0] assms by (simp add: ConsumeDecimalNumber_def)

end
