(* ===== verification/Filename.thy ===== *)
theory Filename
  imports Logging Memenv
begin

text \<open>
  The names of the files of a database (\<open>db/filename.cc\<close>) and the step that makes a descriptor current. The
  functions that put a number into a name assert that it is positive: the properties assume it.
\<close>

subsection \<open>The routines\<close>

datatype FileType = kLogFile | kDBLockFile | kTableFile | kDescriptorFile | kCurrentFile | kTempFile | kInfoLogFile

text \<open>What \<open>printf\<close> writes for \<open>%06llu\<close>.\<close>

definition six_digits :: "u64 \<Rightarrow> bytes" where
  "six_digits n = replicate (6 - length (decimal (unat n))) 48 @ decimal (unat n)"

definition MakeFileName :: "bytes \<Rightarrow> u64 \<Rightarrow> bytes \<Rightarrow> bytes" where
  "MakeFileName dbname number sfx = dbname @ str ''/'' @ six_digits number @ str ''.'' @ sfx"

definition LogFileName :: "bytes \<Rightarrow> u64 \<Rightarrow> bytes" where
  "LogFileName dbname number = MakeFileName dbname number (str ''log'')"

definition TableFileName :: "bytes \<Rightarrow> u64 \<Rightarrow> bytes" where
  "TableFileName dbname number = MakeFileName dbname number (str ''ldb'')"

definition SSTTableFileName :: "bytes \<Rightarrow> u64 \<Rightarrow> bytes" where
  "SSTTableFileName dbname number = MakeFileName dbname number (str ''sst'')"

definition DescriptorFileName :: "bytes \<Rightarrow> u64 \<Rightarrow> bytes" where
  "DescriptorFileName dbname number = dbname @ str ''/MANIFEST-'' @ six_digits number"

definition CurrentFileName :: "bytes \<Rightarrow> bytes" where
  "CurrentFileName dbname = dbname @ str ''/CURRENT''"

definition LockFileName :: "bytes \<Rightarrow> bytes" where
  "LockFileName dbname = dbname @ str ''/LOCK''"

definition TempFileName :: "bytes \<Rightarrow> u64 \<Rightarrow> bytes" where
  "TempFileName dbname number = MakeFileName dbname number (str ''dbtmp'')"

definition InfoLogFileName :: "bytes \<Rightarrow> bytes" where
  "InfoLogFileName dbname = dbname @ str ''/LOG''"

definition OldInfoLogFileName :: "bytes \<Rightarrow> bytes" where
  "OldInfoLogFileName dbname = dbname @ str ''/LOG.old''"

text \<open>\<open>None\<close>: the function returns \<open>false\<close>, and leaves \<open>*number\<close> unset.\<close>

definition ParseFileName :: "bytes \<Rightarrow> (u64 \<times> FileType) option" where
  "ParseFileName filename =
     (let rest = filename in
      if rest = str ''CURRENT'' then Some (0, kCurrentFile)
      else if rest = str ''LOCK'' then Some (0, kDBLockFile)
      else if rest = str ''LOG'' \<or> rest = str ''LOG.old'' then Some (0, kInfoLogFile)
      else if prefix (str ''MANIFEST-'') rest then
        let (b, num, rest) = ConsumeDecimalNumber (drop (length (str ''MANIFEST-'')) rest) 0
        in if \<not> b then None else if rest \<noteq> [] then None else Some (num, kDescriptorFile)
      else
        let (b, num, rest) = ConsumeDecimalNumber rest 0
        in if \<not> b then None
           else if rest = str ''.log'' then Some (num, kLogFile)
           else if rest = str ''.sst'' \<or> rest = str ''.ldb'' then Some (num, kTableFile)
           else if rest = str ''.dbtmp'' then Some (num, kTempFile)
           else None)"

definition SetCurrentFile :: "('e, 's, 'r, 'w) Env \<Rightarrow> 'e \<Rightarrow> bytes \<Rightarrow> u64 \<Rightarrow> (Status \<times> 'e) option" where
  "SetCurrentFile env e dbname descriptor_number = do {
     let manifest = DescriptorFileName dbname descriptor_number;
     let contents = drop (length dbname + 1) manifest;
     let tmp = TempFileName dbname descriptor_number;
     (s, e) \<leftarrow> WriteStringToFileSync env e (contents @ [10]) tmp;
     (s, e) \<leftarrow> (if Status_ok s then env_RenameFile env e tmp (CurrentFileName dbname) else Some (s, e));
     if \<not> Status_ok s then do {
       (_, e) \<leftarrow> env_RemoveFile env e tmp;
       Some (s, e)
     } else Some (s, e)
   }"

subsection \<open>Reading the names back\<close>

lemma str_simps [simp]: "str [] = []" "str (c # cs) = of_char c # str cs" "length (str s) = length s"
  by (simp_all add: str_def)

lemma digits_replicate_0: "digits_from 0 (replicate k 48 @ ds) = digits_from 0 ds"
  by (induction k) simp_all

lemma six_digits_props: "digits_from 0 (six_digits n) = unat n" "list_all is_digit (six_digits n)" "six_digits n \<noteq> []"
  using decimal_props [of "unat n"] by (simp_all only: six_digits_def digits_replicate_0) (auto simp: list_all_iff is_digit_def)

lemma consume_six_digits: "rest = [] \<or> \<not> is_digit (hd rest) \<Longrightarrow> ConsumeDecimalNumber (six_digits n @ rest) v = (True, n, rest)"
  using ConsumeDecimalNumber_digits [OF six_digits_props(2,3), of rest n v] unsigned_less [of n] by (simp add: six_digits_props(1))

lemma six_digits_head:
  assumes "\<not> is_digit c"
  shows "six_digits n @ rest \<noteq> c # cs" "\<not> prefix (c # cs) (six_digits n @ rest)"
  using six_digits_props(2,3) [of n] assms by (cases "six_digits n"; auto)+

lemma parse_number:
  assumes "rest \<noteq> [] \<and> hd rest = 46"
  shows "ParseFileName (six_digits n @ rest) =
    (if rest = str ''.log'' then Some (n, kLogFile)
     else if rest = str ''.sst'' \<or> rest = str ''.ldb'' then Some (n, kTableFile)
     else if rest = str ''.dbtmp'' then Some (n, kTempFile) else None)"
proof -
  have c: "ConsumeDecimalNumber (six_digits n @ rest) 0 = (True, n, rest)" using assms by (intro consume_six_digits) (simp add: is_digit_def)
  have "\<not> is_digit 67" "\<not> is_digit 76" "\<not> is_digit 77" by (simp_all add: is_digit_def)
  then show ?thesis unfolding ParseFileName_def Let_def c by (simp add: six_digits_head)
qed

lemma parse_descriptor: "ParseFileName (str ''MANIFEST-'' @ six_digits n) = Some (n, kDescriptorFile)"
  using consume_six_digits [of "[]" n 0] by (simp add: ParseFileName_def)

lemma tail_name: "drop (length dbname + 1) (dbname @ c # name) = name"
  by simp

lemma name_tails:
  "drop (length dbname + 1) (MakeFileName dbname n sfx) = six_digits n @ 46 # sfx"
  "drop (length dbname + 1) (DescriptorFileName dbname n) = str ''MANIFEST-'' @ six_digits n"
  by (simp_all add: MakeFileName_def DescriptorFileName_def)

text \<open>Parsing a full name of a file in a directory, as the clients do with the entries of the directory.\<close>

definition parse_in :: "bytes \<Rightarrow> bytes \<Rightarrow> (u64 \<times> FileType) option" where
  "parse_in dbname name = ParseFileName (drop (length dbname + 1) name)"

lemma names_differ: "TempFileName dbname n \<noteq> CurrentFileName dbname"
proof -
  have "\<not> is_digit 67" by (simp add: is_digit_def)
  then show ?thesis
    using six_digits_head(1) [of 67 n "str ''.dbtmp''" "str ''URRENT''"] by (simp add: TempFileName_def MakeFileName_def CurrentFileName_def)
qed

subsection \<open>Properties\<close>

text \<open>
  C33: The names of database files read back. For every database name and every 64-bit number above zero, as
  the functions assert, the part of a generated name after the directory is parsed to the number and the
  type it was made from; the names with no number are recognised too.
\<close>

theorem file_names_parse:
  assumes "0 < n"
  shows "parse_in d (LogFileName d n) = Some (n, kLogFile) \<and> parse_in d (TableFileName d n) = Some (n, kTableFile) \<and>
    parse_in d (SSTTableFileName d n) = Some (n, kTableFile) \<and> parse_in d (DescriptorFileName d n) = Some (n, kDescriptorFile) \<and>
    parse_in d (TempFileName d n) = Some (n, kTempFile) \<and> parse_in d (CurrentFileName d) = Some (0, kCurrentFile) \<and>
    parse_in d (LockFileName d) = Some (0, kDBLockFile) \<and> parse_in d (InfoLogFileName d) = Some (0, kInfoLogFile) \<and>
    parse_in d (OldInfoLogFileName d) = Some (0, kInfoLogFile)"
proof -
  have "parse_in d (CurrentFileName d) = Some (0, kCurrentFile)" "parse_in d (LockFileName d) = Some (0, kDBLockFile)"
    "parse_in d (InfoLogFileName d) = Some (0, kInfoLogFile)" "parse_in d (OldInfoLogFileName d) = Some (0, kInfoLogFile)"
    by (simp_all add: parse_in_def CurrentFileName_def LockFileName_def InfoLogFileName_def OldInfoLogFileName_def ParseFileName_def)
  moreover have "parse_in d (LogFileName d n) = Some (n, kLogFile)" "parse_in d (TableFileName d n) = Some (n, kTableFile)"
    "parse_in d (SSTTableFileName d n) = Some (n, kTableFile)" "parse_in d (TempFileName d n) = Some (n, kTempFile)"
    unfolding parse_in_def LogFileName_def TableFileName_def SSTTableFileName_def TempFileName_def name_tails by (simp_all add: parse_number)
  moreover have "parse_in d (DescriptorFileName d n) = Some (n, kDescriptorFile)" unfolding parse_in_def name_tails by (rule parse_descriptor)
  ultimately show ?thesis by blast
qed

theorem file_names_parse_witness:
  "TableFileName (str ''db'') 7 = str ''db/000007.ldb'' \<and> parse_in (str ''db'') (str ''db/000007.ldb'') = Some (7, kTableFile)"
proof -
  have "TableFileName (str ''db'') 7 = str ''db/000007.ldb''"
    by code_simp
  then show ?thesis using file_names_parse [of 7 "str ''db''"] by simp
qed

text \<open>
  C34: Making a descriptor current. In every state the in-memory environment reaches when \<open>NewAppendableFile\<close>
  is only called for names that have files, and for every number above zero, \<open>SetCurrentFile\<close> succeeds; then
  \<open>CURRENT\<close> holds one line with a name that parses to the descriptor's number, the temporary file is gone and
  no other file has changed.
\<close>

theorem set_current_file:
  assumes "(mem_step fresh)\<^sup>*\<^sup>* (MemEnv_new, {#}) (e, hs)" "0 < n"
  shows "\<exists>e' name. SetCurrentFile (InMemoryEnv fresh) e dbname n = Some (OK, e') \<and> ParseFileName name = Some (n, kDescriptorFile) \<and>
    mem_files e' = (mem_files e)(CurrentFileName dbname \<mapsto> name @ [10], TempFileName dbname n := None)"
proof -
  let ?name = "str ''MANIFEST-'' @ six_digits n" and ?tmp = "TempFileName dbname n"
  have inv: "mem_inv e hs" using assms(1) by (rule mem_reach_inv)
  have "length (decimal (unat n)) \<le> 20" by (intro decimal_length order.strict_trans2 [OF unsigned_less]) simp_all
  then have "length (?name @ [10]) < 2 ^ 64" by (simp add: six_digits_def)
  then obtain e1 where e1: "WriteStringToFileSync (InMemoryEnv fresh) e (?name @ [10]) ?tmp = Some (OK, e1)" "mem_inv e1 hs"
      "mem_files e1 = (mem_files e)(?tmp \<mapsto> ?name @ [10])"
    using WriteString_mem [OF inv, of "?name @ [10]" fresh ?tmp True] unfolding WriteStringToFileSync_def by blast
  have "MemEnv_FileExists e1 ?tmp" using e1(3) mem_files_live [OF e1(2), of ?tmp] by (simp add: MemEnv_FileExists_def)
  then obtain e2 where e2: "MemEnv_RenameFile e1 ?tmp (CurrentFileName dbname) = Some (OK, e2)"
      "mem_files e2 = (mem_files e1)(CurrentFileName dbname := mem_files e1 ?tmp, ?tmp := None)"
    using RenameFile_files(1) [OF e1(2), of ?tmp "CurrentFileName dbname"] names_differ [of dbname n] by auto
  have "env_RenameFile (InMemoryEnv fresh) = MemEnv_RenameFile" by (simp add: InMemoryEnv_def)
  then have "SetCurrentFile (InMemoryEnv fresh) e dbname n = Some (OK, e2)"
    using e1(1) e2(1) unfolding SetCurrentFile_def Let_def name_tails by simp
  moreover have "mem_files e2 = (mem_files e)(CurrentFileName dbname \<mapsto> ?name @ [10], ?tmp := None)"
    using names_differ [of dbname n] unfolding e2(2) e1(3) by (auto simp: fun_eq_iff)
  ultimately show ?thesis using parse_descriptor [of n] by blast
qed

theorem set_current_file_witness:
  "\<exists>e' name. SetCurrentFile (InMemoryEnv (\<lambda>i j. 0)) MemEnv_new (str ''db'') 5 = Some (OK, e') \<and> ParseFileName name = Some (5, kDescriptorFile) \<and>
     mem_files e' (str ''db/CURRENT'') = Some (name @ [10])"
  using set_current_file [of "\<lambda>i j. 0" MemEnv_new "{#}" 5 "str ''db''"] names_differ [of "str ''db''" 5]
  by (auto simp: CurrentFileName_def)

end
