(* ===== verification/VersionEdit.thy ===== *)
theory VersionEdit
  imports Logging Status "HOL-Library.Product_Lexorder"
begin

text \<open>
  The records of the descriptor log (\<open>db/version_edit.h\<close>, \<open>db/version_edit.cc\<close>): a change to the set of files,
  its encoding and its decoding.
\<close>

subsection \<open>Data\<close>

definition kNumLevels :: nat where "kNumLevels = 7"

record FileMetaData =
  refs :: int
  allowed_seeks :: int
  number :: u64
  file_size :: u64
  smallest :: InternalKey
  largest :: InternalKey

definition FileMetaData_new :: FileMetaData where
  "FileMetaData_new = \<lparr>refs = 0, allowed_seeks = 2 ^ 30, number = 0, file_size = 0, smallest = [], largest = []\<rparr>"

definition kComparator :: u32 where "kComparator = 1"
definition kLogNumber :: u32 where "kLogNumber = 2"
definition kNextFileNumber :: u32 where "kNextFileNumber = 3"
definition kLastSequence :: u32 where "kLastSequence = 4"
definition kCompactPointer :: u32 where "kCompactPointer = 5"
definition kDeletedFile :: u32 where "kDeletedFile = 6"
definition kNewFile :: u32 where "kNewFile = 7"
definition kPrevLogNumber :: u32 where "kPrevLogNumber = 9"

lemmas Tag_defs = kComparator_def kLogNumber_def kNextFileNumber_def kLastSequence_def kCompactPointer_def
  kDeletedFile_def kNewFile_def kPrevLogNumber_def

text \<open>The set of deleted files is ordered by level and number; it is kept as a strictly ascending list.\<close>

record VersionEdit =
  ve_comparator :: bytes
  ve_log_number :: u64
  ve_prev_log_number :: u64
  ve_next_file_number :: u64
  ve_last_sequence :: SequenceNumber
  has_comparator :: bool
  has_log_number :: bool
  has_prev_log_number :: bool
  has_next_file_number :: bool
  has_last_sequence :: bool
  compact_pointers :: "(int \<times> InternalKey) list"
  deleted_files :: "(int \<times> u64) list"
  new_files :: "(int \<times> FileMetaData) list"

definition VersionEdit_Clear :: VersionEdit where
  "VersionEdit_Clear =
     \<lparr>ve_comparator = [], ve_log_number = 0, ve_prev_log_number = 0, ve_next_file_number = 0, ve_last_sequence = 0,
      has_comparator = False, has_log_number = False, has_prev_log_number = False, has_next_file_number = False,
      has_last_sequence = False, compact_pointers = [], deleted_files = [], new_files = []\<rparr>"

definition SetComparatorName :: "VersionEdit \<Rightarrow> slice \<Rightarrow> VersionEdit" where
  "SetComparatorName e name = e\<lparr>has_comparator := True, ve_comparator := name\<rparr>"

definition SetLogNumber :: "VersionEdit \<Rightarrow> u64 \<Rightarrow> VersionEdit" where
  "SetLogNumber e num = e\<lparr>has_log_number := True, ve_log_number := num\<rparr>"

definition SetPrevLogNumber :: "VersionEdit \<Rightarrow> u64 \<Rightarrow> VersionEdit" where
  "SetPrevLogNumber e num = e\<lparr>has_prev_log_number := True, ve_prev_log_number := num\<rparr>"

definition SetNextFile :: "VersionEdit \<Rightarrow> u64 \<Rightarrow> VersionEdit" where
  "SetNextFile e num = e\<lparr>has_next_file_number := True, ve_next_file_number := num\<rparr>"

definition SetLastSequence :: "VersionEdit \<Rightarrow> SequenceNumber \<Rightarrow> VersionEdit" where
  "SetLastSequence e seq = e\<lparr>has_last_sequence := True, ve_last_sequence := seq\<rparr>"

definition SetCompactPointer :: "VersionEdit \<Rightarrow> int \<Rightarrow> InternalKey \<Rightarrow> VersionEdit" where
  "SetCompactPointer e level key = e\<lparr>compact_pointers := compact_pointers e @ [(level, key)]\<rparr>"

definition AddFile :: "VersionEdit \<Rightarrow> int \<Rightarrow> u64 \<Rightarrow> u64 \<Rightarrow> InternalKey \<Rightarrow> InternalKey \<Rightarrow> VersionEdit" where
  "AddFile e level num fsize small large =
     (let f = FileMetaData_new\<lparr>number := num, file_size := fsize, smallest := small, largest := large\<rparr>
      in e\<lparr>new_files := new_files e @ [(level, f)]\<rparr>)"

definition RemoveFile :: "VersionEdit \<Rightarrow> int \<Rightarrow> u64 \<Rightarrow> VersionEdit" where
  "RemoveFile e level num = e\<lparr>deleted_files := insort_insert (level, num) (deleted_files e)\<rparr>"

subsection \<open>Encoding\<close>

definition encode_pointer :: "bytes \<Rightarrow> int \<times> InternalKey \<Rightarrow> bytes" where
  "encode_pointer dst p =
     PutLengthPrefixedSlice (PutVarint32 (PutVarint32 dst kCompactPointer) (of_int (fst p))) (snd p)"

definition encode_deleted :: "bytes \<Rightarrow> int \<times> u64 \<Rightarrow> bytes" where
  "encode_deleted dst p = PutVarint64 (PutVarint32 (PutVarint32 dst kDeletedFile) (of_int (fst p))) (snd p)"

definition encode_new :: "bytes \<Rightarrow> int \<times> FileMetaData \<Rightarrow> bytes" where
  "encode_new dst p =
     (let f = snd p;
          dst = PutVarint32 (PutVarint32 dst kNewFile) (of_int (fst p));
          dst = PutVarint64 (PutVarint64 dst (number f)) (file_size f)
      in PutLengthPrefixedSlice (PutLengthPrefixedSlice dst (smallest f)) (largest f))"

definition VersionEdit_EncodeTo :: "VersionEdit \<Rightarrow> bytes \<Rightarrow> bytes" where
  "VersionEdit_EncodeTo e dst =
     (let dst = (if has_comparator e then PutLengthPrefixedSlice (PutVarint32 dst kComparator) (ve_comparator e) else dst);
          dst = (if has_log_number e then PutVarint64 (PutVarint32 dst kLogNumber) (ve_log_number e) else dst);
          dst = (if has_prev_log_number e then PutVarint64 (PutVarint32 dst kPrevLogNumber) (ve_prev_log_number e) else dst);
          dst = (if has_next_file_number e then PutVarint64 (PutVarint32 dst kNextFileNumber) (ve_next_file_number e) else dst);
          dst = (if has_last_sequence e then PutVarint64 (PutVarint32 dst kLastSequence) (ve_last_sequence e) else dst);
          dst = foldl encode_pointer dst (compact_pointers e);
          dst = foldl encode_deleted dst (deleted_files e)
      in foldl encode_new dst (new_files e))"

subsection \<open>Decoding\<close>

definition GetInternalKey :: "slice \<Rightarrow> (InternalKey \<times> slice) option" where
  "GetInternalKey input =
     (case GetLengthPrefixedSlice input of
        None \<Rightarrow> None
      | Some (s, input) \<Rightarrow> let (key, b) = InternalKey_DecodeFrom s in if b then Some (key, input) else None)"

definition GetLevel :: "slice \<Rightarrow> (int \<times> slice) option" where
  "GetLevel input =
     (case GetVarint32 input of
        None \<Rightarrow> None
      | Some (v, input) \<Rightarrow> if v < of_nat kNumLevels then Some (int (unat v), input) else None)"

text \<open>One case of the \<open>switch\<close>: the edit and what is left of the input, or \<open>msg\<close>.\<close>

definition decode_field :: "u32 \<Rightarrow> VersionEdit \<Rightarrow> slice \<Rightarrow> bytes + VersionEdit \<times> slice" where
  "decode_field tag e input =
     (if tag = kComparator then
        (case GetLengthPrefixedSlice input of
           Some (s, input) \<Rightarrow> Inr (e\<lparr>ve_comparator := s, has_comparator := True\<rparr>, input)
         | None \<Rightarrow> Inl (str ''comparator name''))
      else if tag = kLogNumber then
        (case GetVarint64 input of
           Some (n, input) \<Rightarrow> Inr (e\<lparr>ve_log_number := n, has_log_number := True\<rparr>, input)
         | None \<Rightarrow> Inl (str ''log number''))
      else if tag = kPrevLogNumber then
        (case GetVarint64 input of
           Some (n, input) \<Rightarrow> Inr (e\<lparr>ve_prev_log_number := n, has_prev_log_number := True\<rparr>, input)
         | None \<Rightarrow> Inl (str ''previous log number''))
      else if tag = kNextFileNumber then
        (case GetVarint64 input of
           Some (n, input) \<Rightarrow> Inr (e\<lparr>ve_next_file_number := n, has_next_file_number := True\<rparr>, input)
         | None \<Rightarrow> Inl (str ''next file number''))
      else if tag = kLastSequence then
        (case GetVarint64 input of
           Some (n, input) \<Rightarrow> Inr (e\<lparr>ve_last_sequence := n, has_last_sequence := True\<rparr>, input)
         | None \<Rightarrow> Inl (str ''last sequence number''))
      else if tag = kCompactPointer then
        (case do { (level, input) \<leftarrow> GetLevel input; (key, input) \<leftarrow> GetInternalKey input; Some (level, key, input) } of
           Some (level, key, input) \<Rightarrow> Inr (e\<lparr>compact_pointers := compact_pointers e @ [(level, key)]\<rparr>, input)
         | None \<Rightarrow> Inl (str ''compaction pointer''))
      else if tag = kDeletedFile then
        (case do { (level, input) \<leftarrow> GetLevel input; (n, input) \<leftarrow> GetVarint64 input; Some (level, n, input) } of
           Some (level, n, input) \<Rightarrow> Inr (e\<lparr>deleted_files := insort_insert (level, n) (deleted_files e)\<rparr>, input)
         | None \<Rightarrow> Inl (str ''deleted file''))
      else if tag = kNewFile then
        (case do { (level, input) \<leftarrow> GetLevel input; (n, input) \<leftarrow> GetVarint64 input; (sz, input) \<leftarrow> GetVarint64 input;
                   (small, input) \<leftarrow> GetInternalKey input; (large, input) \<leftarrow> GetInternalKey input;
                   Some (level, FileMetaData_new\<lparr>number := n, file_size := sz, smallest := small, largest := large\<rparr>, input) } of
           Some (level, f, input) \<Rightarrow> Inr (e\<lparr>new_files := new_files e @ [(level, f)]\<rparr>, input)
         | None \<Rightarrow> Inl (str ''new-file entry''))
      else Inl (str ''unknown tag''))"

text \<open>The loop: \<open>msg\<close>, the edit and what is left of the input.\<close>

function DecodeFrom_loop :: "VersionEdit \<Rightarrow> slice \<Rightarrow> bytes option \<times> VersionEdit \<times> slice" where
  "DecodeFrom_loop e input =
     (case GetVarint32 input of
        None \<Rightarrow> (None, e, input)
      | Some (tag, rest) \<Rightarrow>
          (case decode_field tag e rest of
             Inl msg \<Rightarrow> (Some msg, e, rest)
           | Inr (e, rest) \<Rightarrow> DecodeFrom_loop e rest))"
  by pat_completeness auto

lemma shorter:
  "GetVarint32 p = Some (v, q) \<Longrightarrow> length q < length p" "GetVarint64 p = Some (w, q) \<Longrightarrow> length q < length p"
  "GetLengthPrefixedSlice p = Some (s, q) \<Longrightarrow> length q < length p"
  using GetVarint32_suffix [of p v q] GetVarint64_suffix [of p w q] GetLengthPrefixedSlice_suffix [of p s q] by auto

lemma shorter_parts:
  "GetInternalKey p = Some (k, q) \<Longrightarrow> length q < length p" "GetLevel p = Some (l, q) \<Longrightarrow> length q < length p"
  by (auto simp: GetInternalKey_def GetLevel_def split: option.splits if_splits prod.splits dest: shorter)

lemma decode_field_shorter:
  assumes "decode_field tag e input = Inr (e', rest)"
  shows "length rest < length input"
  using assms unfolding decode_field_def
  by (auto split: if_splits option.splits bind_splits prod.splits dest!: shorter shorter_parts)

termination DecodeFrom_loop
proof (relation "measure (\<lambda>(e, input). length input)")
  fix e input p tag rest q e' rest'
  assume a: "GetVarint32 input = Some p" "(tag, rest) = p" "decode_field tag e rest = Inr q" "(e', rest') = q"
  have "GetVarint32 input = Some (tag, rest)" "decode_field tag e rest = Inr (e', rest')" using a by simp_all
  then show "((e', rest'), e, input) \<in> measure (\<lambda>(e, input). length input)"
    using shorter(1) [of input tag rest] decode_field_shorter [of tag e rest e' rest'] by simp
qed simp

declare DecodeFrom_loop.simps [simp del]

definition VersionEdit_DecodeFrom :: "slice \<Rightarrow> Status \<times> VersionEdit" where
  "VersionEdit_DecodeFrom src =
     (let (msg, e, input) = DecodeFrom_loop VersionEdit_Clear src;
          msg = (if msg = None \<and> input \<noteq> [] then Some (str ''invalid tag'') else msg)
      in (case msg of Some m \<Rightarrow> Corruption (str ''VersionEdit'') m | None \<Rightarrow> OK, e))"

definition VersionEdit_DebugString :: "VersionEdit \<Rightarrow> bytes" where
  "VersionEdit_DebugString e =
     (let r = str ''VersionEdit {'';
          nl = [10];
          r = (if has_comparator e then r @ nl @ str ''  Comparator: '' @ ve_comparator e else r);
          r = (if has_log_number e then AppendNumberTo (r @ nl @ str ''  LogNumber: '') (ve_log_number e) else r);
          r = (if has_prev_log_number e then AppendNumberTo (r @ nl @ str ''  PrevLogNumber: '') (ve_prev_log_number e) else r);
          r = (if has_next_file_number e then AppendNumberTo (r @ nl @ str ''  NextFile: '') (ve_next_file_number e) else r);
          r = (if has_last_sequence e then AppendNumberTo (r @ nl @ str ''  LastSeq: '') (ve_last_sequence e) else r);
          r = foldl (\<lambda>r p. AppendNumberTo (r @ nl @ str ''  CompactPointer: '') (of_int (fst p)) @ str '' '' @ InternalKey_DebugString (snd p))
                r (compact_pointers e);
          r = foldl (\<lambda>r p. AppendNumberTo (AppendNumberTo (r @ nl @ str ''  RemoveFile: '') (of_int (fst p)) @ str '' '') (snd p))
                r (deleted_files e);
          r = foldl (\<lambda>r p. AppendNumberTo (AppendNumberTo (AppendNumberTo (r @ nl @ str ''  AddFile: '') (of_int (fst p)) @ str '' '')
                              (number (snd p)) @ str '' '') (file_size (snd p)) @
                            str '' '' @ InternalKey_DebugString (smallest (snd p)) @ str '' .. '' @ InternalKey_DebugString (largest (snd p)))
                r (new_files e)
      in r @ nl @ str ''}'' @ nl)"

subsection \<open>Well-formed edits\<close>

definition level_ok :: "int \<Rightarrow> bool" where
  "level_ok level \<longleftrightarrow> 0 \<le> level \<and> level < int kNumLevels"

definition key_fits :: "InternalKey \<Rightarrow> bool" where
  "key_fits k \<longleftrightarrow> k \<noteq> [] \<and> length k < 2 ^ 32"

definition edit_ok :: "VersionEdit \<Rightarrow> bool" where
  "edit_ok e \<longleftrightarrow> length (ve_comparator e) < 2 ^ 32 \<and>
     (\<not> has_comparator e \<longrightarrow> ve_comparator e = []) \<and> (\<not> has_log_number e \<longrightarrow> ve_log_number e = 0) \<and>
     (\<not> has_prev_log_number e \<longrightarrow> ve_prev_log_number e = 0) \<and> (\<not> has_next_file_number e \<longrightarrow> ve_next_file_number e = 0) \<and>
     (\<not> has_last_sequence e \<longrightarrow> ve_last_sequence e = 0) \<and>
     list_all (\<lambda>(level, k). level_ok level \<and> key_fits k) (compact_pointers e) \<and>
     list_all (\<lambda>(level, n). level_ok level) (deleted_files e) \<and> sorted (deleted_files e) \<and> distinct (deleted_files e) \<and>
     list_all (\<lambda>(level, f). level_ok level \<and> refs f = 0 \<and> allowed_seeks f = 2 ^ 30 \<and> key_fits (smallest f) \<and> key_fits (largest f))
       (new_files e)"

lemma GetLevel_ok: "GetLevel input = Some (level, rest) \<Longrightarrow> level_ok level"
  by (auto simp: GetLevel_def level_ok_def kNumLevels_def word_less_def split: option.splits if_splits)

lemma GetLengthPrefixedSlice_length:
  assumes "GetLengthPrefixedSlice input = Some (s, rest)"
  shows "length s < 2 ^ 32"
proof -
  obtain len :: u32 and input' where s: "s = take (unat len) input'"
    using assms by (auto simp: GetLengthPrefixedSlice_def split: option.splits if_splits)
  have "length s \<le> unat len" unfolding s by simp
  then show ?thesis by (rule order.strict_trans1) (rule order.strict_trans2 [OF unsigned_less], simp)
qed

lemma GetInternalKey_fits: "GetInternalKey input = Some (k, rest) \<Longrightarrow> key_fits k"
  by (auto simp: GetInternalKey_def InternalKey_DecodeFrom_def key_fits_def split: option.splits if_splits
      dest: GetLengthPrefixedSlice_length)

lemma edit_ok_Clear: "edit_ok VersionEdit_Clear"
  by (simp add: edit_ok_def VersionEdit_Clear_def)

text \<open>What a field does to the edit.\<close>

inductive edit_step :: "VersionEdit \<Rightarrow> VersionEdit \<Rightarrow> bool" for e :: VersionEdit where
  comparator_field: "length s < 2 ^ 32 \<Longrightarrow> edit_step e (e\<lparr>ve_comparator := s, has_comparator := True\<rparr>)"
| log_field: "edit_step e (e\<lparr>ve_log_number := n, has_log_number := True\<rparr>)"
| prev_log_field: "edit_step e (e\<lparr>ve_prev_log_number := n, has_prev_log_number := True\<rparr>)"
| next_file_field: "edit_step e (e\<lparr>ve_next_file_number := n, has_next_file_number := True\<rparr>)"
| last_sequence_field: "edit_step e (e\<lparr>ve_last_sequence := n, has_last_sequence := True\<rparr>)"
| pointer_field: "level_ok level \<Longrightarrow> key_fits key \<Longrightarrow> edit_step e (e\<lparr>compact_pointers := compact_pointers e @ [(level, key)]\<rparr>)"
| deleted_field: "level_ok level \<Longrightarrow> edit_step e (e\<lparr>deleted_files := insort_insert (level, n) (deleted_files e)\<rparr>)"
| new_field: "level_ok level \<Longrightarrow> key_fits small \<Longrightarrow> key_fits large \<Longrightarrow>
    edit_step e (e\<lparr>new_files := new_files e @ [(level, FileMetaData_new\<lparr>number := n, file_size := sz, smallest := small, largest := large\<rparr>)]\<rparr>)"

lemma decode_field_step:
  assumes "decode_field tag e input = Inr (e', rest)"
  shows "edit_step e e'"
proof -
  note ok = GetLevel_ok GetInternalKey_fits GetLengthPrefixedSlice_length
  consider "tag = kComparator" | "tag = kLogNumber" | "tag = kPrevLogNumber" | "tag = kNextFileNumber" | "tag = kLastSequence" |
    "tag = kCompactPointer" | "tag = kDeletedFile" | "tag = kNewFile"
    using assms by (fastforce simp: decode_field_def split: if_splits)
  then show ?thesis
  proof cases
    case 1
    then obtain s where "GetLengthPrefixedSlice input = Some (s, rest)" "e' = e\<lparr>ve_comparator := s, has_comparator := True\<rparr>"
      using assms by (auto simp: decode_field_def split: option.splits)
    then show ?thesis using comparator_field [OF ok(3)] by simp
  next
    case 6
    then obtain level rest1 key where "GetLevel input = Some (level, rest1)" "GetInternalKey rest1 = Some (key, rest)"
        "e' = e\<lparr>compact_pointers := compact_pointers e @ [(level, key)]\<rparr>"
      using assms by (auto simp: decode_field_def Tag_defs split: option.splits bind_splits)
    then show ?thesis using pointer_field [OF ok(1,2)] by simp
  next
    case 7
    then obtain level rest1 n where "GetLevel input = Some (level, rest1)" "GetVarint64 rest1 = Some (n, rest)"
        "e' = e\<lparr>deleted_files := insort_insert (level, n) (deleted_files e)\<rparr>"
      using assms by (auto simp: decode_field_def Tag_defs split: option.splits bind_splits)
    then show ?thesis using deleted_field [OF ok(1)] by simp
  next
    case 8
    then obtain level rest1 n rest2 sz rest3 small rest4 large where "GetLevel input = Some (level, rest1)" "GetVarint64 rest1 = Some (n, rest2)"
        "GetVarint64 rest2 = Some (sz, rest3)" "GetInternalKey rest3 = Some (small, rest4)" "GetInternalKey rest4 = Some (large, rest)"
        "e' = e\<lparr>new_files := new_files e @ [(level, FileMetaData_new\<lparr>number := n, file_size := sz, smallest := small, largest := large\<rparr>)]\<rparr>"
      using assms by (auto simp: decode_field_def Tag_defs split: option.splits bind_splits)
    then show ?thesis using new_field [OF ok(1,2,2)] by simp
  next
    case 2
    then obtain n where "e' = e\<lparr>ve_log_number := n, has_log_number := True\<rparr>" using assms by (auto simp: decode_field_def Tag_defs split: option.splits)
    then show ?thesis by (simp add: edit_step.intros)
  next
    case 3
    then obtain n where "e' = e\<lparr>ve_prev_log_number := n, has_prev_log_number := True\<rparr>" using assms by (auto simp: decode_field_def Tag_defs split: option.splits)
    then show ?thesis by (simp add: edit_step.intros)
  next
    case 4
    then obtain n where "e' = e\<lparr>ve_next_file_number := n, has_next_file_number := True\<rparr>" using assms by (auto simp: decode_field_def Tag_defs split: option.splits)
    then show ?thesis by (simp add: edit_step.intros)
  next
    case 5
    then obtain n where "e' = e\<lparr>ve_last_sequence := n, has_last_sequence := True\<rparr>" using assms by (auto simp: decode_field_def Tag_defs split: option.splits)
    then show ?thesis by (simp add: edit_step.intros)
  qed
qed

lemma edit_step_ok: "edit_step e e' \<Longrightarrow> edit_ok e \<Longrightarrow> edit_ok e'"
  by (cases rule: edit_step.cases, assumption)
    (simp_all add: edit_ok_def FileMetaData_new_def sorted_insort_insert distinct_insort_insert set_insort_insert list_all_iff)

lemma DecodeFrom_loop_ok: "edit_ok e \<Longrightarrow> edit_ok (fst (snd (DecodeFrom_loop e input)))"
proof (induction e input rule: DecodeFrom_loop.induct)
  case (1 e input)
  show ?case
  proof (cases "GetVarint32 input")
    case None
    then show ?thesis using 1 by (subst DecodeFrom_loop.simps) simp
  next
    case (Some p)
    obtain tag rest where p: "p = (tag, rest)" by (cases p)
    show ?thesis
    proof (cases "decode_field tag e rest")
      case (Inl m)
      then show ?thesis using 1 Some p by (subst DecodeFrom_loop.simps) simp
    next
      case (Inr q)
      obtain e' rest' where q: "q = (e', rest')" by (cases q)
      have "edit_ok e'" using edit_step_ok [OF decode_field_step 1(2)] Inr q by blast
      then show ?thesis using 1(1) [OF Some p [symmetric] Inr q [symmetric]] Some p Inr q by (subst DecodeFrom_loop.simps) simp
    qed
  qed
qed

lemma put_append:
  "PutVarint32 dst v = dst @ EncodeVarint32 v" "PutVarint64 dst w = dst @ EncodeVarint64 w"
  "PutLengthPrefixedSlice dst s = dst @ PutLengthPrefixedSlice [] s"
  by (simp_all add: PutVarint32_def PutVarint64_def PutLengthPrefixedSlice_def)

lemma encode_eq:
  "encode_pointer dst (level, k) = dst @ EncodeVarint32 kCompactPointer @ EncodeVarint32 (of_int level) @ PutLengthPrefixedSlice [] k"
  "encode_deleted dst (level, n) = dst @ EncodeVarint32 kDeletedFile @ EncodeVarint32 (of_int level) @ EncodeVarint64 n"
  "encode_new dst (level, f) = dst @ EncodeVarint32 kNewFile @ EncodeVarint32 (of_int level) @ EncodeVarint64 (number f) @
     EncodeVarint64 (file_size f) @ PutLengthPrefixedSlice [] (smallest f) @ PutLengthPrefixedSlice [] (largest f)"
  by (simp_all add: encode_pointer_def encode_deleted_def encode_new_def Let_def PutVarint32_def PutVarint64_def PutLengthPrefixedSlice_def)

lemma encode_append:
  "encode_pointer dst p = dst @ encode_pointer [] p" "encode_deleted dst d = dst @ encode_deleted [] d" "encode_new dst f = dst @ encode_new [] f"
  by (cases p; cases d; cases f; simp only: encode_eq append_Nil)+

lemma foldl_encode: "(\<And>dst x. f dst x = dst @ f [] x) \<Longrightarrow> foldl f dst xs = dst @ concat (map (f []) xs)"
proof (induction xs arbitrary: dst)
  case (Cons x xs)
  have "f dst x = dst @ f [] x" by (rule Cons.prems)
  then show ?case using Cons.IH [of "f dst x", OF Cons.prems] by simp
qed simp

lemma GetLevel_Encode: "level_ok level \<Longrightarrow> GetLevel (EncodeVarint32 (of_int level) @ rest) = Some (level, rest)"
proof -
  assume l: "level_ok level"
  then have "uint (of_int level :: u32) = level" by (simp add: level_ok_def kNumLevels_def uint_word_of_int_eq take_bit_int_eq_self)
  then show ?thesis using l by (simp add: GetLevel_def level_ok_def kNumLevels_def word_less_def)
qed

lemma GetInternalKey_Encode: "key_fits k \<Longrightarrow> GetInternalKey (PutLengthPrefixedSlice [] k @ rest) = Some (k, rest)"
  by (simp add: GetInternalKey_def InternalKey_DecodeFrom_def key_fits_def)

lemma decode_step:
  "decode_field tag e rest = Inr (e', rest') \<Longrightarrow> DecodeFrom_loop e (EncodeVarint32 tag @ rest) = DecodeFrom_loop e' rest'"
  by (subst DecodeFrom_loop.simps) simp

lemma decode_pointers:
  "list_all (\<lambda>(level, k). level_ok level \<and> key_fits k) ps \<Longrightarrow>
    DecodeFrom_loop e (concat (map (encode_pointer []) ps) @ rest) = DecodeFrom_loop (e\<lparr>compact_pointers := compact_pointers e @ ps\<rparr>) rest"
proof (induction ps arbitrary: e)
  case (Cons p ps)
  obtain level k where p: "p = (level, k)" by (cases p)
  let ?rest = "concat (map (encode_pointer []) ps) @ rest"
  have "decode_field kCompactPointer e (EncodeVarint32 (of_int level) @ PutLengthPrefixedSlice [] k @ ?rest) =
      Inr (e\<lparr>compact_pointers := compact_pointers e @ [(level, k)]\<rparr>, ?rest)"
    using Cons.prems GetLevel_Encode [of level] GetInternalKey_Encode [of k] by (simp add: p decode_field_def Tag_defs)
  from decode_step [OF this] show ?case
    using Cons.IH [of "e\<lparr>compact_pointers := compact_pointers e @ [(level, k)]\<rparr>"] Cons.prems by (simp add: p encode_eq)
qed simp

lemma insort_insert_last: "sorted (xs @ [x]) \<Longrightarrow> distinct (xs @ [x]) \<Longrightarrow> insort_insert x xs = xs @ [x]"
  by (simp add: insort_insert_key_def sorted_insort_is_snoc sorted_append)

lemma decode_deleted:
  "list_all (\<lambda>(level, n). level_ok level) ds \<Longrightarrow> sorted (deleted_files e @ ds) \<Longrightarrow> distinct (deleted_files e @ ds) \<Longrightarrow>
    DecodeFrom_loop e (concat (map (encode_deleted []) ds) @ rest) = DecodeFrom_loop (e\<lparr>deleted_files := deleted_files e @ ds\<rparr>) rest"
proof (induction ds arbitrary: e)
  case (Cons d ds)
  obtain level n where d: "d = (level, n)" by (cases d)
  let ?rest = "concat (map (encode_deleted []) ds) @ rest"
  have "insort_insert (level, n) (deleted_files e) = deleted_files e @ [(level, n)]"
    using Cons.prems(2,3) by (intro insort_insert_last) (simp_all add: d sorted_append)
  then have "decode_field kDeletedFile e (EncodeVarint32 (of_int level) @ EncodeVarint64 n @ ?rest) =
      Inr (e\<lparr>deleted_files := deleted_files e @ [(level, n)]\<rparr>, ?rest)"
    using Cons.prems(1) GetLevel_Encode [of level] by (simp add: d decode_field_def Tag_defs)
  from decode_step [OF this] show ?case
    using Cons.IH [of "e\<lparr>deleted_files := deleted_files e @ [(level, n)]\<rparr>"] Cons.prems by (simp add: d encode_eq)
qed simp

lemma decode_new:
  "list_all (\<lambda>(level, f). level_ok level \<and> refs f = 0 \<and> allowed_seeks f = 2 ^ 30 \<and> key_fits (smallest f) \<and> key_fits (largest f)) fs \<Longrightarrow>
    DecodeFrom_loop e (concat (map (encode_new []) fs) @ rest) = DecodeFrom_loop (e\<lparr>new_files := new_files e @ fs\<rparr>) rest"
proof (induction fs arbitrary: e)
  case (Cons p fs)
  obtain level f where p: "p = (level, f)" by (cases p)
  let ?rest = "concat (map (encode_new []) fs) @ rest"
  have f: "FileMetaData_new\<lparr>number := number f, file_size := file_size f, smallest := smallest f, largest := largest f\<rparr> = f"
    using Cons.prems by (cases f) (simp add: p FileMetaData_new_def)
  have "decode_field kNewFile e (EncodeVarint32 (of_int level) @ EncodeVarint64 (number f) @ EncodeVarint64 (file_size f) @
      PutLengthPrefixedSlice [] (smallest f) @ PutLengthPrefixedSlice [] (largest f) @ ?rest) = Inr (e\<lparr>new_files := new_files e @ [(level, f)]\<rparr>, ?rest)"
    using Cons.prems GetLevel_Encode [of level] GetInternalKey_Encode [of "smallest f"] GetInternalKey_Encode [of "largest f"] f
    by (simp add: p decode_field_def Tag_defs)
  from decode_step [OF this] show ?case
    using Cons.IH [of "e\<lparr>new_files := new_files e @ [(level, f)]\<rparr>"] Cons.prems by (simp add: p encode_eq)
qed simp

lemma encode_parts:
  "VersionEdit_EncodeTo e dst = dst @
     (if has_comparator e then EncodeVarint32 kComparator @ PutLengthPrefixedSlice [] (ve_comparator e) else []) @
     (if has_log_number e then EncodeVarint32 kLogNumber @ EncodeVarint64 (ve_log_number e) else []) @
     (if has_prev_log_number e then EncodeVarint32 kPrevLogNumber @ EncodeVarint64 (ve_prev_log_number e) else []) @
     (if has_next_file_number e then EncodeVarint32 kNextFileNumber @ EncodeVarint64 (ve_next_file_number e) else []) @
     (if has_last_sequence e then EncodeVarint32 kLastSequence @ EncodeVarint64 (ve_last_sequence e) else []) @
     concat (map (encode_pointer []) (compact_pointers e)) @ concat (map (encode_deleted []) (deleted_files e)) @
     concat (map (encode_new []) (new_files e))"
  by (simp add: VersionEdit_EncodeTo_def foldl_encode [OF encode_append(1)] foldl_encode [OF encode_append(2)] foldl_encode [OF encode_append(3)]
      PutVarint32_def PutVarint64_def PutLengthPrefixedSlice_def Let_def)

lemma decode_optional:
  "length s < 2 ^ 32 \<Longrightarrow> ve_comparator e = [] \<and> \<not> has_comparator e \<Longrightarrow> \<not> b \<longrightarrow> s = [] \<Longrightarrow>
    DecodeFrom_loop e ((if b then EncodeVarint32 kComparator @ PutLengthPrefixedSlice [] s else []) @ rest) =
    DecodeFrom_loop (e\<lparr>ve_comparator := s, has_comparator := b\<rparr>) rest"
  "ve_log_number e = 0 \<and> \<not> has_log_number e \<Longrightarrow> \<not> b \<longrightarrow> n = 0 \<Longrightarrow>
    DecodeFrom_loop e ((if b then EncodeVarint32 kLogNumber @ EncodeVarint64 n else []) @ rest) =
    DecodeFrom_loop (e\<lparr>ve_log_number := n, has_log_number := b\<rparr>) rest"
  "ve_prev_log_number e = 0 \<and> \<not> has_prev_log_number e \<Longrightarrow> \<not> b \<longrightarrow> n = 0 \<Longrightarrow>
    DecodeFrom_loop e ((if b then EncodeVarint32 kPrevLogNumber @ EncodeVarint64 n else []) @ rest) =
    DecodeFrom_loop (e\<lparr>ve_prev_log_number := n, has_prev_log_number := b\<rparr>) rest"
  "ve_next_file_number e = 0 \<and> \<not> has_next_file_number e \<Longrightarrow> \<not> b \<longrightarrow> n = 0 \<Longrightarrow>
    DecodeFrom_loop e ((if b then EncodeVarint32 kNextFileNumber @ EncodeVarint64 n else []) @ rest) =
    DecodeFrom_loop (e\<lparr>ve_next_file_number := n, has_next_file_number := b\<rparr>) rest"
  "ve_last_sequence e = 0 \<and> \<not> has_last_sequence e \<Longrightarrow> \<not> b \<longrightarrow> n = 0 \<Longrightarrow>
    DecodeFrom_loop e ((if b then EncodeVarint32 kLastSequence @ EncodeVarint64 n else []) @ rest) =
    DecodeFrom_loop (e\<lparr>ve_last_sequence := n, has_last_sequence := b\<rparr>) rest"
  by (cases b; cases e; simp; rule decode_step; simp add: decode_field_def Tag_defs)+

lemma decode_encode:
  assumes "edit_ok e"
  shows "DecodeFrom_loop VersionEdit_Clear (VersionEdit_EncodeTo e []) = (None, e, [])"
proof -
  have d: "DecodeFrom_loop e [] = (None, e, [])" for e by (subst DecodeFrom_loop.simps) simp
  note ok = assms [unfolded edit_ok_def]
  let ?e1 = "VersionEdit_Clear\<lparr>ve_comparator := ve_comparator e, has_comparator := has_comparator e\<rparr>"
  let ?e2 = "?e1\<lparr>ve_log_number := ve_log_number e, has_log_number := has_log_number e\<rparr>"
  let ?e3 = "?e2\<lparr>ve_prev_log_number := ve_prev_log_number e, has_prev_log_number := has_prev_log_number e\<rparr>"
  let ?e4 = "?e3\<lparr>ve_next_file_number := ve_next_file_number e, has_next_file_number := has_next_file_number e\<rparr>"
  let ?e5 = "?e4\<lparr>ve_last_sequence := ve_last_sequence e, has_last_sequence := has_last_sequence e\<rparr>"
  let ?e6 = "?e5\<lparr>compact_pointers := compact_pointers ?e5 @ compact_pointers e\<rparr>"
  let ?e7 = "?e6\<lparr>deleted_files := deleted_files ?e6 @ deleted_files e\<rparr>"
  let ?e8 = "?e7\<lparr>new_files := new_files ?e7 @ new_files e\<rparr>"
  have clear: "ve_comparator VersionEdit_Clear = [] \<and> \<not> has_comparator VersionEdit_Clear" "ve_log_number ?e1 = 0 \<and> \<not> has_log_number ?e1"
    "ve_prev_log_number ?e2 = 0 \<and> \<not> has_prev_log_number ?e2" "ve_next_file_number ?e3 = 0 \<and> \<not> has_next_file_number ?e3"
    "ve_last_sequence ?e4 = 0 \<and> \<not> has_last_sequence ?e4" "deleted_files ?e6 = []"
    by (simp_all add: VersionEdit_Clear_def)
  have s1: "DecodeFrom_loop VersionEdit_Clear ((if has_comparator e then EncodeVarint32 kComparator @ PutLengthPrefixedSlice [] (ve_comparator e) else []) @ t) =
      DecodeFrom_loop ?e1 t" for t using ok by (intro decode_optional(1) clear) blast+
  have s2: "DecodeFrom_loop ?e1 ((if has_log_number e then EncodeVarint32 kLogNumber @ EncodeVarint64 (ve_log_number e) else []) @ t) =
      DecodeFrom_loop ?e2 t" for t using ok by (intro decode_optional(2) clear) blast
  have s3: "DecodeFrom_loop ?e2 ((if has_prev_log_number e then EncodeVarint32 kPrevLogNumber @ EncodeVarint64 (ve_prev_log_number e) else []) @ t) =
      DecodeFrom_loop ?e3 t" for t using ok by (intro decode_optional(3) clear) blast
  have s4: "DecodeFrom_loop ?e3 ((if has_next_file_number e then EncodeVarint32 kNextFileNumber @ EncodeVarint64 (ve_next_file_number e) else []) @ t) =
      DecodeFrom_loop ?e4 t" for t using ok by (intro decode_optional(4) clear) blast
  have s5: "DecodeFrom_loop ?e4 ((if has_last_sequence e then EncodeVarint32 kLastSequence @ EncodeVarint64 (ve_last_sequence e) else []) @ t) =
      DecodeFrom_loop ?e5 t" for t using ok by (intro decode_optional(5) clear) blast
  have s6: "DecodeFrom_loop ?e5 (concat (map (encode_pointer []) (compact_pointers e)) @ t) = DecodeFrom_loop ?e6 t" for t
    using ok by (intro decode_pointers) blast
  have s7: "DecodeFrom_loop ?e6 (concat (map (encode_deleted []) (deleted_files e)) @ t) = DecodeFrom_loop ?e7 t" for t
    using ok by (intro decode_deleted) (simp_all only: clear append_Nil)
  have s8: "DecodeFrom_loop ?e7 (concat (map (encode_new []) (new_files e))) = DecodeFrom_loop ?e8 []"
    using decode_new [of "new_files e" ?e7 "[]"] ok by (simp only: append_Nil2)
  have "?e8 = e" by (cases e) (simp add: VersionEdit_Clear_def)
  then show ?thesis unfolding encode_parts append_Nil s1 s2 s3 s4 s5 s6 s7 s8 using d by metis
qed

subsection \<open>Properties\<close>

text \<open>
  C35: Version edits round trip. Decoding what \<open>EncodeTo\<close> writes for a well-formed edit returns the same edit
  and no error.
\<close>

theorem version_edit_roundtrip:
  assumes "edit_ok e"
  shows "VersionEdit_DecodeFrom (VersionEdit_EncodeTo e []) = (OK, e)"
  by (simp add: VersionEdit_DecodeFrom_def decode_encode [OF assms])

theorem version_edit_roundtrip_witness:
  "VersionEdit_DecodeFrom (VersionEdit_EncodeTo
     (RemoveFile (AddFile (SetLogNumber VersionEdit_Clear 9) 2 7 100 (InternalKey [97] 5 kTypeValue) (InternalKey [98] 4 kTypeValue)) 1 6) []) =
   (OK, RemoveFile (AddFile (SetLogNumber VersionEdit_Clear 9) 2 7 100 (InternalKey [97] 5 kTypeValue) (InternalKey [98] 4 kTypeValue)) 1 6)"
proof -
  let ?e = "RemoveFile (AddFile (SetLogNumber VersionEdit_Clear 9) 2 7 100 (InternalKey [97] 5 kTypeValue) (InternalKey [98] 4 kTypeValue)) 1 6"
  have "edit_ok ?e"
    by (simp add: edit_ok_def RemoveFile_def AddFile_def SetLogNumber_def VersionEdit_Clear_def FileMetaData_new_def level_ok_def key_fits_def
        kNumLevels_def InternalKey_eq insort_insert_key_def)
  then show ?thesis by (rule version_edit_roundtrip)
qed

text \<open>
  C36: Version edits stay well formed. Every operation on an edit keeps its levels within the levels of the
  database, its keys non-empty and its deleted files in order without repetition, when it is given such
  a level and such keys; and whatever the bytes, this also holds for the edit that \<open>DecodeFrom\<close> leaves behind.
\<close>

theorem version_edit_well_formed:
  assumes "edit_ok e" "level_ok level" "key_fits small" "key_fits large" "length name < 2 ^ 32"
  shows "edit_ok VersionEdit_Clear \<and> edit_ok (SetComparatorName e name) \<and> edit_ok (SetLogNumber e n) \<and> edit_ok (SetPrevLogNumber e n) \<and>
    edit_ok (SetNextFile e n) \<and> edit_ok (SetLastSequence e n) \<and> edit_ok (SetCompactPointer e level small) \<and>
    edit_ok (AddFile e level n fsize small large) \<and> edit_ok (RemoveFile e level n) \<and> edit_ok (snd (VersionEdit_DecodeFrom src))"
proof -
  have "edit_ok (snd (VersionEdit_DecodeFrom src))"
    using DecodeFrom_loop_ok [OF edit_ok_Clear, of src] by (cases "DecodeFrom_loop VersionEdit_Clear src") (simp add: VersionEdit_DecodeFrom_def)
  moreover have "edit_step e (AddFile e level n fsize small large)" unfolding AddFile_def Let_def by (rule new_field [OF assms(2-4)])
  moreover have "edit_step e (RemoveFile e level n)" unfolding RemoveFile_def by (rule deleted_field [OF assms(2)])
  moreover have "edit_step e (SetCompactPointer e level small)" unfolding SetCompactPointer_def by (rule pointer_field [OF assms(2,3)])
  moreover have "edit_ok (SetComparatorName e name) \<and> edit_ok (SetLogNumber e n) \<and> edit_ok (SetPrevLogNumber e n) \<and> edit_ok (SetNextFile e n) \<and>
      edit_ok (SetLastSequence e n)"
    using assms(1,5) by (simp add: edit_ok_def SetComparatorName_def SetLogNumber_def SetPrevLogNumber_def SetNextFile_def SetLastSequence_def)
  ultimately show ?thesis using edit_step_ok [OF _ assms(1)] edit_ok_Clear by blast
qed

theorem version_edit_well_formed_witness:
  "edit_ok (AddFile VersionEdit_Clear 6 7 100 [97, 0, 0, 0, 0, 0, 0, 0, 0] [98, 0, 0, 0, 0, 0, 0, 0, 0]) \<and>
   edit_ok (snd (VersionEdit_DecodeFrom [7, 9, 1]))"
  using version_edit_well_formed [OF edit_ok_Clear, of 6 "[97, 0, 0, 0, 0, 0, 0, 0, 0]" "[98, 0, 0, 0, 0, 0, 0, 0, 0]" "[]" 7 100 "[7, 9, 1]"]
  by (simp add: level_ok_def kNumLevels_def key_fits_def)

end
