(* ===== verification/MemenvMap.thy ===== *)
theory MemenvMap
  imports Memenv
begin

text \<open>
  The theory \<open>Memenv\<close> follows the states whose names all have files. Here every operation of
  \<open>helpers/memenv/memenv.cc\<close> may come at any point, \<open>NewAppendableFile\<close> on a name without a file included: reference
  counts, the map from names to contents that the environment refines, and the operations that follow a
  null pointer.
\<close>

subsection \<open>Names that map to the null pointer\<close>

text \<open>
  \<open>NewAppendableFile\<close> on a missing name enters the name with the null pointer, and the file it makes keeps a
  reference that nobody drops. What follows is about all sequences of operations. Without its null names a
  state satisfies the invariant above, and an operation that does not follow a null pointer does the same
  with and without them.
\<close>

definition unnull :: "MemEnv \<Rightarrow> MemEnv" where
  "unnull e = e\<lparr>me_map := filter (\<lambda>(k, p). p \<noteq> None) (me_map e)\<rparr>"

definition null_names :: "MemEnv \<Rightarrow> bytes set" where
  "null_names e = {k. map_of (me_map e) k = Some None}"

definition agree :: "MemEnv \<Rightarrow> MemEnv \<Rightarrow> bool" where
  "agree e e0 \<longleftrightarrow> om_sorted (me_map e) \<and> me_heap e = me_heap e0 \<and> me_brk e = me_brk e0 \<and>
     (\<forall>k a. map_of (me_map e) k = Some (Some a) \<longleftrightarrow> map_of (me_map e0) k = Some (Some a))"

lemma map_of_unnull:
  "om_sorted m \<Longrightarrow> map_of (filter (\<lambda>(k, p). p \<noteq> None) m) k = (if map_of m k = Some None then None else map_of m k)"
  for m :: "('k::linorder \<times> 'a option) list"
proof (induction m)
  case (Cons x m)
  obtain k' p where x: "x = (k', p)" by (cases x)
  have "om_sorted m" "k' \<notin> fst ` set m" using Cons.prems by (auto simp: om_sorted_def x)
  then have "map_of m k' = None" using map_of_eq_None_iff by metis
  then show ?case using Cons.IH [OF \<open>om_sorted m\<close>] by (auto simp: x)
qed simp

lemma om_sorted_filter: "om_sorted m \<Longrightarrow> om_sorted (filter P m)"
  by (induction m) (auto simp: om_sorted_def)

lemma unnull_simps [simp]:
  "me_heap (unnull e) = me_heap e" "me_brk (unnull e) = me_brk e" "mem_deref (unnull e) = mem_deref e" "bytes_at (unnull e) = bytes_at e"
  by (simp_all add: unnull_def fun_eq_iff mem_deref_def bytes_at_def)

lemma map_unnull:
  "om_sorted (me_map e) \<Longrightarrow> map_of (me_map (unnull e)) k = (if k \<in> null_names e then None else map_of (me_map e) k)"
  using map_of_unnull [of "me_map e" k] by (simp add: unnull_def null_names_def)

lemma agree_unnull: "om_sorted (me_map e) \<Longrightarrow> agree e (unnull e)"
  by (auto simp: agree_def map_unnull null_names_def)

lemma live_pointer_eq:
  assumes "\<And>a. x = Some (Some a) \<longleftrightarrow> y = Some (Some a)" "y \<noteq> Some None"
  shows "(if x = Some None then None else x) = y"
proof (cases y)
  case None
  then have "x = Some (Some a) \<Longrightarrow> False" for a using assms(1) by blast
  then show ?thesis using None by (cases x; cases "the x") auto
next
  case (Some p)
  then show ?thesis using assms by (cases p) auto
qed

lemma agree_inv:
  assumes "agree e e0" "mem_inv e0 hs"
  shows "mem_inv (unnull e) hs" "mem_files (unnull e) = mem_files e0"
proof -
  have srt: "om_sorted (me_map e)" using assms(1) by (simp add: agree_def)
  have "None \<notin> ran (map_of (me_map e0))" using assms(2) by (simp add: mem_inv_def)
  then have no: "map_of (me_map e0) k \<noteq> Some None" for k by (metis ranI)
  have m: "map_of (me_map (unnull e)) k = map_of (me_map e0) k" for k
    using live_pointer_eq [OF _ no, of "map_of (me_map e) k" k] assms(1) srt by (simp add: map_unnull null_names_def agree_def)
  then have mm: "map_of (me_map (unnull e)) = map_of (me_map e0)" by (rule ext)
  have e: "unnull e = e0\<lparr>me_map := me_map (unnull e)\<rparr>" using assms(1) by (simp add: agree_def unnull_def)
  show "mem_inv (unnull e) hs"
    using assms(2) mm srt by (subst e, intro mem_inv_remap) (auto simp: mem_inv_def unnull_def om_sorted_filter)
  have "bytes_at (unnull e) = bytes_at e0" using assms(1) by (simp add: fun_eq_iff bytes_at_def mem_deref_def agree_def)
  then show "mem_files (unnull e) = mem_files e0" by (simp add: fun_eq_iff mem_files_def mm)
qed

lemma store_agree: "agree e e0 \<Longrightarrow> agree (mem_store e p f) (mem_store e0 p f)"
  by (cases p) (auto simp: agree_def mem_store_def)

lemma deref_agree: "agree e e0 \<Longrightarrow> mem_deref e p = mem_deref e0 p"
  by (simp add: agree_def mem_deref_def)

lemma null_names_store [simp]: "null_names (mem_store e p f) = null_names e"
  by (simp add: null_names_def)

lemma Ref_agree: "agree e e0 \<Longrightarrow> mem_Ref e0 p = Some e0' \<Longrightarrow>
    \<exists>e'. mem_Ref e p = Some e' \<and> agree e' e0' \<and> null_names e' = null_names e"
  using deref_agree [of e e0 p] by (auto simp: mem_Ref_def store_agree split: Option.bind_splits)

lemma Unref_agree: "agree e e0 \<Longrightarrow> mem_Unref e0 p = Some e0' \<Longrightarrow>
    \<exists>e'. mem_Unref e p = Some e' \<and> agree e' e0' \<and> null_names e' = null_names e \<and> me_map e' = me_map e"
  using deref_agree [of e e0 p] by (auto simp: mem_Unref_def store_agree split: Option.bind_splits)

lemma Append_agree: "agree e e0 \<Longrightarrow> WritableFileImpl_Append fresh (e0, p) d = Some (s, e0', p') \<Longrightarrow>
    \<exists>e'. WritableFileImpl_Append fresh (e, p) d = Some (s, e', p') \<and> agree e' e0' \<and> null_names e' = null_names e \<and> me_map e' = me_map e"
  using deref_agree [of e e0 p] by (auto simp: WritableFileImpl_Append_def store_agree split: Option.bind_splits prod.splits)

lemma put_agree: "agree e e0 \<Longrightarrow> agree (e\<lparr>me_map := om_put k (Some a) (me_map e)\<rparr>) (e0\<lparr>me_map := om_put k (Some a) (me_map e0)\<rparr>)"
  by (auto simp: agree_def)

lemma erase_agree: "agree e e0 \<Longrightarrow> agree (e\<lparr>me_map := om_erase k (me_map e)\<rparr>) (e0\<lparr>me_map := om_erase k (me_map e0)\<rparr>)"
  by (auto simp: agree_def)

lemma alloc_agree: "agree e e0 \<Longrightarrow> agree (snd (mem_alloc e)) (snd (mem_alloc e0)) \<and> fst (mem_alloc e) = fst (mem_alloc e0)"
  by (auto simp: agree_def mem_alloc_def)

lemma names_agree:
  "agree e e0 \<Longrightarrow> k \<notin> null_names e \<Longrightarrow> k \<notin> null_names e0 \<Longrightarrow> map_of (me_map e) k = map_of (me_map e0) k"
  using live_pointer_eq [of "map_of (me_map e) k" "map_of (me_map e0) k"] by (simp add: agree_def null_names_def)

lemma null_names_put [simp]: "null_names (e\<lparr>me_map := om_put k p m\<rparr>) =
    (if p = None then insert k (null_names (e\<lparr>me_map := m\<rparr>)) else null_names (e\<lparr>me_map := m\<rparr>) - {k})"
  by (auto simp: null_names_def)

lemma null_names_erase [simp]: "null_names (e\<lparr>me_map := om_erase k m\<rparr>) = null_names (e\<lparr>me_map := m\<rparr>) - {k}"
  by (auto simp: null_names_def)

lemma null_names_heap [simp]: "null_names (e\<lparr>me_heap := h\<rparr>) = null_names e" "null_names (e\<lparr>me_brk := b\<rparr>) = null_names e"
  by (simp_all add: null_names_def)

lemma null_names_unnull [simp]: "null_names (unnull e) = {}"
proof -
  have "map_of (me_map (unnull e)) k \<noteq> Some None" for k
  proof
    assume "map_of (me_map (unnull e)) k = Some None"
    then have "(k, None) \<in> set (me_map (unnull e))" by (rule map_of_SomeD)
    then show False by (simp add: unnull_def)
  qed
  then show ?thesis by (simp add: null_names_def)
qed

lemma WritableFileImpl_new_agree: "agree e e0 \<Longrightarrow> WritableFileImpl_new e0 p = Some (h, e0') \<Longrightarrow>
    \<exists>e'. WritableFileImpl_new e p = Some (h, e') \<and> agree e' e0' \<and> null_names e' = null_names e"
  using Ref_agree [of e e0 p e0'] by (cases "mem_Ref e0 p") (auto simp: WritableFileImpl_new_def)

lemma NewWritable_agree:
  assumes e: "agree e e0" and f: "fname \<notin> null_names e" "fname \<notin> null_names e0"
    and r: "MemEnv_NewWritableFile e0 fname = Some (s, h, e0')"
  shows "\<exists>e'. MemEnv_NewWritableFile e fname = Some (s, h, e') \<and> agree e' e0' \<and> null_names e' = null_names e"
proof (cases "map_of (me_map e0) fname")
  case None
  then have n: "map_of (me_map e) fname = None" using names_agree [OF e f] by simp
  obtain p e1 where a: "mem_alloc e = (p, e1)" by fastforce
  obtain e2 where a0: "mem_alloc e0 = (p, e2)" "agree e1 e2" using alloc_agree [OF e] a by (cases "mem_alloc e0") auto
  obtain b where p: "p = Some b" using a by (auto simp: mem_alloc_def)
  have "null_names (e1\<lparr>me_map := om_put fname p (me_map e1)\<rparr>) = null_names e"
    using f(1) a p by (auto simp: mem_alloc_def null_names_def)
  then show ?thesis
    using r a a0(1) None n WritableFileImpl_new_agree [OF put_agree [OF a0(2), of fname b], of p] p
    by (auto simp: MemEnv_NewWritableFile_def split: Option.bind_splits)
next
  case (Some p)
  then have n: "map_of (me_map e) fname = Some p" using names_agree [OF e f] by simp
  show ?thesis
    using r Some n deref_agree [OF e, of p] WritableFileImpl_new_agree [OF store_agree [OF e], of p]
    by (fastforce simp: MemEnv_NewWritableFile_def split: Option.bind_splits)
qed

lemma NewRead_agree:
  assumes e: "agree e e0" and f: "fname \<notin> null_names e" "fname \<notin> null_names e0"
  shows "MemEnv_NewSequentialFile e0 fname = Some (s, Some h, e0') \<Longrightarrow>
      \<exists>e'. MemEnv_NewSequentialFile e fname = Some (s, Some h, e') \<and> agree e' e0' \<and> null_names e' = null_names e"
    and "MemEnv_NewRandomAccessFile e0 fname = Some (s, Some p, e0') \<Longrightarrow>
      \<exists>e'. MemEnv_NewRandomAccessFile e fname = Some (s, Some p, e') \<and> agree e' e0' \<and> null_names e' = null_names e"
  using names_agree [OF e f] Ref_agree [OF e]
  by (fastforce simp: MemEnv_NewSequentialFile_def MemEnv_NewRandomAccessFile_def map_index_def SequentialFileImpl_new_def
      RandomAccessFileImpl_new_def split: Option.bind_splits if_splits)+

lemma RemoveInternal_agree:
  assumes e: "agree e e0" and f: "fname \<notin> null_names e" "fname \<notin> null_names e0"
    and r: "RemoveFileInternal e0 fname = Some e0'"
  shows "\<exists>e'. RemoveFileInternal e fname = Some e' \<and> agree e' e0' \<and> null_names e' = null_names e \<and>
    map_of (me_map e') = (map_of (me_map e))(fname := None)"
proof (cases "map_of (me_map e0) fname")
  case None
  then show ?thesis using r e names_agree [OF e f] by (auto simp: RemoveFileInternal_def)
next
  case (Some p)
  then have n: "map_of (me_map e) fname = Some p" using names_agree [OF e f] by simp
  obtain e1 where e1: "mem_Unref e0 p = Some e1" "e0' = e1\<lparr>me_map := om_erase fname (me_map e1)\<rparr>"
    using r Some by (auto simp: RemoveFileInternal_def map_index_def split: Option.bind_splits)
  obtain e2 where e2: "mem_Unref e p = Some e2" "agree e2 e1" "null_names e2 = null_names e" "me_map e2 = me_map e"
    using Unref_agree [OF e e1(1)] by blast
  then show ?thesis
    using e1 n f(1) erase_agree [OF e2(2), of fname] by (auto simp: RemoveFileInternal_def map_index_def null_names_def)
qed

lemma NewAppendable_agree:
  assumes e: "agree e e0" and f: "map_of (me_map e) fname = Some (Some a)"
    and r: "MemEnv_NewAppendableFile e0 fname = Some (s, h, e0')"
  shows "\<exists>e'. MemEnv_NewAppendableFile e fname = Some (s, h, e') \<and> agree e' e0' \<and> null_names e' = null_names e"
proof -
  have "map_of (me_map e0) fname = Some (Some a)" using e f by (auto simp: agree_def)
  then show ?thesis
    using r f WritableFileImpl_new_agree [OF e, of "Some a"]
    by (auto simp: MemEnv_NewAppendableFile_def map_index_def split: Option.bind_splits)
qed

text \<open>\<open>hs\<close> are the pointers held by file objects, \<open>lk\<close> those whose first reference was never given to a name.\<close>

definition mem_all_inv :: "MemEnv \<Rightarrow> nat option multiset \<Rightarrow> nat option multiset \<Rightarrow> bool" where
  "mem_all_inv e hs lk \<longleftrightarrow> om_sorted (me_map e) \<and> mem_inv (unnull e) (hs + lk) \<and> (lk = {#} \<longrightarrow> null_names e = {})"

text \<open>What a name shows: nothing, the null pointer (\<open>Some None\<close>), or the contents of a file.\<close>

definition mem_view :: "MemEnv \<Rightarrow> bytes \<Rightarrow> bytes option option" where
  "mem_view e k = map_option (bytes_at e) (map_of (me_map e) k)"

lemma mem_all_inv_new: "mem_all_inv MemEnv_new {#} {#}" "mem_view MemEnv_new = Map.empty"
  using mem_inv_new(1) by (simp_all add: mem_all_inv_def unnull_def MemEnv_new_def null_names_def mem_view_def fun_eq_iff)

lemma view_agree:
  assumes "agree e e0" "mem_inv e0 hs"
  shows "mem_view e k = (if k \<in> null_names e then Some None else map_option Some (mem_files e0 k))"
proof -
  have srt: "om_sorted (me_map e)" using assms(1) by (simp add: agree_def)
  note f = agree_inv(2) [OF assms, symmetric]
  show ?thesis
  proof (cases "map_of (me_map e) k = None \<or> k \<in> null_names e")
    case True
    then have "map_of (me_map (unnull e)) k = None" using map_unnull [OF srt, of k] by auto
    then show ?thesis using True by (auto simp: f mem_files_def mem_view_def null_names_def bytes_at_def mem_deref_def)
  next
    case False
    then obtain p where p: "map_of (me_map e) k = Some p" by auto
    then have m: "map_of (me_map (unnull e)) k = Some p" using map_unnull [OF srt, of k] False by simp
    then have "mem_files (unnull e) k \<noteq> None" using mem_files_live [OF agree_inv(1) [OF assms], of k] by simp
    then have "bytes_at e p \<noteq> None" using m by (simp add: mem_files_def)
    then show ?thesis using m p False by (auto simp: f mem_view_def mem_files_def)
  qed
qed

lemma view_all:
  "mem_all_inv e hs lk \<Longrightarrow> mem_view e k = (if k \<in> null_names e then Some None else map_option Some (mem_files (unnull e) k))"
  using view_agree [OF agree_unnull] by (auto simp: mem_all_inv_def)

lemma view_cases:
  assumes "mem_all_inv e hs lk"
  shows "mem_view e k = None \<longleftrightarrow> map_of (me_map e) k = None" "mem_view e k = Some None \<longleftrightarrow> k \<in> null_names e"
    "mem_view e k = Some (Some d) \<Longrightarrow> \<exists>a. map_of (me_map e) k = Some (Some a) \<and> bytes_at e (Some a) = Some d"
proof -
  show "mem_view e k = None \<longleftrightarrow> map_of (me_map e) k = None" by (simp add: mem_view_def)
  show "mem_view e k = Some None \<longleftrightarrow> k \<in> null_names e" using view_all [OF assms, of k] by auto
  assume "mem_view e k = Some (Some d)"
  then obtain p where "map_of (me_map e) k = Some p" "bytes_at e p = Some d" by (auto simp: mem_view_def)
  then show "\<exists>a. map_of (me_map e) k = Some (Some a) \<and> bytes_at e (Some a) = Some d"
    by (cases p) (auto simp: bytes_at_def mem_deref_def)
qed

lemma mem_all_invI:
  "agree e e0 \<Longrightarrow> mem_inv e0 hs' \<Longrightarrow> hs' = hs + lk \<Longrightarrow> (lk = {#} \<longrightarrow> null_names e = {}) \<Longrightarrow> mem_all_inv e hs lk"
  using agree_inv(1) [of e e0 hs'] by (simp add: mem_all_inv_def agree_def)

lemma mem_all_invD:
  assumes "mem_all_inv e hs lk"
  shows "agree e (unnull e)" "mem_inv (unnull e) (hs + lk)" "lk = {#} \<longrightarrow> null_names e = {}"
  using assms agree_unnull by (simp_all add: mem_all_inv_def)

lemma alloc_held:
  assumes inv: "mem_inv e hs" and al: "mem_alloc e = (p, e1)"
  shows "mem_inv e1 (add_mset p hs)" "me_map e1 = me_map e" "p \<notin> ran (map_of (me_map e))" "q \<noteq> p \<Longrightarrow> bytes_at e1 q = bytes_at e q"
    "bytes_at e1 p = Some []"
proof -
  have p: "p = Some (me_brk e)" and e1: "me_map e1 = me_map e" "me_brk e1 = me_brk e + 1"
    "me_heap e1 = (me_heap e)(me_brk e \<mapsto> FileState_Ref FileState_new)"
    using al by (auto simp: mem_alloc_def)
  have "me_heap e (me_brk e) = None" using inv by (auto simp: mem_inv_def split: option.splits)
  then have 0: "mem_links e hs (me_brk e) = 0" using inv by (auto simp: mem_inv_def split: option.splits)
  then show "p \<notin> ran (map_of (me_map e))" using p by (auto simp: mem_links_def split: if_splits)
  have "mem_links e1 (add_mset p hs) b = (if b = me_brk e then 1 else mem_links e hs b)" for b
    using 0 by (auto simp: mem_links_def e1 p split: if_splits)
  then show "mem_inv e1 (add_mset p hs)"
    using inv p e1
    by (intro mem_inv_update [OF inv, where a = "me_brk e" and f' = "Some (FileState_Ref FileState_new)"])
       (auto simp: mem_inv_def FileState_Ref_def, auto simp: FileState_new_def)
  show "me_map e1 = me_map e" by (rule e1)
  show "q \<noteq> p \<Longrightarrow> bytes_at e1 q = bytes_at e q" using p e1 by (cases q) (auto simp: bytes_at_def mem_deref_def)
  show "bytes_at e1 p = Some []" using p e1 by (simp add: bytes_at_def mem_deref_def FileState_Ref_def)
qed

lemma all_writable:
  assumes inv: "mem_all_inv e hs lk" and f: "fname \<notin> null_names e"
  shows "\<exists>p e'. MemEnv_NewWritableFile e fname = Some (OK, Some p, e') \<and> mem_all_inv e' (add_mset p hs) lk \<and>
    mem_view e' = (mem_view e)(fname \<mapsto> Some [])"
proof -
  note i = mem_all_invD [OF inv]
  obtain p e0 where e0: "MemEnv_NewWritableFile (unnull e) fname = Some (OK, Some p, e0)" "mem_inv e0 (add_mset p (hs + lk))"
      "mem_files e0 = (mem_files (unnull e))(fname \<mapsto> [])"
    using NewWritableFile_files [OF i(2), of fname] by blast
  obtain e' where e': "MemEnv_NewWritableFile e fname = Some (OK, Some p, e')" "agree e' e0" "null_names e' = null_names e"
    using NewWritable_agree [OF i(1) f _ e0(1)] by auto
  have "mem_view e' k = ((mem_view e)(fname \<mapsto> Some [])) k" for k
    using f by (simp add: view_agree [OF e'(2) e0(2)] view_all [OF inv] e'(3) e0(3))
  moreover have "mem_all_inv e' (add_mset p hs) lk" by (rule mem_all_invI [OF e'(2) e0(2)]) (simp_all add: e'(3) i(3))
  ultimately show ?thesis using e'(1) by blast
qed

lemma all_read:
  assumes inv: "mem_all_inv e hs lk" and f: "map_of (me_map e) fname = Some (Some a)"
  shows "\<exists>e'. MemEnv_NewSequentialFile e fname = Some (OK, Some \<lparr>sq_file = Some a, sq_pos = 0\<rparr>, e') \<and>
      mem_all_inv e' (add_mset (Some a) hs) lk \<and> mem_view e' = mem_view e \<and> bytes_at e' (Some a) = bytes_at e (Some a)"
    and "\<exists>e'. MemEnv_NewRandomAccessFile e fname = Some (OK, Some (Some a), e') \<and>
      mem_all_inv e' (add_mset (Some a) hs) lk \<and> mem_view e' = mem_view e \<and> bytes_at e' (Some a) = bytes_at e (Some a)"
    and "\<exists>e'. MemEnv_NewAppendableFile e fname = Some (OK, Some (Some a), e') \<and>
      mem_all_inv e' (add_mset (Some a) hs) lk \<and> mem_view e' = mem_view e \<and> bytes_at e' (Some a) = bytes_at e (Some a)"
proof -
  note i = mem_all_invD [OF inv]
  have n: "fname \<notin> null_names e" using f by (simp add: null_names_def)
  then have m: "map_of (me_map (unnull e)) fname = Some (Some a)" using f inv by (simp add: map_unnull mem_all_inv_def)
  have fin: "mem_all_inv e' (add_mset (Some a) hs) lk \<and> mem_view e' = mem_view e \<and> bytes_at e' (Some a) = bytes_at e (Some a)"
    if "agree e' e0" "null_names e' = null_names e" "mem_inv e0 (add_mset (Some a) (hs + lk))" "bytes_at e0 = bytes_at (unnull e)"
      "me_map e0 = me_map (unnull e)" for e' e0
  proof -
    have "mem_files e0 = mem_files (unnull e)" using that by (simp add: fun_eq_iff mem_files_def)
    then have "mem_view e' = mem_view e" using that(2) by (simp add: fun_eq_iff view_agree [OF that(1,3)] view_all [OF inv])
    moreover have "mem_all_inv e' (add_mset (Some a) hs) lk" by (rule mem_all_invI [OF that(1,3)]) (simp_all add: that i(3))
    moreover have "bytes_at e' (Some a) = bytes_at e (Some a)" using that(1,4) by (simp add: bytes_at_def deref_agree fun_eq_iff)
    ultimately show ?thesis by blast
  qed
  show "\<exists>e'. MemEnv_NewSequentialFile e fname = Some (OK, Some \<lparr>sq_file = Some a, sq_pos = 0\<rparr>, e') \<and>
      mem_all_inv e' (add_mset (Some a) hs) lk \<and> mem_view e' = mem_view e \<and> bytes_at e' (Some a) = bytes_at e (Some a)"
    using NewSequentialFile_found [OF i(2) m] NewRead_agree(1) [OF i(1) n] fin by (metis empty_iff null_names_unnull)
  show "\<exists>e'. MemEnv_NewRandomAccessFile e fname = Some (OK, Some (Some a), e') \<and>
      mem_all_inv e' (add_mset (Some a) hs) lk \<and> mem_view e' = mem_view e \<and> bytes_at e' (Some a) = bytes_at e (Some a)"
    using NewRandomAccessFile_found [OF i(2) m] NewRead_agree(2) [OF i(1) n] fin by (metis empty_iff null_names_unnull)
  show "\<exists>e'. MemEnv_NewAppendableFile e fname = Some (OK, Some (Some a), e') \<and>
      mem_all_inv e' (add_mset (Some a) hs) lk \<and> mem_view e' = mem_view e \<and> bytes_at e' (Some a) = bytes_at e (Some a)"
    using NewAppendableFile_found [OF i(2) m] NewAppendable_agree [OF i(1) f] fin by metis
qed

lemma all_appendable_new:
  assumes inv: "mem_all_inv e hs lk" and f: "\<nexists>a. map_of (me_map e) fname = Some (Some a)"
  shows "\<exists>p e'. MemEnv_NewAppendableFile e fname = Some (OK, Some p, e') \<and> mem_all_inv e' (add_mset p hs) (add_mset p lk) \<and>
    mem_view e' = (mem_view e)(fname \<mapsto> None) \<and> bytes_at e' p = Some []"
proof -
  note i = mem_all_invD [OF inv]
  define e1 where "e1 = snd (map_index e fname)"
  have x: "map_index e fname = (None, e1)" using f by (auto simp: e1_def map_index_def split: option.split)
  have a1: "agree e1 (unnull e)" using i(1) f by (auto simp: e1_def map_index_def agree_def split: option.splits)
  have n1: "null_names e1 = insert fname (null_names e)"
    using f by (auto simp: e1_def map_index_def null_names_def split: option.splits)
  obtain p e2 where al: "mem_alloc e1 = (p, e2)" by fastforce
  obtain e3 where al0: "mem_alloc (unnull e) = (p, e3)" "agree e2 e3" using alloc_agree [OF a1] al by (cases "mem_alloc (unnull e)") auto
  note h = alloc_held [OF i(2) al0(1)]
  obtain e4 where e4: "mem_Ref e3 p = Some e4" "mem_inv e4 (add_mset p (add_mset p (hs + lk)))" "bytes_at e4 = bytes_at e3" "me_map e4 = me_map e3"
    using Ref_step [OF h(1), of p] by auto
  obtain e' where e': "mem_Ref e2 p = Some e'" "agree e' e4" "null_names e' = null_names e2"
    using Ref_agree [OF al0(2) e4(1)] by blast
  have n: "null_names e' = insert fname (null_names e)" using e'(3) n1 al by (auto simp: mem_alloc_def)
  have "p \<noteq> None" using al by (auto simp: mem_alloc_def)
  then have "MemEnv_NewAppendableFile e fname = Some (OK, Some p, e')"
    using x al e'(1) by (simp add: MemEnv_NewAppendableFile_def WritableFileImpl_new_def)
  moreover have "mem_all_inv e' (add_mset p hs) (add_mset p lk)" by (rule mem_all_invI [OF e'(2) e4(2)]) simp_all
  moreover have "mem_files e4 = mem_files (unnull e)"
  proof (rule mem_files_cong)
    fix q assume "q \<in> ran (map_of (me_map (unnull e)))"
    then have "q \<noteq> p" using h(3) by blast
    then show "bytes_at e4 q = bytes_at (unnull e) q" using e4(3) h(4) by simp
  qed (simp add: e4(4) h(2))
  then have "mem_view e' = (mem_view e)(fname \<mapsto> None)" by (simp add: fun_eq_iff view_agree [OF e'(2) e4(2)] view_all [OF inv] n)
  moreover have "bytes_at e' p = Some []" using e'(2) e4(3) h(5) by (simp add: bytes_at_def deref_agree fun_eq_iff)
  ultimately show ?thesis by blast
qed

lemma all_remove_internal:
  assumes inv: "mem_all_inv e hs lk" and n: "fname \<notin> null_names e"
  shows "\<exists>e'. RemoveFileInternal e fname = Some e' \<and> mem_all_inv e' hs lk \<and> mem_view e' = (mem_view e)(fname := None) \<and>
    map_of (me_map e') = (map_of (me_map e))(fname := None)"
proof -
  note i = mem_all_invD [OF inv]
  obtain e0 where e0: "RemoveFileInternal (unnull e) fname = Some e0" "mem_inv e0 (hs + lk)"
      "mem_files e0 = (mem_files (unnull e))(fname := None)"
  proof (cases "MemEnv_FileExists (unnull e) fname")
    case True
    then show ?thesis
      using RemoveFile_files(1) [OF i(2) True] that by (auto simp: MemEnv_RemoveFile_def MemEnv_FileExists_def split: Option.bind_splits)
  next
    case False
    then show ?thesis using i(2) that [of "unnull e"] by (auto simp: RemoveFileInternal_def MemEnv_FileExists_def mem_files_def fun_eq_iff)
  qed
  obtain e' where e': "RemoveFileInternal e fname = Some e'" "agree e' e0" "null_names e' = null_names e"
      "map_of (me_map e') = (map_of (me_map e))(fname := None)"
    using RemoveInternal_agree [OF i(1) n _ e0(1)] by auto
  have "mem_view e' = (mem_view e)(fname := None)"
    using n by (auto simp: fun_eq_iff view_agree [OF e'(2) e0(2)] view_all [OF inv] e'(3) e0(3))
  moreover have "mem_all_inv e' hs lk" by (rule mem_all_invI [OF e'(2) e0(2)]) (simp_all add: e'(3) i(3))
  ultimately show ?thesis using e' by blast
qed

lemma all_remove:
  assumes inv: "mem_all_inv e hs lk" and f: "map_of (me_map e) fname = Some (Some a)"
  shows "\<exists>e'. MemEnv_RemoveFile e fname = Some (OK, e') \<and> mem_all_inv e' hs lk \<and> mem_view e' = (mem_view e)(fname := None)"
  using all_remove_internal [OF inv, of fname] f by (auto simp: MemEnv_RemoveFile_def null_names_def)

text \<open>Moving a pointer, null or not, from one name to another that is not in use.\<close>

lemma all_move:
  assumes inv: "mem_all_inv e hs lk" and src: "map_of (me_map e) src = Some p" and free: "map_of (me_map e) target = None"
    and e': "e' = e\<lparr>me_map := om_erase src (om_put target p (me_map e))\<rparr>"
  shows "mem_all_inv e' hs lk" "mem_view e' = (mem_view e)(target := mem_view e src, src := None)"
proof -
  note i = mem_all_invD [OF inv]
  have ne: "src \<noteq> target" using src free by auto
  have srt: "om_sorted (me_map e)" using inv by (simp add: mem_all_inv_def)
  have v: "map_of (me_map e') = (map_of (me_map e))(target \<mapsto> p, src := None)" by (simp add: e')
  show view: "mem_view e' = (mem_view e)(target := mem_view e src, src := None)"
  proof -
    have b: "bytes_at e' = bytes_at e" by (simp add: e')
    show ?thesis
    proof
      fix k show "mem_view e' k = ((mem_view e)(target := mem_view e src, src := None)) k"
        using src ne by (simp add: mem_view_def v b)
    qed
  qed
  have nn: "null_names e' = (if p = None then insert target (null_names e - {src}) else null_names e)"
    using src free ne by (auto simp: null_names_def v)
  have srt': "om_sorted (me_map e')" using srt by (simp add: e')
  show "mem_all_inv e' hs lk"
  proof (cases p)
    case None
    have "map_of (me_map e') k = Some (Some a) \<longleftrightarrow> map_of (me_map e) k = Some (Some a)" for k a
      using src free None by (auto simp: v)
    moreover have "me_heap e' = me_heap e" "me_brk e' = me_brk e" by (simp_all add: e')
    ultimately have "agree e' (unnull e)" using i(1) srt' by (simp add: agree_def)
    then show ?thesis by (rule mem_all_invI [OF _ i(2)]) (use i(3) src None nn in \<open>auto simp: null_names_def\<close>)
  next
    case (Some a)
    have m: "map_of (me_map (unnull e)) src = Some p" "map_of (me_map (unnull e)) target = None"
      using src free Some srt by (auto simp: map_unnull null_names_def)
    obtain e0 where e0: "MemEnv_RenameFile (unnull e) src target = Some (OK, e0)" "mem_inv e0 (hs + lk)"
      using RenameFile_step [OF i(2) m(1), of target] by blast
    have "e0 = (unnull e)\<lparr>me_map := om_erase src (om_put target p (me_map (unnull e)))\<rparr>"
      using e0(1) m by (simp add: MemEnv_RenameFile_def RemoveFileInternal_def map_index_def)
    then have "agree e' e0" using erase_agree [OF put_agree [OF i(1), of target a], of src] Some by (simp add: e')
    then show ?thesis by (rule mem_all_invI [OF _ e0(2)]) (use i(3) nn Some in auto)
  qed
qed

lemma all_rename:
  assumes inv: "mem_all_inv e hs lk" and src: "map_of (me_map e) src \<noteq> None" and t: "target \<notin> null_names e"
  shows "\<exists>e'. MemEnv_RenameFile e src target = Some (OK, e') \<and> mem_all_inv e' hs lk \<and>
    mem_view e' = (if src = target then (mem_view e)(src := None) else (mem_view e)(target := mem_view e src, src := None))"
proof -
  obtain e1 where e1: "RemoveFileInternal e target = Some e1" "mem_all_inv e1 hs lk" "mem_view e1 = (mem_view e)(target := None)"
      "map_of (me_map e1) = (map_of (me_map e))(target := None)"
    using all_remove_internal [OF inv t] by blast
  show ?thesis
  proof (cases "src = target")
    case True
    let ?e = "e1\<lparr>me_map := om_erase src (om_put target None (om_put src None (me_map e1)))\<rparr>"
    have m: "map_of (me_map ?e) = map_of (me_map e1)" using True e1(4) by auto
    have "agree ?e (unnull e1)" using mem_all_invD(1) [OF e1(2)] m by (auto simp: agree_def)
    moreover have "null_names ?e = null_names e1" unfolding null_names_def m ..
    ultimately have "mem_all_inv ?e hs lk"
      using mem_all_invI [OF _ mem_all_invD(2) [OF e1(2)]] mem_all_invD(3) [OF e1(2)] by blast
    moreover have "mem_view ?e = mem_view e1"
    proof -
      have "bytes_at ?e = bytes_at e1" by simp
      then show ?thesis unfolding mem_view_def fun_eq_iff m by simp
    qed
    moreover have "MemEnv_RenameFile e src target = Some (OK, ?e)"
      using src e1(1,4) True by (auto simp: MemEnv_RenameFile_def map_index_def)
    ultimately show ?thesis using e1(3) True by auto
  next
    case False
    then obtain p where p: "map_of (me_map e1) src = Some p" using src e1(4) by auto
    let ?e = "e1\<lparr>me_map := om_erase src (om_put target p (me_map e1))\<rparr>"
    have "MemEnv_RenameFile e src target = Some (OK, ?e)" using src e1(1) p by (auto simp: MemEnv_RenameFile_def map_index_def)
    moreover have "mem_all_inv ?e hs lk" "mem_view ?e = (mem_view e1)(target := mem_view e1 src, src := None)"
      using all_move [OF e1(2) p _ refl] e1(4) by simp_all
    ultimately show ?thesis using e1(3) False by auto
  qed
qed

lemma all_append:
  assumes inv: "mem_all_inv e hs lk" and p: "p \<in># hs" and d: "length (the (bytes_at e p)) + length d < 2 ^ 64"
  shows "\<exists>e'. WritableFileImpl_Append fresh (e, p) d = Some (OK, e', p) \<and> mem_all_inv e' hs lk \<and> me_map e' = me_map e \<and>
    (\<forall>k. mem_view e' k = (if map_of (me_map e) k = Some p then Some (Some (the (the (mem_view e k)) @ d)) else mem_view e k))"
proof -
  note i = mem_all_invD [OF inv]
  obtain e0 where e0: "WritableFileImpl_Append fresh (unnull e, p) d = Some (OK, e0, p)" "mem_inv e0 (hs + lk)" "me_map e0 = me_map (unnull e)"
      "bytes_at e0 p = Some (the (bytes_at (unnull e) p) @ d)" "\<forall>q. q \<noteq> p \<longrightarrow> bytes_at e0 q = bytes_at (unnull e) q"
    using Append_step [OF i(2), of p d fresh] p d by auto
  obtain e' where e': "WritableFileImpl_Append fresh (e, p) d = Some (OK, e', p)" "agree e' e0" "null_names e' = null_names e" "me_map e' = me_map e"
    using Append_agree [OF i(1) e0(1)] by blast
  have "bytes_at e' = bytes_at e0" using e'(2) by (simp add: fun_eq_iff bytes_at_def deref_agree)
  then have "mem_view e' k = (if map_of (me_map e) k = Some p then Some (Some (the (the (mem_view e k)) @ d)) else mem_view e k)" for k
    using e0(4,5) e'(4) by (cases "map_of (me_map e) k") (auto simp: mem_view_def)
  moreover have "mem_all_inv e' hs lk" by (rule mem_all_invI [OF e'(2) e0(2)]) (simp_all add: e'(3) i(3))
  ultimately show ?thesis using e'(1,4) by blast
qed

lemma all_delete:
  assumes inv: "mem_all_inv e hs lk" and p: "p \<in># hs"
  shows "\<exists>e'. file_delete (e, p) = Some (e', p) \<and> mem_all_inv e' (hs - {#p#}) lk \<and> mem_view e' = mem_view e"
proof -
  note i = mem_all_invD [OF inv]
  obtain e0 where e0: "mem_Unref (unnull e) p = Some e0" "mem_inv e0 (hs + lk - {#p#})" "me_map e0 = me_map (unnull e)"
      "\<forall>q. q \<in># hs + lk - {#p#} \<or> q \<in> ran (map_of (me_map (unnull e))) \<longrightarrow> bytes_at e0 q = bytes_at (unnull e) q"
    using Unref_handle [OF i(2), of p] p by auto
  obtain e' where e': "mem_Unref e p = Some e'" "agree e' e0" "null_names e' = null_names e"
    using Unref_agree [OF i(1) e0(1)] by blast
  have "hs + lk - {#p#} = (hs - {#p#}) + lk" using p by simp
  then have "mem_all_inv e' (hs - {#p#}) lk" using mem_all_invI [OF e'(2) e0(2), of "hs - {#p#}" lk] e'(3) i(3) by simp
  moreover have "mem_files e0 = mem_files (unnull e)" using e0(3,4) by (intro mem_files_cong) auto
  then have "mem_view e' = mem_view e" by (simp add: fun_eq_iff view_agree [OF e'(2) e0(2)] view_all [OF inv] e'(3))
  ultimately show ?thesis using e'(1) by (simp add: file_delete_def)
qed

text \<open>
  All that clients can do: open files, append through a file object they hold, delete file objects, remove and
  rename files. A step exists when the operation has a defined result.
\<close>

inductive mem_op :: "(nat \<Rightarrow> nat \<Rightarrow> byte) \<Rightarrow> MemEnv \<times> nat option multiset \<times> nat option multiset \<Rightarrow>
    MemEnv \<times> nat option multiset \<times> nat option multiset \<Rightarrow> bool"
  for fresh where
  op_sequential: "MemEnv_NewSequentialFile e fname = Some (s, Some h, e') \<Longrightarrow>
    mem_op fresh (e, hs, lk) (e', add_mset (sq_file h) hs, lk)"
| op_random: "MemEnv_NewRandomAccessFile e fname = Some (s, Some p, e') \<Longrightarrow>
    mem_op fresh (e, hs, lk) (e', add_mset p hs, lk)"
| op_writable: "MemEnv_NewWritableFile e fname = Some (s, Some p, e') \<Longrightarrow>
    mem_op fresh (e, hs, lk) (e', add_mset p hs, lk)"
| op_appendable: "MemEnv_NewAppendableFile e fname = Some (s, Some p, e') \<Longrightarrow>
    mem_op fresh (e, hs, lk) (e', add_mset p hs, if map_of (me_map e) fname \<in> {None, Some None} then add_mset p lk else lk)"
| op_append: "p \<in># hs \<Longrightarrow> length (the (bytes_at e p)) + length d < 2 ^ 64 \<Longrightarrow>
    WritableFileImpl_Append fresh (e, p) d = Some (s, e', p') \<Longrightarrow> mem_op fresh (e, hs, lk) (e', hs, lk)"
| op_delete: "p \<in># hs \<Longrightarrow> file_delete (e, p) = Some (e', p') \<Longrightarrow> mem_op fresh (e, hs, lk) (e', hs - {#p#}, lk)"
| op_remove: "MemEnv_RemoveFile e fname = Some (s, e') \<Longrightarrow> mem_op fresh (e, hs, lk) (e', hs, lk)"
| op_rename: "MemEnv_RenameFile e src target = Some (s, e') \<Longrightarrow> mem_op fresh (e, hs, lk) (e', hs, lk)"

lemma null_op:
  assumes "map_of (me_map e) fname = Some None"
  shows "MemEnv_NewSequentialFile e fname = None" "MemEnv_NewRandomAccessFile e fname = None" "MemEnv_NewWritableFile e fname = None"
    "MemEnv_RemoveFile e fname = None" "MemEnv_GetFileSize e fname n = None" "RemoveFileInternal e fname = None"
  using assms
  by (simp_all add: MemEnv_NewSequentialFile_def MemEnv_NewRandomAccessFile_def MemEnv_NewWritableFile_def MemEnv_RemoveFile_def
      MemEnv_GetFileSize_def RemoveFileInternal_def map_index_def SequentialFileImpl_new_def RandomAccessFileImpl_new_def mem_Ref_def
      mem_Unref_def mem_deref_def)

lemma missing_op:
  assumes "map_of (me_map e) fname = None"
  shows "MemEnv_RemoveFile e fname = Some (IOError fname (str ''File not found''), e)"
    "MemEnv_GetFileSize e fname n = Some (IOError fname (str ''File not found''), n)"
    "MemEnv_RenameFile e fname target = Some (IOError fname (str ''File not found''), e)"
  using assms by (simp_all add: MemEnv_RemoveFile_def MemEnv_GetFileSize_def MemEnv_RenameFile_def)

lemma rename_null: "map_of (me_map e) src \<noteq> None \<Longrightarrow> map_of (me_map e) target = Some None \<Longrightarrow> MemEnv_RenameFile e src target = None"
  using null_op(6) [of e target] by (auto simp: MemEnv_RenameFile_def)

lemma all_size:
  assumes inv: "mem_all_inv e hs lk" and f: "map_of (me_map e) fname = Some (Some a)"
  shows "MemEnv_GetFileSize e fname n = Some (OK, of_nat (length (the (bytes_at e (Some a)))))"
proof -
  have "map_of (me_map (unnull e)) fname = Some (Some a)" using f inv by (simp add: map_unnull mem_all_inv_def null_names_def)
  then have "good_ptr (unnull e) (Some a)" using mem_inv_good_ptr [OF mem_all_invD(2) [OF inv]] by (blast intro: ranI)
  then obtain fs where "mem_deref e (Some a) = Some fs" "file_inv fs" by (auto simp: good_ptr_def)
  then show ?thesis using f by (simp add: MemEnv_GetFileSize_def map_index_def FileState_Size_def bytes_at_def)
qed

lemma pointer_cases:
  obtains (absent) "map_of (me_map e) fname = None" | (null) "map_of (me_map e) fname = Some None"
    | (present) a where "map_of (me_map e) fname = Some (Some a)"
  by (cases "map_of (me_map e) fname") auto

lemma mem_op_inv:
  assumes "mem_op fresh (e, hs, lk) (e', hs', lk')" "mem_all_inv e hs lk"
  shows "mem_all_inv e' hs' lk'"
  using assms(1)
proof (cases rule: mem_op.cases)
  case (op_sequential fname s h)
  then show ?thesis using all_read(1) [OF assms(2), of fname] null_op(1) [of e fname] NewFile_missing(1) [of e fname]
    by (cases e fname rule: pointer_cases) auto
next
  case (op_random fname s p)
  then show ?thesis using all_read(2) [OF assms(2), of fname] null_op(2) [of e fname] NewFile_missing(2) [of e fname]
    by (cases e fname rule: pointer_cases) auto
next
  case (op_writable fname s p)
  then have "fname \<notin> null_names e" using null_op(3) [of e fname] by (auto simp: null_names_def)
  then show ?thesis using all_writable [OF assms(2), of fname] op_writable by auto
next
  case (op_appendable fname s p)
  then show ?thesis using all_read(3) [OF assms(2), of fname] all_appendable_new [OF assms(2), of fname]
    by (cases e fname rule: pointer_cases) auto
next
  case (op_append p d s p')
  then show ?thesis using all_append [OF assms(2), of p d fresh] by auto
next
  case (op_delete p p')
  then show ?thesis using all_delete [OF assms(2), of p] by auto
next
  case (op_remove fname s)
  then show ?thesis using all_remove [OF assms(2), of fname] null_op(4) [of e fname] missing_op(1) [of e fname] assms(2)
    by (cases e fname rule: pointer_cases) auto
next
  case (op_rename src target s)
  show ?thesis
  proof (cases "map_of (me_map e) src = None")
    case True
    then show ?thesis using op_rename missing_op(3) [of e src target] assms(2) by auto
  next
    case False
    then have "target \<notin> null_names e" using op_rename rename_null [of e src target] by (auto simp: null_names_def)
    then show ?thesis using all_rename [OF assms(2) False, of target] op_rename by auto
  qed
qed

lemma mem_ops_inv: "(mem_op fresh)\<^sup>*\<^sup>* (MemEnv_new, {#}, {#}) (e, hs, lk) \<Longrightarrow> mem_all_inv e hs lk"
  by (induction "(e, hs, lk)" arbitrary: e hs lk rule: rtranclp_induct) (auto simp: mem_all_inv_new intro: mem_op_inv)

subsection \<open>Properties\<close>


lemma one_file_reachable:
  obtains e where "(mem_op fresh)\<^sup>*\<^sup>* (MemEnv_new, {#}, {#}) (e, {#Some 0#}, {#})"
    "MemEnv_NewWritableFile MemEnv_new (str ''f'') = Some (OK, Some (Some 0), e)"
    "me_map e = [(str ''f'', Some 0)]" "bytes_at e (Some 0) = Some []"
proof -
  let ?e = "\<lparr>me_heap = [0 \<mapsto> \<lparr>fs_refs = 2, fs_blocks = [], fs_size = 0\<rparr>], me_brk = 1, me_map = [(str ''f'', Some 0)]\<rparr>"
  have "MemEnv_NewWritableFile MemEnv_new (str ''f'') = Some (OK, Some (Some 0), ?e)"
    by (simp add: MemEnv_NewWritableFile_def MemEnv_new_def mem_alloc_def WritableFileImpl_new_def mem_Ref_def mem_deref_def
        mem_store_def FileState_Ref_def FileState_new_def)
  moreover from this have "(mem_op fresh)\<^sup>*\<^sup>* (MemEnv_new, {#}, {#}) (?e, {#Some 0#}, {#})"
    using mem_op.op_writable [of MemEnv_new "str ''f''" OK "Some 0" ?e fresh "{#}" "{#}"] by auto
  moreover have "bytes_at ?e (Some 0) = Some []" by (simp add: bytes_at_def mem_deref_def file_bytes_def)
  ultimately show thesis using that by simp
qed


text \<open>
  C9: The in-memory environment refines a map from names to contents, over every sequence of operations. A
  name shows nothing, a file, or the null pointer that \<open>NewAppendableFile\<close> leaves for a name without a file. For
  each operation: what it returns, and the map afterwards. Creating empties the named file; appending adds
  to the end of the file of the file object, if it has a name; opening, sizing, removing and renaming report
  a missing name as an IO error; renaming moves what the name shows and drops what the target had, and a
  file renamed onto itself is lost. On a null pointer the operations that follow it have no result.
\<close>

theorem memenv_refines_map:
  assumes "(mem_op fresh)\<^sup>*\<^sup>* (MemEnv_new, {#}, {#}) (e, hs, lk)"
  shows "(if mem_view e fname = Some None then MemEnv_NewWritableFile e fname = None
      else \<exists>p e'. MemEnv_NewWritableFile e fname = Some (OK, Some p, e') \<and> mem_view e' = (mem_view e)(fname \<mapsto> Some [])) \<and>
    (\<exists>p e'. MemEnv_NewAppendableFile e fname = Some (OK, Some p, e') \<and>
      (case mem_view e fname of
         Some (Some d) \<Rightarrow> mem_view e' = mem_view e \<and> bytes_at e' p = Some d
       | _ \<Rightarrow> mem_view e' = (mem_view e)(fname \<mapsto> None) \<and> bytes_at e' p = Some [])) \<and>
    (p \<in># hs \<and> length (the (bytes_at e p)) + length d < 2 ^ 64 \<longrightarrow>
      (\<exists>e'. WritableFileImpl_Append fresh (e, p) d = Some (OK, e', p) \<and>
        (\<forall>k. mem_view e' k = (if map_of (me_map e) k = Some p then Some (Some (the (the (mem_view e k)) @ d)) else mem_view e k)))) \<and>
    (case mem_view e fname of
       None \<Rightarrow> MemEnv_NewSequentialFile e fname = Some (IOError fname (str ''File not found''), None, e) \<and>
         MemEnv_NewRandomAccessFile e fname = Some (IOError fname (str ''File not found''), None, e) \<and>
         MemEnv_GetFileSize e fname n = Some (IOError fname (str ''File not found''), n) \<and>
         MemEnv_RemoveFile e fname = Some (IOError fname (str ''File not found''), e)
     | Some None \<Rightarrow> MemEnv_NewSequentialFile e fname = None \<and> MemEnv_NewRandomAccessFile e fname = None \<and>
         MemEnv_GetFileSize e fname n = None \<and> MemEnv_RemoveFile e fname = None
     | Some (Some d) \<Rightarrow>
         (\<exists>h e'. MemEnv_NewSequentialFile e fname = Some (OK, Some h, e') \<and> mem_view e' = mem_view e \<and>
           bytes_at e' (sq_file h) = Some d \<and> sq_pos h = 0) \<and>
         (\<exists>p e'. MemEnv_NewRandomAccessFile e fname = Some (OK, Some p, e') \<and> mem_view e' = mem_view e \<and> bytes_at e' p = Some d) \<and>
         MemEnv_GetFileSize e fname n = Some (OK, of_nat (length d)) \<and>
         (\<exists>e'. MemEnv_RemoveFile e fname = Some (OK, e') \<and> mem_view e' = (mem_view e)(fname := None))) \<and>
    (if mem_view e fname = None then MemEnv_RenameFile e fname target = Some (IOError fname (str ''File not found''), e)
     else if mem_view e target = Some None then MemEnv_RenameFile e fname target = None
     else \<exists>e'. MemEnv_RenameFile e fname target = Some (OK, e') \<and> mem_view e' =
       (if fname = target then (mem_view e)(fname := None) else (mem_view e)(target := mem_view e fname, fname := None)))"
    (is "?W \<and> ?A \<and> ?D \<and> ?N \<and> ?R")
proof -
  have inv: "mem_all_inv e hs lk" using assms by (rule mem_ops_inv)
  note vc = view_cases [OF inv]
  have null: "map_of (me_map e) k = Some None" if "mem_view e k = Some None" for k using that vc(2) by (simp add: null_names_def)
  have W: ?W using all_writable [OF inv, of fname] null_op(3) [of e fname] null [of fname] vc(2) [of fname] by auto
  have A: ?A
  proof (cases e fname rule: pointer_cases)
    case (present a)
    then have "mem_view e fname = Some (bytes_at e (Some a))" by (simp add: mem_view_def)
    moreover from this obtain d where "bytes_at e (Some a) = Some d" using vc(2) [of fname] present by (auto simp: null_names_def)
    ultimately show ?thesis using all_read(3) [OF inv present] by auto
  next
    case absent
    then show ?thesis using all_appendable_new [OF inv, of fname] by (auto simp: mem_view_def)
  next
    case null
    then have "mem_view e fname = Some None" using vc(2) by (simp add: null_names_def)
    then show ?thesis using all_appendable_new [OF inv, of fname] null by auto
  qed
  have D: ?D using all_append [OF inv, of p d fresh] by blast
  have N: ?N
  proof (cases "mem_view e fname")
    case None
    then show ?thesis using vc(1) [of fname] by (simp add: NewFile_missing missing_op)
  next
    case (Some r)
    show ?thesis
    proof (cases r)
      case None
      then show ?thesis using Some null_op [OF null [of fname]] by simp
    next
      case (Some d)
      then obtain a where a: "map_of (me_map e) fname = Some (Some a)" "bytes_at e (Some a) = Some d"
        using vc(3) [of fname d] \<open>mem_view e fname = Some r\<close> by blast
      have "\<exists>h e'. MemEnv_NewSequentialFile e fname = Some (OK, Some h, e') \<and> mem_view e' = mem_view e \<and>
          bytes_at e' (sq_file h) = Some d \<and> sq_pos h = 0"
        using all_read(1) [OF inv a(1)] a(2) by (metis SequentialFileImpl.select_convs)
      then show ?thesis
        using Some \<open>mem_view e fname = Some r\<close> all_read(2) [OF inv a(1)] all_size [OF inv a(1)] all_remove [OF inv a(1)] a(2) by auto
    qed
  qed
  have R: ?R using missing_op(3) [of e fname target] rename_null [of e fname target] all_rename [OF inv, of fname target]
      vc(1) [of fname] vc(2) [of target] null [of target] by auto
  show ?thesis using W A D N R by blast
qed

theorem memenv_refines_map_witness:
  "\<exists>e. (mem_op (\<lambda>i j. 0))\<^sup>*\<^sup>* (MemEnv_new, {#}, {#}) (e, {#Some 0#}, {#}) \<and> mem_view e = [str ''f'' \<mapsto> Some []] \<and>
     (\<exists>e'. WritableFileImpl_Append (\<lambda>i j. 0) (e, Some 0) [7, 8] = Some (OK, e', Some 0) \<and> mem_view e' (str ''f'') = Some (Some [7, 8])) \<and>
     MemEnv_GetFileSize e (str ''f'') 5 = Some (OK, 0) \<and>
     (\<exists>e'. MemEnv_RemoveFile e (str ''f'') = Some (OK, e') \<and> mem_view e' = Map.empty) \<and>
     (\<exists>e'. MemEnv_RenameFile e (str ''f'') (str ''g'') = Some (OK, e') \<and> mem_view e' = [str ''g'' \<mapsto> Some []]) \<and>
     MemEnv_RenameFile e (str ''x'') (str ''g'') = Some (IOError (str ''x'') (str ''File not found''), e)"
proof -
  obtain e where e: "(mem_op (\<lambda>i j. 0))\<^sup>*\<^sup>* (MemEnv_new, {#}, {#}) (e, {#Some 0#}, {#})" "me_map e = [(str ''f'', Some 0)]"
      "bytes_at e (Some 0) = Some []"
    using one_file_reachable by blast
  have v: "mem_view e = [str ''f'' \<mapsto> Some []]" using e(2,3) by (auto simp: mem_view_def fun_eq_iff)
  have x: "str ''x'' \<noteq> str ''f''" "str ''g'' \<noteq> str ''f''" "str ''f'' \<noteq> str ''g''" by (simp_all add: str_def)
  have g: "[str ''f'' \<mapsto> Some []](str ''g'' \<mapsto> Some [], str ''f'' := None) = [str ''g'' \<mapsto> Some []]" using x by (auto simp: fun_eq_iff)
  note r = memenv_refines_map [OF e(1), where p = "Some 0" and d = "[7, 8]" and n = 5 and target = "str ''g''"]
  have "\<exists>e'. WritableFileImpl_Append (\<lambda>i j. 0) (e, Some 0) [7, 8] = Some (OK, e', Some 0) \<and> mem_view e' (str ''f'') = Some (Some [7, 8])"
    using r [of "str ''f''"] e(2,3) v by fastforce
  moreover have "MemEnv_GetFileSize e (str ''f'') 5 = Some (OK, 0)" using r [of "str ''f''"] v by simp
  moreover have "\<exists>e'. MemEnv_RemoveFile e (str ''f'') = Some (OK, e') \<and> mem_view e' = Map.empty" using r [of "str ''f''"] v by simp
  moreover have "\<exists>e'. MemEnv_RenameFile e (str ''f'') (str ''g'') = Some (OK, e') \<and> mem_view e' = [str ''g'' \<mapsto> Some []]"
    using r [of "str ''f''"] v x g by simp
  moreover have "MemEnv_RenameFile e (str ''x'') (str ''g'') = Some (IOError (str ''x'') (str ''File not found''), e)"
    using r [of "str ''x''"] v x by simp
  ultimately show ?thesis using e(1) v by blast
qed

end
