(* ===== verification/Spec2Isabelle.thy ===== *)
theory Spec2Isabelle
  imports WriteBatch Log DBIter Filename VersionEdit MemenvMap
begin

text \<open>
  Verification of a log-structured key-value store.
\<close>

end
